(* ===== verification/Prelude.thy ===== *)
theory Prelude
  imports
    "HOL-Library.Word"
    "HOL-Library.Monad_Syntax"
begin

text \<open>
  Shared vocabulary of the development: machine types, status values, bounds-checked access to
  byte buffers, the little-endian view of machine words, and the list lemmas that several
  components use.

  Conventions. A C++ \<open>char\<close> buffer is a list of \<open>8 word\<close>. A raw pointer read that the C++ code
  does not check itself is modelled by a function of result type \<open>option\<close>: \<open>None\<close> stands for an
  access outside the buffer, that is, for undefined behaviour. A \<open>uint64_t\<close>, \<open>uint32_t\<close> or
  \<open>uint8_t\<close> that is stored or encoded is a word of that width; a size or an index of an
  in-memory object is a \<open>nat\<close>, and where C++ subtracts two of them without a check the
  wrap-around at \<open>2 ^ 64\<close> is written out (\<open>usub64\<close>).
\<close>

unbundle bit_operations_syntax

named_theorems coding_simps \<open>round trips and lengths of the byte encodings\<close>
named_theorems status_simps \<open>facts about status values\<close>

section \<open>Machine types\<close>

type_synonym byte = "8 word"
type_synonym bytes = "8 word list"
type_synonym u8 = "8 word"
type_synonym u16 = "16 word"
type_synonym u32 = "32 word"
type_synonym u64 = "64 word"

text \<open>\<open>rocksdb::Status\<close>: the code of the status; the human readable message is not modelled.\<close>

datatype status =
    OK
  | NotFound
  | Corruption
  | NotSupported
  | InvalidArgument
  | IOError
  | Busy
  | MemoryLimit
  | NoSpace
  | TryAgain

definition ok :: "status \<Rightarrow> bool" where
  "ok s \<longleftrightarrow> s = OK"

lemma ok_simps [simp, status_simps]:
  "ok OK" "\<not> ok NotFound" "\<not> ok Corruption" "\<not> ok NotSupported" "\<not> ok InvalidArgument"
  "\<not> ok IOError" "\<not> ok Busy" "\<not> ok MemoryLimit" "\<not> ok NoSpace" "\<not> ok TryAgain"
  by (simp_all add: ok_def)

lemma ok_iff: "ok s \<longleftrightarrow> s = OK"
  by (simp add: ok_def)

text \<open>Subtraction of \<open>size_t\<close> values: it wraps at \<open>2 ^ 64\<close>.\<close>

definition usub64 :: "nat \<Rightarrow> nat \<Rightarrow> nat" where
  "usub64 a b = (if b \<le> a then a - b else nat ((int a - int b) mod 2 ^ 64))"

lemma usub64_le [simp]: "b \<le> a \<Longrightarrow> usub64 a b = a - b"
  by (simp add: usub64_def)

text \<open>Rounding up to a multiple, the idiom \<open>((n + b - 1) / b) * b\<close> of the sources.\<close>

definition ceil_div :: "nat \<Rightarrow> nat \<Rightarrow> nat" where
  "ceil_div n b = (n + b - 1) div b"

lemma ceil_div_upper: "0 < b \<Longrightarrow> n \<le> ceil_div n b * b"
proof -
  assume b: "0 < b"
  have "n + b - 1 = ceil_div n b * b + (n + b - 1) mod b"
    by (simp add: ceil_div_def)
  moreover have "(n + b - 1) mod b < b"
    using b by simp
  ultimately show "n \<le> ceil_div n b * b"
    by linarith
qed

lemma ceil_div_le_iff: "0 < b \<Longrightarrow> ceil_div n b \<le> k \<longleftrightarrow> n \<le> k * b"
proof
  assume b: "0 < b" and "ceil_div n b \<le> k"
  then have "ceil_div n b * b \<le> k * b" by simp
  with ceil_div_upper [OF b, of n] show "n \<le> k * b" by linarith
next
  assume b: "0 < b" and le: "n \<le> k * b"
  then have "n + b - 1 < Suc k * b" by simp
  then show "ceil_div n b \<le> k"
    by (simp add: ceil_div_def less_mult_imp_div_less less_Suc_eq_le [symmetric] del: mult_Suc)
qed

lemma ceil_div_le_self: "0 < b \<Longrightarrow> ceil_div n b \<le> n"
  by (cases b) (simp_all add: ceil_div_le_iff)

lemma ceil_div_0 [simp]: "0 < b \<Longrightarrow> ceil_div 0 b = 0"
  by (simp add: ceil_div_def)

lemma ceil_div_eq_1 [simp]: "0 < n \<Longrightarrow> n \<le> b \<Longrightarrow> ceil_div n b = 1"
proof -
  assume "0 < n" and "n \<le> b"
  then show "ceil_div n b = 1"
    unfolding ceil_div_def by (intro div_nat_eqI) auto
qed

section \<open>Bounds-checked access to a buffer\<close>

definition byte_at :: "bytes \<Rightarrow> nat \<Rightarrow> byte option" where
  "byte_at xs i = (if i < length xs then Some (xs ! i) else None)"

definition read_range :: "'a list \<Rightarrow> nat \<Rightarrow> nat \<Rightarrow> 'a list option" where
  "read_range xs off n = (if off + n \<le> length xs then Some (take n (drop off xs)) else None)"

text \<open>\<open>memcpy\<close> into a buffer of fixed size; \<open>None\<close> is a write past its end.\<close>

definition write_range :: "'a list \<Rightarrow> nat \<Rightarrow> 'a list \<Rightarrow> 'a list option" where
  "write_range xs off ys =
     (if off + length ys \<le> length xs then Some (take off xs @ ys @ drop (off + length ys) xs) else None)"

lemma read_range_append [simp]:
  "length pre = off \<Longrightarrow> length ys = n \<Longrightarrow> read_range (pre @ ys @ post) off n = Some ys"
  by (auto simp: read_range_def)

lemma read_range_append2 [simp]:
  "length pre = off \<Longrightarrow> length ys = n \<Longrightarrow> read_range (pre @ ys) off n = Some ys"
  by (auto simp: read_range_def)

lemma read_range_SomeD: "read_range xs off n = Some ys \<Longrightarrow> length ys = n \<and> off + n \<le> length xs"
  by (auto simp: read_range_def split: if_splits)

lemma read_range_None: "read_range xs off n = None \<longleftrightarrow> length xs < off + n"
  by (auto simp: read_range_def)

lemma write_range_length: "write_range xs off ys = Some zs \<Longrightarrow> length zs = length xs"
  by (auto simp: write_range_def split: if_splits)

lemma write_range_SomeD:
  "write_range xs off ys = Some zs \<Longrightarrow> length zs = length xs \<and> off + length ys \<le> length xs"
  by (auto simp: write_range_def split: if_splits)

lemma write_range_None: "write_range xs off ys = None \<longleftrightarrow> length xs < off + length ys"
  by (auto simp: write_range_def)

lemma write_range_read:
  "write_range xs off ys = Some zs \<Longrightarrow> read_range zs off (length ys) = Some ys"
  by (auto simp: write_range_def read_range_def min_def split: if_splits)

lemma write_range_prefix:
  "write_range xs off ys = Some zs \<Longrightarrow> n \<le> off \<Longrightarrow> take n zs = take n xs"
  by (auto simp: write_range_def min_def split: if_splits)

section \<open>Little-endian bytes of a word\<close>

lemma ff_eq_mask: "(0xff :: 'a::len word) = mask 8"
  by (simp add: mask_eq_exp_minus_1)

lemma ucast_byte_and_ff [simp]: "(ucast (v AND 0xff :: 'a::len word) :: byte) = ucast v"
  unfolding ff_eq_mask by (rule bit_word_eqI) (auto simp: bit_simps dest: bit_imp_le_length)

primrec le_bytes :: "nat \<Rightarrow> 'a::len word \<Rightarrow> bytes" where
  "le_bytes 0 v = []"
| "le_bytes (Suc n) v = ucast v # le_bytes n (drop_bit 8 v)"

primrec le_word :: "bytes \<Rightarrow> 'a::len word" where
  "le_word [] = 0"
| "le_word (b # bs) = ucast b OR push_bit 8 (le_word bs)"

lemma length_le_bytes [simp]: "length (le_bytes n v) = n"
  by (induction n arbitrary: v) auto

lemma le_word_le_bytes: "le_word (le_bytes n v) = take_bit (8 * n) (v :: 'a::len word)"
proof (induction n arbitrary: v)
  case 0
  then show ?case by simp
next
  case (Suc n)
  show ?case
    by (rule bit_word_eqI) (auto simp: Suc bit_simps)
qed

lemma le_bytes_inj: "8 * n \<ge> LENGTH('a) \<Longrightarrow> le_bytes n (v :: 'a::len word) = le_bytes n w \<Longrightarrow> v = w"
  by (metis le_word_le_bytes take_bit_word_eq_self)

lemma bit_le_word_bound: "bit (le_word bs :: 'a::len word) m \<Longrightarrow> m < 8 * length bs"
proof (induction bs arbitrary: m)
  case (Cons b bs)
  then show ?case
    by (auto simp: bit_simps dest: bit_imp_le_length) (metis add_diff_inverse_nat nat_add_left_cancel_less not_less)
qed simp

lemma le_bytes_length_le_word:
  assumes "8 * length bs \<le> LENGTH('a)"
  shows "le_bytes (length bs) (le_word bs :: 'a::len word) = bs"
  using assms
proof (induction bs)
  case (Cons b bs)
  then have len: "8 * length bs + 8 \<le> LENGTH('a)" by simp
  have "(ucast (ucast b OR push_bit 8 (le_word bs) :: 'a word) :: byte) = b"
    using len by (intro bit_word_eqI) (auto simp: bit_simps)
  moreover have "drop_bit 8 (ucast b OR push_bit 8 (le_word bs) :: 'a word) = le_word bs"
    using len by (intro bit_word_eqI) (auto simp: bit_simps dest: bit_imp_le_length bit_le_word_bound)
  ultimately show ?case using Cons by simp
qed simp

lemma le_bytes_le_word:
  "length bs = n \<Longrightarrow> 8 * n \<le> LENGTH('a) \<Longrightarrow> le_bytes n (le_word bs :: 'a::len word) = bs"
  using le_bytes_length_le_word by blast

end
