(* ===== verification/Coding.thy ===== *)
theory Coding
  imports Prelude
begin

text \<open>
  The byte encodings of \<open>util/coding_lean.h\<close>, \<open>util/coding.h\<close> and \<open>util/coding.cc\<close>: fixed-width
  little-endian integers, base-128 varints and length-prefixed slices. A \<open>const char*\<close> into a
  buffer is the list of the bytes from it to the end of the buffer; \<open>Get...\<close> functions, which
  advance a \<open>Slice*\<close>, return the value with the remaining slice; the \<open>Put...\<close> functions, which
  append to a \<open>std::string*\<close>, take and return the string.

  The locale \<open>prefix_codec\<close> is the contract every encoder/decoder pair of the program is used
  under; it is interpreted here for the six codecs of this file and, in later theories, for the
  codecs of the program built on them.
\<close>

section \<open>Fixed-width integers\<close>

text \<open>\<open>port::kLittleEndian\<close> on the x86 hosts the system runs on. The encoders branch on it, and
  the \<open>_on\<close> variants take it as an argument so that both branches are part of the model.\<close>

definition kLittleEndian :: bool where
  "kLittleEndian = True"

definition EncodeFixed8 :: "u8 \<Rightarrow> bytes" where
  "EncodeFixed8 value = le_bytes 1 value"

definition EncodeFixed16_on :: "bool \<Rightarrow> u16 \<Rightarrow> bytes" where
  "EncodeFixed16_on le value =
     (if le then le_bytes 2 value
      else [ucast (value AND 0xff), ucast (drop_bit 8 value AND 0xff)])"

definition EncodeFixed32_on :: "bool \<Rightarrow> u32 \<Rightarrow> bytes" where
  "EncodeFixed32_on le value =
     (if le then le_bytes 4 value
      else [ucast (value AND 0xff), ucast (drop_bit 8 value AND 0xff),
            ucast (drop_bit 16 value AND 0xff), ucast (drop_bit 24 value AND 0xff)])"

definition EncodeFixed64_on :: "bool \<Rightarrow> u64 \<Rightarrow> bytes" where
  "EncodeFixed64_on le value =
     (if le then le_bytes 8 value
      else [ucast (value AND 0xff), ucast (drop_bit 8 value AND 0xff),
            ucast (drop_bit 16 value AND 0xff), ucast (drop_bit 24 value AND 0xff),
            ucast (drop_bit 32 value AND 0xff), ucast (drop_bit 40 value AND 0xff),
            ucast (drop_bit 48 value AND 0xff), ucast (drop_bit 56 value AND 0xff)])"

definition EncodeFixed16 :: "u16 \<Rightarrow> bytes" where
  "EncodeFixed16 = EncodeFixed16_on kLittleEndian"

definition EncodeFixed32 :: "u32 \<Rightarrow> bytes" where
  "EncodeFixed32 = EncodeFixed32_on kLittleEndian"

definition EncodeFixed64 :: "u64 \<Rightarrow> bytes" where
  "EncodeFixed64 = EncodeFixed64_on kLittleEndian"

definition DecodeFixed8 :: "bytes \<Rightarrow> u8 option" where
  "DecodeFixed8 ptr = map_option le_word (read_range ptr 0 1)"

definition DecodeFixed16_on :: "bool \<Rightarrow> bytes \<Rightarrow> u16 option" where
  "DecodeFixed16_on le ptr =
     (if le then map_option le_word (read_range ptr 0 2)
      else do { b0 \<leftarrow> byte_at ptr 0; b1 \<leftarrow> byte_at ptr 1;
                Some (ucast b0 OR push_bit 8 (ucast b1)) })"

definition DecodeFixed32_on :: "bool \<Rightarrow> bytes \<Rightarrow> u32 option" where
  "DecodeFixed32_on le ptr =
     (if le then map_option le_word (read_range ptr 0 4)
      else do { b0 \<leftarrow> byte_at ptr 0; b1 \<leftarrow> byte_at ptr 1; b2 \<leftarrow> byte_at ptr 2; b3 \<leftarrow> byte_at ptr 3;
                Some (ucast b0 OR push_bit 8 (ucast b1) OR push_bit 16 (ucast b2)
                      OR push_bit 24 (ucast b3)) })"

definition DecodeFixed64_on :: "bool \<Rightarrow> bytes \<Rightarrow> u64 option" where
  "DecodeFixed64_on le ptr =
     (if le then map_option le_word (read_range ptr 0 8)
      else do { lo \<leftarrow> DecodeFixed32_on le ptr; hi \<leftarrow> DecodeFixed32_on le (drop 4 ptr);
                Some (push_bit 32 (ucast hi) OR ucast lo) })"

definition DecodeFixed16 :: "bytes \<Rightarrow> u16 option" where
  "DecodeFixed16 = DecodeFixed16_on kLittleEndian"

definition DecodeFixed32 :: "bytes \<Rightarrow> u32 option" where
  "DecodeFixed32 = DecodeFixed32_on kLittleEndian"

definition DecodeFixed64 :: "bytes \<Rightarrow> u64 option" where
  "DecodeFixed64 = DecodeFixed64_on kLittleEndian"

definition PutFixed8 :: "bytes \<Rightarrow> u8 \<Rightarrow> bytes" where
  "PutFixed8 dst value = dst @ le_bytes 1 value"

definition PutFixed16 :: "bytes \<Rightarrow> u16 \<Rightarrow> bytes" where
  "PutFixed16 dst value = (if kLittleEndian then dst @ le_bytes 2 value else dst @ EncodeFixed16 value)"

definition PutFixed32 :: "bytes \<Rightarrow> u32 \<Rightarrow> bytes" where
  "PutFixed32 dst value = (if kLittleEndian then dst @ le_bytes 4 value else dst @ EncodeFixed32 value)"

definition PutFixed64 :: "bytes \<Rightarrow> u64 \<Rightarrow> bytes" where
  "PutFixed64 dst value = (if kLittleEndian then dst @ le_bytes 8 value else dst @ EncodeFixed64 value)"

definition GetFixed8 :: "bytes \<Rightarrow> (u8 \<times> bytes) option" where
  "GetFixed8 input =
     (if length input < 1 then None else map_option (\<lambda>v. (v, drop 1 input)) (DecodeFixed8 input))"

definition GetFixed16 :: "bytes \<Rightarrow> (u16 \<times> bytes) option" where
  "GetFixed16 input =
     (if length input < 2 then None else map_option (\<lambda>v. (v, drop 2 input)) (DecodeFixed16 input))"

definition GetFixed32 :: "bytes \<Rightarrow> (u32 \<times> bytes) option" where
  "GetFixed32 input =
     (if length input < 4 then None else map_option (\<lambda>v. (v, drop 4 input)) (DecodeFixed32 input))"

definition GetFixed64 :: "bytes \<Rightarrow> (u64 \<times> bytes) option" where
  "GetFixed64 input =
     (if length input < 8 then None else map_option (\<lambda>v. (v, drop 8 input)) (DecodeFixed64 input))"

section \<open>Varints and length-prefixed slices\<close>

lemma unat_drop_bit_7_less:
  assumes "128 \<le> (v :: u64)"
  shows "unat (drop_bit 7 v) < unat v"
proof -
  have "128 \<le> unat v" using assms by (simp add: word_le_nat_alt)
  then show ?thesis unfolding unat_drop_bit_eq by (simp add: drop_bit_eq_div)
qed

function EncodeVarint64 :: "u64 \<Rightarrow> bytes" where
  "EncodeVarint64 v =
     (if v \<ge> 128 then ucast ((v AND (128 - 1)) OR 128) # EncodeVarint64 (drop_bit 7 v)
      else [ucast v])"
  by pat_completeness auto
termination
  by (relation "measure unat") (simp_all add: unat_drop_bit_7_less)

declare EncodeVarint64.simps [simp del]

definition PutVarint64 :: "bytes \<Rightarrow> u64 \<Rightarrow> bytes" where
  "PutVarint64 dst v = dst @ EncodeVarint64 v"

definition EncodeVarint32 :: "u32 \<Rightarrow> bytes" where
  "EncodeVarint32 v =
     (if v < push_bit 7 1 then [ucast v]
      else if v < push_bit 14 1 then [ucast (v OR 128), ucast (drop_bit 7 v)]
      else if v < push_bit 21 1 then
        [ucast (v OR 128), ucast (drop_bit 7 v OR 128), ucast (drop_bit 14 v)]
      else if v < push_bit 28 1 then
        [ucast (v OR 128), ucast (drop_bit 7 v OR 128), ucast (drop_bit 14 v OR 128),
         ucast (drop_bit 21 v)]
      else
        [ucast (v OR 128), ucast (drop_bit 7 v OR 128), ucast (drop_bit 14 v OR 128),
         ucast (drop_bit 21 v OR 128), ucast (drop_bit 28 v)])"

definition PutVarint32 :: "bytes \<Rightarrow> u32 \<Rightarrow> bytes" where
  "PutVarint32 dst v = dst @ EncodeVarint32 v"

function VarintLength_loop :: "u64 \<Rightarrow> nat \<Rightarrow> nat" where
  "VarintLength_loop v len = (if v \<ge> 128 then VarintLength_loop (drop_bit 7 v) (len + 1) else len)"
  by pat_completeness auto
termination
  by (relation "measure (\<lambda>(v, _). unat v)") (simp_all add: unat_drop_bit_7_less)

declare VarintLength_loop.simps [simp del]

definition VarintLength :: "u64 \<Rightarrow> nat" where
  "VarintLength v = VarintLength_loop v 1"

text \<open>The loop shared in shape by \<open>GetVarint32PtrFallback\<close> (last shift 28) and \<open>GetVarint64Ptr\<close>
  (last shift 63); \<open>result\<close> and \<open>shift\<close> are the variables of the source.\<close>

fun GetVarintPtr_loop :: "nat \<Rightarrow> nat \<Rightarrow> 'a::len word \<Rightarrow> bytes \<Rightarrow> ('a word \<times> bytes) option" where
  "GetVarintPtr_loop max_shift shift result [] = None"
| "GetVarintPtr_loop max_shift shift result (p # ps) =
     (if shift \<le> max_shift then
        let byte = (ucast p :: 'a word) in
        if byte AND 128 \<noteq> 0
        then GetVarintPtr_loop max_shift (shift + 7) (result OR push_bit shift (byte AND 127)) ps
        else Some (result OR push_bit shift byte, ps)
      else None)"

definition GetVarint32PtrFallback :: "bytes \<Rightarrow> (u32 \<times> bytes) option" where
  "GetVarint32PtrFallback p = GetVarintPtr_loop 28 0 0 p"

definition GetVarint64Ptr :: "bytes \<Rightarrow> (u64 \<times> bytes) option" where
  "GetVarint64Ptr p = GetVarintPtr_loop 63 0 0 p"

definition GetVarint32Ptr :: "bytes \<Rightarrow> (u32 \<times> bytes) option" where
  "GetVarint32Ptr p =
     (case p of
        [] \<Rightarrow> GetVarint32PtrFallback p
      | b # ps \<Rightarrow>
          let result = (ucast b :: u32) in
          if result AND 128 = 0 then Some (result, ps) else GetVarint32PtrFallback p)"

definition GetVarint32 :: "bytes \<Rightarrow> (u32 \<times> bytes) option" where
  "GetVarint32 input = GetVarint32Ptr input"

definition GetVarint64 :: "bytes \<Rightarrow> (u64 \<times> bytes) option" where
  "GetVarint64 input = GetVarint64Ptr input"

definition PutLengthPrefixedSlice :: "bytes \<Rightarrow> bytes \<Rightarrow> bytes" where
  "PutLengthPrefixedSlice dst value = PutVarint32 dst (word_of_nat (length value)) @ value"

definition GetLengthPrefixedSlice :: "bytes \<Rightarrow> (bytes \<times> bytes) option" where
  "GetLengthPrefixedSlice input =
     (case GetVarint32 input of
        None \<Rightarrow> None
      | Some (len, input') \<Rightarrow>
          if length input' \<ge> unat len then Some (take (unat len) input', drop (unat len) input')
          else None)"

section \<open>The contract of an encoder and its decoder\<close>

text \<open>\<open>put\<close> appends an encoding to a string and \<open>get\<close> reads one off the front of a slice. What
  the program relies on: what was put is what is got, with nothing of the following bytes
  consumed, and a successful \<open>get\<close> consumes a non-empty prefix of its own input only.\<close>

locale prefix_codec =
  fixes put :: "bytes \<Rightarrow> 'a \<Rightarrow> bytes"
    and get :: "bytes \<Rightarrow> ('a \<times> bytes) option"
    and valid :: "'a \<Rightarrow> bool"
  assumes put_appends: "put dst x = dst @ put [] x"
    and get_put: "valid x \<Longrightarrow> get (put [] x @ rest) = Some (x, rest)"
    and get_consumes: "get input = Some (x, rest) \<Longrightarrow> \<exists>pre. pre \<noteq> [] \<and> input = pre @ rest"
begin

lemma get_put_nil: "valid x \<Longrightarrow> get (put [] x) = Some (x, [])"
  using get_put [of x "[]"] by simp

lemma put_nonempty: "valid x \<Longrightarrow> put [] x \<noteq> []"
proof
  assume "valid x" and "put [] x = []"
  then have "get [] = Some (x, [])" using get_put_nil [of x] by simp
  then show False using get_consumes by blast
qed

lemma get_shrinks: "get input = Some (x, rest) \<Longrightarrow> length rest < length input"
  by (auto dest!: get_consumes)

lemma prefix_free:
  assumes "valid x" and "valid y" and "put [] x @ r = put [] y @ s"
  shows "x = y \<and> r = s"
  using assms get_put [of x r] get_put [of y s] by (metis option.inject prod.inject)

lemma put_put: "put (put dst x) y = dst @ put [] x @ put [] y"
  by (metis append.assoc put_appends)

end

section \<open>Fixed-width integers: lemmas\<close>

lemma EncodeFixed16_on_eq [simp]: "EncodeFixed16_on le v = le_bytes 2 v"
  by (simp add: EncodeFixed16_on_def numeral_eq_Suc)

lemma EncodeFixed32_on_eq [simp]: "EncodeFixed32_on le v = le_bytes 4 v"
  by (simp add: EncodeFixed32_on_def numeral_eq_Suc)

lemma EncodeFixed64_on_eq [simp]: "EncodeFixed64_on le v = le_bytes 8 v"
  by (simp add: EncodeFixed64_on_def numeral_eq_Suc)

lemmas EncodeFixed_eq [simp] =
  EncodeFixed8_def EncodeFixed16_def EncodeFixed32_def EncodeFixed64_def

lemma PutFixed_eq [coding_simps]:
  "PutFixed8 dst v8 = dst @ EncodeFixed8 v8"
  "PutFixed16 dst v16 = dst @ EncodeFixed16 v16"
  "PutFixed32 dst v32 = dst @ EncodeFixed32 v32"
  "PutFixed64 dst v64 = dst @ EncodeFixed64 v64"
  by (simp_all add: PutFixed8_def PutFixed16_def PutFixed32_def PutFixed64_def)

lemma length_EncodeFixed:
  "length (EncodeFixed8 v8) = 1" "length (EncodeFixed16 v16) = 2"
  "length (EncodeFixed32 v32) = 4" "length (EncodeFixed64 v64) = 8"
  by simp_all

lemma DecodeFixed_EncodeFixed:
  "DecodeFixed8 (EncodeFixed8 v8 @ rest) = Some v8"
  "DecodeFixed16 (EncodeFixed16 v16 @ rest) = Some v16"
  "DecodeFixed32 (EncodeFixed32 v32 @ rest) = Some v32"
  "DecodeFixed64 (EncodeFixed64 v64 @ rest) = Some v64"
  by (simp_all add: DecodeFixed8_def DecodeFixed16_def DecodeFixed32_def DecodeFixed64_def
      DecodeFixed16_on_def DecodeFixed32_on_def DecodeFixed64_on_def kLittleEndian_def
      read_range_def le_word_le_bytes take_bit_word_eq_self del: le_bytes.simps)

lemma DecodeFixed_defined:
  "DecodeFixed8 p = None \<longleftrightarrow> length p < 1"
  "DecodeFixed16 p = None \<longleftrightarrow> length p < 2"
  "DecodeFixed32 p = None \<longleftrightarrow> length p < 4"
  "DecodeFixed64 p = None \<longleftrightarrow> length p < 8"
  by (auto simp: DecodeFixed8_def DecodeFixed16_def DecodeFixed32_def DecodeFixed64_def
      DecodeFixed16_on_def DecodeFixed32_on_def DecodeFixed64_on_def kLittleEndian_def read_range_def
      Suc_le_eq)

lemma DecodeFixed_eq:
  "DecodeFixed32 p = (if 4 \<le> length p then Some (le_word (take 4 p)) else None)"
  "DecodeFixed64 p = (if 8 \<le> length p then Some (le_word (take 8 p)) else None)"
  by (simp_all add: DecodeFixed32_def DecodeFixed64_def DecodeFixed32_on_def DecodeFixed64_on_def
      kLittleEndian_def read_range_def)

lemma le_word_nth2: "length xs = 2 \<Longrightarrow> le_word xs = (ucast (xs ! 0) OR push_bit 8 (ucast (xs ! 1)) :: 'a::len word)"
  by (auto simp: numeral_eq_Suc length_Suc_conv)

lemma le_word_nth4:
  "length xs = 4 \<Longrightarrow>
   le_word xs = (ucast (xs ! 0) OR push_bit 8 (ucast (xs ! 1)) OR push_bit 16 (ucast (xs ! 2))
                 OR push_bit 24 (ucast (xs ! 3)) :: 'a::len word)"
  by (auto simp: numeral_eq_Suc length_Suc_conv)

lemma DecodeFixed16_on_eq: "DecodeFixed16_on False p = DecodeFixed16_on True p"
  by (auto simp: DecodeFixed16_on_def byte_at_def read_range_def le_word_nth2)

lemma DecodeFixed32_on_eq: "DecodeFixed32_on False p = DecodeFixed32_on True p"
  by (auto simp: DecodeFixed32_on_def byte_at_def read_range_def le_word_nth4)

lemma le_word_append:
  "le_word (xs @ ys) = (le_word xs OR push_bit (8 * length xs) (le_word ys) :: 'a::len word)"
proof (induction xs)
  case (Cons x xs)
  show ?case
    by (rule bit_word_eqI) (auto simp: Cons bit_simps)
qed simp

lemma ucast_le_word4: "length xs = 4 \<Longrightarrow> (ucast (le_word xs :: u32) :: u64) = le_word xs"
  by (rule bit_word_eqI) (auto simp: le_word_nth4 bit_simps dest: bit_imp_le_length)

lemma DecodeFixed64_on_eq: "DecodeFixed64_on False p = DecodeFixed64_on True p"
proof (cases "8 \<le> length p")
  case True
  have "take 8 p = take 4 p @ take 4 (drop 4 p)"
    using take_add [of 4 4 p] by simp
  then show ?thesis using True
    by (simp add: DecodeFixed64_on_def DecodeFixed32_on_eq)
      (simp add: DecodeFixed32_on_def read_range_def le_word_append ucast_le_word4 or.commute)
next
  case False
  then show ?thesis
    by (auto simp: DecodeFixed64_on_def DecodeFixed32_on_eq)
      (auto simp: DecodeFixed32_on_def read_range_def)
qed

section \<open>Varints: lemmas\<close>

lemma bit_128: "bit (128 :: int) n \<longleftrightarrow> n = 7"
proof -
  have "bit (push_bit 7 1 :: int) n \<longleftrightarrow> n = 7"
    unfolding bit_push_bit_iff bit_1_iff by auto
  then show ?thesis by simp
qed

lemma mask_127: "(127 :: 'a::len word) = mask 7"
  by (simp add: mask_eq_exp_minus_1)

lemma GetVarintPtr_loop_more:
  fixes r v :: "'a::len word"
  assumes "s \<le> m" and "8 \<le> LENGTH('a)"
  shows "GetVarintPtr_loop m s r (ucast (v OR 128) # ps) =
         GetVarintPtr_loop m (s + 7) (r OR push_bit s (v AND 127)) ps"
proof -
  have "bit (ucast (ucast (v OR 128) :: byte) AND (128 :: 'a word)) 7"
    using assms(2) by (simp add: bit_simps bit_128)
  then have 1: "ucast (ucast (v OR 128) :: byte) AND (128 :: 'a word) \<noteq> 0"
    by auto
  have 2: "ucast (ucast (v OR 128) :: byte) AND (127 :: 'a word) = v AND 127"
    by (rule bit_word_eqI) (auto simp: mask_127 bit_simps bit_128)
  show ?thesis using assms(1) by (simp add: 1 2)
qed

lemma word_less_128_bit:
  assumes "(v :: 'a::len word) < 128"
  shows "take_bit 7 v = v"
  using less_mask_eq [of v 7] assms by (simp add: take_bit_eq_mask)

lemma GetVarintPtr_loop_last:
  fixes r v :: "'a::len word"
  assumes "s \<le> m" and "8 \<le> LENGTH('a)" and "v < 128"
  shows "GetVarintPtr_loop m s r (ucast v # ps) = Some (r OR push_bit s v, ps)"
proof -
  have v: "v = take_bit 7 v" using assms by (simp add: word_less_128_bit)
  have 1: "ucast (ucast v :: byte) AND (128 :: 'a word) = 0"
    by (subst v, rule bit_word_eqI) (auto simp: bit_simps bit_128)
  have 2: "ucast (ucast v :: byte) = v"
    by (subst v, subst (2) v, rule bit_word_eqI) (auto simp: bit_simps)
  show ?thesis using assms(1) by (simp add: 2 1 [unfolded 2])
qed

declare GetVarintPtr_loop.simps(2) [simp del]

lemma EncodeVarint64_more:
  "128 \<le> v \<Longrightarrow> EncodeVarint64 v = ucast (v OR 128) # EncodeVarint64 (drop_bit 7 v)"
proof -
  have "(ucast ((v AND 127) OR 128) :: byte) = ucast (v OR 128)"
    by (rule bit_word_eqI) (auto simp: mask_127 bit_simps bit_128)
  moreover assume "128 \<le> v"
  ultimately show ?thesis by (subst EncodeVarint64.simps) simp
qed

lemma EncodeVarint64_last: "v < 128 \<Longrightarrow> EncodeVarint64 v = [ucast v]"
  by (subst EncodeVarint64.simps) (simp add: not_less [symmetric])

lemma word_shift_7: "(r :: 'a::len word) OR push_bit s (v AND 127) OR push_bit (s + 7) (drop_bit 7 v) = r OR push_bit s v"
proof (rule bit_word_eqI)
  fix n
  assume n: "n < LENGTH('a)"
  show "bit (r OR push_bit s (v AND 127) OR push_bit (s + 7) (drop_bit 7 v)) n = bit (r OR push_bit s v) n"
  proof (cases "s + 7 \<le> n")
    case True
    then have "7 + (n - (s + 7)) = n - s" by simp
    with True n show ?thesis by (auto simp: mask_127 bit_simps)
  next
    case False
    with n show ?thesis by (auto simp: mask_127 bit_simps)
  qed
qed

lemma GetVarintPtr_loop_EncodeVarint64:
  assumes "unat v < 2 ^ (64 - s)" and "s \<le> 63"
  shows "GetVarintPtr_loop 63 s r (EncodeVarint64 v @ rest) = Some (r OR push_bit s v, rest)"
  using assms
proof (induction v arbitrary: s r rule: EncodeVarint64.induct)
  case (1 v)
  show ?case
  proof (cases "128 \<le> v")
    case True
    then have 128: "2 ^ 7 \<le> unat v" by (simp add: word_le_nat_alt)
    from le_less_trans [OF this "1.prems"(1)] have "(2 :: nat) ^ 7 < 2 ^ (64 - s)" .
    then have s: "s + 7 \<le> 63" by (subst (asm) power_strict_increasing_iff) auto
    have "unat (drop_bit 7 v) < 2 ^ (64 - (s + 7))"
    proof -
      have "unat v < 2 ^ (64 - (s + 7)) * 2 ^ 7"
        using "1.prems"(1) power_add [of "2 :: nat" "64 - (s + 7)" 7] s by simp
      then show ?thesis
        unfolding unat_drop_bit_eq by (simp add: drop_bit_eq_div less_mult_imp_div_less)
    qed
    from "1.IH" [OF True this s] show ?thesis
      using "1.prems"(2) True word_shift_7 [of r s v]
      by (simp add: EncodeVarint64_more GetVarintPtr_loop_more or.assoc)
  next
    case False
    then show ?thesis
      using "1.prems"(2) by (simp add: EncodeVarint64_last GetVarintPtr_loop_last)
  qed
qed

lemma GetVarint64_EncodeVarint64 [coding_simps]:
  "GetVarint64 (EncodeVarint64 v @ rest) = Some (v, rest)"
proof -
  have "unat v < 2 ^ (64 - 0)" using unsigned_less [where ?'a = nat, of v] by simp
  from GetVarintPtr_loop_EncodeVarint64 [OF this] show ?thesis
    by (simp add: GetVarint64_def GetVarint64Ptr_def)
qed

lemma drop_bit_ucast_u32: "(ucast (drop_bit n (v :: u32)) :: u64) = drop_bit n (ucast v)"
  by (rule bit_word_eqI) (auto simp: bit_simps dest: bit_imp_le_length)

lemma unat_ucast_u32: "unat (ucast (v :: u32) :: u64) = unat v"
proof -
  have "unat v < 2 ^ 64"
    using unsigned_less [where ?'a = nat, of v] by simp
  then show ?thesis
    by (simp add: unsigned_ucast_eq take_bit_nat_eq_self)
qed

lemma ucast_u32_128: "128 \<le> (ucast (v :: u32) :: u64) \<longleftrightarrow> 128 \<le> v" "(ucast (v :: u32) :: u64) < 128 \<longleftrightarrow> v < 128"
  by (simp_all add: word_le_nat_alt word_less_nat_alt unat_ucast_u32)

lemma drop_bit_u32_128: "128 \<le> drop_bit n (v :: u32) \<longleftrightarrow> 2 ^ (n + 7) \<le> unat v"
  "drop_bit n (v :: u32) < 128 \<longleftrightarrow> unat v < 2 ^ (n + 7)"
proof -
  have "128 \<le> unat v div 2 ^ n \<longleftrightarrow> 2 ^ (n + 7) \<le> unat v"
    by (simp add: less_eq_div_iff_mult_less_eq power_add mult.commute)
  then show "128 \<le> drop_bit n v \<longleftrightarrow> 2 ^ (n + 7) \<le> unat v"
    unfolding word_le_nat_alt unat_drop_bit_eq by (simp add: drop_bit_eq_div)
  then show "drop_bit n v < 128 \<longleftrightarrow> unat v < 2 ^ (n + 7)"
    by (simp add: not_le [symmetric])
qed

lemma EncodeVarint64_ucast_more:
  "128 \<le> (v :: u32) \<Longrightarrow> EncodeVarint64 (ucast v) = ucast (v OR 128) # EncodeVarint64 (ucast (drop_bit 7 v))"
proof -
  have "(ucast (ucast v OR (128 :: u64)) :: byte) = ucast (v OR 128)"
    by (rule bit_word_eqI) (auto simp: bit_simps bit_128)
  moreover assume "128 \<le> v"
  ultimately show ?thesis
    by (simp add: EncodeVarint64_more ucast_u32_128 drop_bit_ucast_u32)
qed

lemma EncodeVarint64_ucast_last: "(v :: u32) < 128 \<Longrightarrow> EncodeVarint64 (ucast v) = [ucast v]"
proof -
  have "(ucast (ucast v :: u64) :: byte) = ucast v"
    by (rule bit_word_eqI) (auto simp: bit_simps)
  moreover assume "v < 128"
  ultimately show ?thesis
    by (simp add: EncodeVarint64_last ucast_u32_128)
qed

lemma EncodeVarint32_eq_loop: "EncodeVarint32 v = EncodeVarint64 (ucast v)"
proof -
  have v32: "unat v < 2 ^ 35" using unsigned_less [where ?'a = nat, of v] by simp
  have bounds: "push_bit n 1 = (2 :: u32) ^ n" for n by (simp add: push_bit_eq_mult)
  have le: "v < 2 ^ 7 \<longleftrightarrow> unat v < 2 ^ 7" "v < 2 ^ 14 \<longleftrightarrow> unat v < 2 ^ 14"
    "v < 2 ^ 21 \<longleftrightarrow> unat v < 2 ^ 21" "v < 2 ^ 28 \<longleftrightarrow> unat v < 2 ^ 28"
    by (simp_all add: word_less_nat_alt)
  have step: "EncodeVarint64 (ucast (drop_bit n v)) =
      (if unat v < 2 ^ (n + 7) then [ucast (drop_bit n v)]
       else ucast (drop_bit n v OR 128) # EncodeVarint64 (ucast (drop_bit (n + 7) v)))" for n
    by (auto simp only: EncodeVarint64_ucast_more EncodeVarint64_ucast_last drop_bit_u32_128 not_less
        drop_bit_drop_bit add.commute split: if_splits)
  show ?thesis
    unfolding EncodeVarint32_def bounds le
    using step [of 0] step [of 7] step [of 14] step [of 21] step [of 28] v32
    by (simp only: drop_bit_0 id_apply) (simp del: drop_bit_eq_div) 
qed

lemma GetVarintPtr_loop_EncodeVarint32:
  assumes "unat v < 2 ^ (35 - 7 * k)" and "k \<le> 4"
  shows "GetVarintPtr_loop 28 (7 * k) r (EncodeVarint64 (ucast (v :: u32)) @ rest) =
         Some (r OR push_bit (7 * k) v, rest)"
  using assms
proof (induction "unat v" arbitrary: v k r rule: less_induct)
  case (less v)
  show ?case
  proof (cases "128 \<le> v")
    case True
    then have 128: "2 ^ 7 \<le> unat v" by (simp add: word_le_nat_alt)
    from le_less_trans [OF this less.prems(1)] have "(2 :: nat) ^ 7 < 2 ^ (35 - 7 * k)" .
    then have k: "Suc k \<le> 4" by (subst (asm) power_strict_increasing_iff) auto
    then have "35 - 7 * Suc k + 7 = 35 - 7 * k" by simp
    then have "unat v < 2 ^ (35 - 7 * Suc k) * 2 ^ 7"
      using less.prems(1) by (simp only: power_add [symmetric])
    then have lt: "unat (drop_bit 7 v) < 2 ^ (35 - 7 * Suc k)"
      unfolding unat_drop_bit_eq by (simp add: drop_bit_eq_div less_mult_imp_div_less)
    have "unat (drop_bit 7 v) < unat v"
      using 128 unfolding unat_drop_bit_eq by (simp add: drop_bit_eq_div)
    from less.hyps [OF this lt k] show ?thesis
      using less.prems(2) True word_shift_7 [of r "7 * k" v]
      by (simp add: EncodeVarint64_ucast_more GetVarintPtr_loop_more add.commute or.assoc)
  next
    case False
    then show ?thesis
      using less.prems(2) by (simp add: EncodeVarint64_ucast_last GetVarintPtr_loop_last)
  qed
qed

lemma GetVarint32Ptr_fallback: "GetVarint32Ptr p = GetVarint32PtrFallback p"
  by (auto simp: GetVarint32Ptr_def GetVarint32PtrFallback_def GetVarintPtr_loop.simps(2) Let_def
      split: list.splits)

lemma GetVarint32_EncodeVarint32 [coding_simps]:
  "GetVarint32 (EncodeVarint32 v @ rest) = Some (v, rest)"
proof -
  have "unat v < 2 ^ (35 - 7 * 0)" using unsigned_less [where ?'a = nat, of v] by simp
  from GetVarintPtr_loop_EncodeVarint32 [OF this] show ?thesis
    by (simp add: GetVarint32_def GetVarint32Ptr_fallback GetVarint32PtrFallback_def EncodeVarint32_eq_loop)
qed

lemma VarintLength_loop_eq: "VarintLength_loop v n + 1 = length (EncodeVarint64 v) + n"
proof (induction v n rule: VarintLength_loop.induct)
  case (1 v n)
  then show ?case
    by (subst VarintLength_loop.simps, subst EncodeVarint64.simps) simp
qed

lemma VarintLength_eq: "VarintLength v = length (EncodeVarint64 v)"
  using VarintLength_loop_eq [of v 1] by (simp add: VarintLength_def)

lemma length_EncodeVarint64_bound: "unat v < 2 ^ (7 * Suc n) \<Longrightarrow> length (EncodeVarint64 v) \<le> Suc n"
proof (induction n arbitrary: v)
  case 0
  then show ?case by (simp add: EncodeVarint64_last word_less_nat_alt)
next
  case (Suc n)
  show ?case
  proof (cases "128 \<le> v")
    case True
    have "unat v < 2 ^ (7 * Suc n) * 2 ^ 7"
      using Suc.prems by (simp add: power_add)
    then have "unat (drop_bit 7 v) < 2 ^ (7 * Suc n)"
      unfolding unat_drop_bit_eq by (simp add: drop_bit_eq_div less_mult_imp_div_less)
    with True Suc.IH show ?thesis by (simp add: EncodeVarint64_more)
  qed (simp add: EncodeVarint64_last)
qed

lemma length_EncodeVarint64: "length (EncodeVarint64 v) \<le> 10"
  using length_EncodeVarint64_bound [of v 9] unsigned_less [where ?'a = nat, of v] by simp

lemma length_EncodeVarint32: "length (EncodeVarint32 v) \<le> 5"
  by (simp add: EncodeVarint32_def)

lemma GetVarintPtr_loop_consumes:
  "GetVarintPtr_loop m s r input = Some (x, rest) \<Longrightarrow> \<exists>pre. pre \<noteq> [] \<and> input = pre @ rest"
proof (induction m s r input rule: GetVarintPtr_loop.induct)
  case (2 m s r p ps)
  show ?case
  proof (cases "s \<le> m \<and> (ucast p :: 'a word) AND 128 \<noteq> 0")
    case True
    with 2 obtain pre where "ps = pre @ rest" by (auto simp: GetVarintPtr_loop.simps(2) Let_def)
    then show ?thesis by (intro exI [of _ "p # pre"]) simp
  next
    case False
    with 2 show ?thesis by (auto simp: GetVarintPtr_loop.simps(2) Let_def split: if_splits)
  qed
qed simp

section \<open>The codecs satisfy the contract\<close>

lemma DecodeFixed_Get_consumes:
  "GetFixed8 input = Some (x8, rest) \<Longrightarrow> input = take 1 input @ rest \<and> take 1 input \<noteq> []"
  "GetFixed16 input = Some (x16, rest) \<Longrightarrow> input = take 2 input @ rest \<and> take 2 input \<noteq> []"
  "GetFixed32 input = Some (x32, rest) \<Longrightarrow> input = take 4 input @ rest \<and> take 4 input \<noteq> []"
  "GetFixed64 input = Some (x64, rest) \<Longrightarrow> input = take 8 input @ rest \<and> take 8 input \<noteq> []"
  by (auto simp: GetFixed8_def GetFixed16_def GetFixed32_def GetFixed64_def split: if_splits)

lemma GetFixed_EncodeFixed [coding_simps]:
  "GetFixed8 (EncodeFixed8 v8 @ rest) = Some (v8, rest)"
  "GetFixed16 (EncodeFixed16 v16 @ rest) = Some (v16, rest)"
  "GetFixed32 (EncodeFixed32 v32 @ rest) = Some (v32, rest)"
  "GetFixed64 (EncodeFixed64 v64 @ rest) = Some (v64, rest)"
  unfolding GetFixed8_def GetFixed16_def GetFixed32_def GetFixed64_def DecodeFixed_EncodeFixed
  by simp_all

interpretation fixed8: prefix_codec PutFixed8 GetFixed8 "\<lambda>_. True"
  by unfold_locales (auto simp only: PutFixed_eq append_Nil GetFixed_EncodeFixed dest: DecodeFixed_Get_consumes)

interpretation fixed16: prefix_codec PutFixed16 GetFixed16 "\<lambda>_. True"
  by unfold_locales (auto simp only: PutFixed_eq append_Nil GetFixed_EncodeFixed dest: DecodeFixed_Get_consumes)

interpretation fixed32: prefix_codec PutFixed32 GetFixed32 "\<lambda>_. True"
  by unfold_locales (auto simp only: PutFixed_eq append_Nil GetFixed_EncodeFixed dest: DecodeFixed_Get_consumes)

interpretation fixed64: prefix_codec PutFixed64 GetFixed64 "\<lambda>_. True"
  by unfold_locales (auto simp only: PutFixed_eq append_Nil GetFixed_EncodeFixed dest: DecodeFixed_Get_consumes)

lemma GetVarint_consumes:
  "GetVarint32 input = Some (x32, rest) \<Longrightarrow> \<exists>pre. pre \<noteq> [] \<and> input = pre @ rest"
  "GetVarint64 input = Some (x64, rest) \<Longrightarrow> \<exists>pre. pre \<noteq> [] \<and> input = pre @ rest"
  by (auto simp: GetVarint32_def GetVarint32Ptr_fallback GetVarint32PtrFallback_def GetVarint64_def
      GetVarint64Ptr_def dest: GetVarintPtr_loop_consumes)

interpretation varint32: prefix_codec PutVarint32 GetVarint32 "\<lambda>_. True"
  by unfold_locales (auto simp: PutVarint32_def coding_simps dest: GetVarint_consumes)

interpretation varint64: prefix_codec PutVarint64 GetVarint64 "\<lambda>_. True"
  by unfold_locales (auto simp: PutVarint64_def coding_simps dest: GetVarint_consumes)

lemma GetLengthPrefixedSlice_Put:
  assumes "length s < 2 ^ 32"
  shows "GetLengthPrefixedSlice (PutLengthPrefixedSlice [] s @ rest) = Some (s, rest)"
proof -
  have "unat (word_of_nat (length s) :: u32) = length s"
    using assms by (simp add: unsigned_of_nat take_bit_nat_eq_self)
  then show ?thesis
    by (simp add: GetLengthPrefixedSlice_def PutLengthPrefixedSlice_def PutVarint32_def coding_simps)
qed

interpretation slice: prefix_codec PutLengthPrefixedSlice GetLengthPrefixedSlice "\<lambda>s. length s < 2 ^ 32"
proof
  fix dst x :: bytes
  show "PutLengthPrefixedSlice dst x = dst @ PutLengthPrefixedSlice [] x"
    by (simp add: PutLengthPrefixedSlice_def PutVarint32_def)
next
  fix input x rest
  assume "GetLengthPrefixedSlice input = Some (x, rest)"
  then obtain n input' where "GetVarint32 input = Some (n, input')" and "input' = x @ rest"
    by (auto simp: GetLengthPrefixedSlice_def split: option.splits if_splits)
  with varint32.get_consumes show "\<exists>pre. pre \<noteq> [] \<and> input = pre @ rest"
    by fastforce
qed (rule GetLengthPrefixedSlice_Put)

section \<open>Properties\<close>

text \<open>C16: Varint round trip. Whatever bytes follow, decoding the varint encoding of a 32-bit or a
  64-bit value gives the value back and leaves exactly the bytes that follow.\<close>

theorem varint_roundtrip:
  "GetVarint32 (PutVarint32 [] v @ rest) = Some (v, rest) \<and>
   GetVarint64 (PutVarint64 [] w @ rest) = Some (w, rest)"
  by (simp add: varint32.get_put varint64.get_put)

text \<open>C17: The unrolled 32-bit encoder writes the same bytes as the 64-bit encoding loop, and
  \<open>VarintLength\<close> is the number of bytes written, at most 10 (the buffer of \<open>PutVarint64\<close>) and at most
  5 for a 32-bit value (the buffer of \<open>PutVarint32\<close>).\<close>

theorem varint32_unrolled_and_length:
  "EncodeVarint32 v = EncodeVarint64 (ucast v) \<and>
   VarintLength w = length (EncodeVarint64 w) \<and> VarintLength w \<le> 10 \<and>
   VarintLength (ucast v) \<le> 5"
  using length_EncodeVarint64 [of w] length_EncodeVarint32 [of v]
  by (simp add: EncodeVarint32_eq_loop VarintLength_eq)

text \<open>C18: Length-prefixed slices round trip: a slice shorter than \<open>2 ^ 32\<close> bytes is read back with
  nothing of the following bytes consumed.\<close>

theorem slice_roundtrip:
  assumes "length s < 2 ^ 32"
  shows "PutLengthPrefixedSlice dst s = dst @ PutLengthPrefixedSlice [] s \<and>
         GetLengthPrefixedSlice (PutLengthPrefixedSlice [] s @ rest) = Some (s, rest)"
  using assms slice.put_appends [of dst s] slice.get_put [of s rest] by blast

theorem slice_roundtrip_witness:
  "GetLengthPrefixedSlice (PutLengthPrefixedSlice [] [7, 8, 9] @ [1]) = Some ([7, 8, 9], [1])"
  using slice_roundtrip [of "[7, 8, 9]" "[]" "[1]"] by simp

text \<open>C19: The fixed-width encoders and decoders do not depend on the byte order of the host: the
  branch taken on a little-endian host and the explicit shifting branch compute the same.\<close>

theorem fixed_host_independent:
  "EncodeFixed16_on True a = EncodeFixed16_on False a \<and>
   EncodeFixed32_on True b = EncodeFixed32_on False b \<and>
   EncodeFixed64_on True c = EncodeFixed64_on False c \<and>
   DecodeFixed16_on True p = DecodeFixed16_on False p \<and>
   DecodeFixed32_on True p = DecodeFixed32_on False p \<and>
   DecodeFixed64_on True p = DecodeFixed64_on False p"
  by (simp add: DecodeFixed16_on_eq DecodeFixed32_on_eq DecodeFixed64_on_eq)

end
