(* ===== verification/InternalKey.thy ===== *)
theory InternalKey
  imports Coding
begin

text \<open>
  Internal keys (\<open>db/dbformat.h\<close>, \<open>db/dbformat.cc\<close>, \<open>db/lookup_key.h\<close>) and the comparators they are
  ordered by (\<open>include/rocksdb/slice.h\<close>, \<open>util/comparator.cc\<close>). An internal key is a user key followed
  by an eight-byte footer that packs a 56-bit sequence number and a value type.

  Functions that the C++ code guards with \<open>assert(size >= kNumInternalBytes)\<close> are meant for keys of
  at least eight bytes; the predicate \<open>is_ikey\<close> is that precondition, and the comparator laws are
  stated on it.

  The locale \<open>comparator\<close> is the contract of \<open>rocksdb::Comparator::Compare\<close>: a total order given by a
  three-way comparison. A user comparator induces an internal-key comparator (\<open>sublocale\<close>), and both
  are interpreted for \<open>BytewiseComparator\<close>.
\<close>

section \<open>Slices and the bytewise comparator\<close>

text \<open>\<open>memcmp\<close> on the first \<open>n\<close> bytes (the standard fixes only the sign of the result).\<close>

fun memcmp :: "bytes \<Rightarrow> bytes \<Rightarrow> nat \<Rightarrow> int" where
  "memcmp (a # as) (b # bs) (Suc n) = (if a < b then -1 else if b < a then 1 else memcmp as bs n)"
| "memcmp _ _ _ = 0"

definition slice_eq :: "bytes \<Rightarrow> bytes \<Rightarrow> bool" where
  "slice_eq x y \<longleftrightarrow> length x = length y \<and> memcmp x y (length x) = 0"

definition slice_compare :: "bytes \<Rightarrow> bytes \<Rightarrow> int" where
  "slice_compare a b =
     (let min_len = (if length a < length b then length a else length b);
          r = memcmp a b min_len
      in if r = 0 then (if length a < length b then -1 else if length a > length b then 1 else r)
         else r)"

definition BytewiseCompare :: "bytes \<Rightarrow> bytes \<Rightarrow> int" where
  "BytewiseCompare a b = slice_compare a b"

section \<open>Internal keys\<close>

definition kTypeDeletion :: u8 where "kTypeDeletion = 0x0"
definition kTypeValue :: u8 where "kTypeValue = 0x1"
definition kTypeMerge :: u8 where "kTypeMerge = 0x2"
definition kTypeSingleDeletion :: u8 where "kTypeSingleDeletion = 0x7"
definition kTypeRangeDeletion :: u8 where "kTypeRangeDeletion = 0xF"
definition kTypeBlobIndex :: u8 where "kTypeBlobIndex = 0x11"
definition kTypeDeletionWithTimestamp :: u8 where "kTypeDeletionWithTimestamp = 0x14"

definition kValueTypeForSeek :: u8 where
  "kValueTypeForSeek = kTypeDeletionWithTimestamp"

lemmas value_type_defs = kTypeDeletion_def kTypeValue_def kTypeMerge_def kTypeSingleDeletion_def
  kTypeRangeDeletion_def kTypeBlobIndex_def kTypeDeletionWithTimestamp_def kValueTypeForSeek_def

definition IsValueType :: "u8 \<Rightarrow> bool" where
  "IsValueType t \<longleftrightarrow>
     t \<le> kTypeMerge \<or> t = kTypeSingleDeletion \<or> t = kTypeBlobIndex \<or> kTypeDeletionWithTimestamp = t"

definition IsExtendedValueType :: "u8 \<Rightarrow> bool" where
  "IsExtendedValueType t \<longleftrightarrow> IsValueType t \<or> t = kTypeRangeDeletion"

definition kMaxSequenceNumber :: u64 where
  "kMaxSequenceNumber = push_bit 56 0x1 - 1"

definition kNumInternalBytes :: nat where
  "kNumInternalBytes = 8"

record ParsedInternalKey =
  user_key :: bytes
  sequence :: u64
  vtype :: u8

definition InternalKeyEncodingLength :: "ParsedInternalKey \<Rightarrow> nat" where
  "InternalKeyEncodingLength key = length (user_key key) + kNumInternalBytes"

definition PackSequenceAndType :: "u64 \<Rightarrow> u8 \<Rightarrow> u64" where
  "PackSequenceAndType seq t = push_bit 8 seq OR ucast t"

definition UnPackSequenceAndType :: "u64 \<Rightarrow> u64 \<times> u8" where
  "UnPackSequenceAndType packed = (drop_bit 8 packed, ucast (packed AND 0xff))"

definition AppendInternalKey :: "bytes \<Rightarrow> ParsedInternalKey \<Rightarrow> bytes" where
  "AppendInternalKey result key =
     PutFixed64 (result @ user_key key) (PackSequenceAndType (sequence key) (vtype key))"

definition AppendInternalKeyFooter :: "bytes \<Rightarrow> u64 \<Rightarrow> u8 \<Rightarrow> bytes" where
  "AppendInternalKeyFooter result s t = PutFixed64 result (PackSequenceAndType s t)"

definition ExtractUserKey :: "bytes \<Rightarrow> bytes" where
  "ExtractUserKey internal_key = take (length internal_key - kNumInternalBytes) internal_key"

definition ExtractInternalKeyFooter :: "bytes \<Rightarrow> u64" where
  "ExtractInternalKeyFooter internal_key =
     (case DecodeFixed64 (drop (length internal_key - kNumInternalBytes) internal_key) of
        Some v \<Rightarrow> v | None \<Rightarrow> 0)"

definition ExtractValueType :: "bytes \<Rightarrow> u8" where
  "ExtractValueType internal_key = (let num = ExtractInternalKeyFooter internal_key in ucast (num AND 0xff))"

definition GetInternalKeySeqno :: "bytes \<Rightarrow> u64" where
  "GetInternalKeySeqno internal_key = drop_bit 8 (ExtractInternalKeyFooter internal_key)"

text \<open>\<open>ParseInternalKey\<close>: the status, and the result when it has been written.\<close>

definition ParseInternalKey :: "bytes \<Rightarrow> status \<times> ParsedInternalKey option" where
  "ParseInternalKey internal_key =
     (let n = length internal_key in
      if n < kNumInternalBytes then (Corruption, None)
      else case DecodeFixed64 (drop (n - kNumInternalBytes) internal_key) of
             None \<Rightarrow> (Corruption, None)
           | Some num \<Rightarrow>
               let c = (ucast (num AND 0xff) :: u8);
                   result = \<lparr>user_key = take (n - kNumInternalBytes) internal_key,
                             sequence = drop_bit 8 num, vtype = c\<rparr>
               in if IsExtendedValueType (vtype result) then (OK, Some result)
                  else (Corruption, Some result))"

section \<open>Comparing internal keys\<close>

definition InternalKeyCompare :: "(bytes \<Rightarrow> bytes \<Rightarrow> int) \<Rightarrow> bytes \<Rightarrow> bytes \<Rightarrow> int" where
  "InternalKeyCompare ucmp akey bkey =
     (let r = ucmp (ExtractUserKey akey) (ExtractUserKey bkey) in
      if r = 0 then
        let anum = ExtractInternalKeyFooter akey; bnum = ExtractInternalKeyFooter bkey in
        if anum > bnum then -1 else if anum < bnum then 1 else r
      else r)"

definition ParsedCompare ::
  "(bytes \<Rightarrow> bytes \<Rightarrow> int) \<Rightarrow> ParsedInternalKey \<Rightarrow> ParsedInternalKey \<Rightarrow> int" where
  "ParsedCompare ucmp a b =
     (let r = ucmp (user_key a) (user_key b) in
      if r = 0 then
        if sequence a > sequence b then -1
        else if sequence a < sequence b then 1
        else if vtype a > vtype b then -1
        else if vtype a < vtype b then 1
        else r
      else r)"

text \<open>\<open>LookupKey\<close>: the character array, and the offset of the user key in it. The constructor's
  timestamp argument is always \<open>nullptr\<close> in TropoDB.\<close>

record LookupKey =
  lk_space :: bytes
  lk_kstart :: nat

definition LookupKey_init :: "bytes \<Rightarrow> u64 \<Rightarrow> LookupKey" where
  "LookupKey_init u s =
     (let usize = length u;
          klen = EncodeVarint32 (word_of_nat (usize + 8))
      in \<lparr>lk_space = klen @ u @ EncodeFixed64 (PackSequenceAndType s kValueTypeForSeek),
          lk_kstart = length klen\<rparr>)"

definition memtable_key :: "LookupKey \<Rightarrow> bytes" where
  "memtable_key k = lk_space k"

definition internal_key :: "LookupKey \<Rightarrow> bytes" where
  "internal_key k = drop (lk_kstart k) (lk_space k)"

definition lookup_user_key :: "LookupKey \<Rightarrow> bytes" where
  "lookup_user_key k = take (length (lk_space k) - lk_kstart k - 8) (drop (lk_kstart k) (lk_space k))"

section \<open>The contract of a comparator\<close>

definition is_ikey :: "bytes \<Rightarrow> bool" where
  "is_ikey k \<longleftrightarrow> kNumInternalBytes \<le> length k"

lemma ikey_split: "is_ikey k \<Longrightarrow> k = ExtractUserKey k @ EncodeFixed64 (ExtractInternalKeyFooter k)"
  by (simp add: is_ikey_def ExtractUserKey_def ExtractInternalKeyFooter_def DecodeFixed_eq
      kNumInternalBytes_def le_bytes_le_word)

lemma ikey_eqI:
  assumes "is_ikey a" and "is_ikey b" and "ExtractUserKey a = ExtractUserKey b"
    and "ExtractInternalKeyFooter a = ExtractInternalKeyFooter b"
  shows "a = b"
  using assms ikey_split by metis

locale comparator =
  fixes cmp :: "'k \<Rightarrow> 'k \<Rightarrow> int"
    and valid :: "'k \<Rightarrow> bool"
  assumes cmp_eq: "valid a \<Longrightarrow> valid b \<Longrightarrow> cmp a b = 0 \<longleftrightarrow> a = b"
    and cmp_flip: "valid a \<Longrightarrow> valid b \<Longrightarrow> cmp a b < 0 \<longleftrightarrow> 0 < cmp b a"
    and cmp_trans: "valid a \<Longrightarrow> valid b \<Longrightarrow> valid c \<Longrightarrow> cmp a b < 0 \<Longrightarrow> cmp b c < 0 \<Longrightarrow> cmp a c < 0"
begin

lemma cmp_refl: "valid a \<Longrightarrow> cmp a a = 0"
  using cmp_eq by simp

lemma cmp_not_less: "valid a \<Longrightarrow> valid b \<Longrightarrow> \<not> cmp a b < 0 \<longleftrightarrow> cmp b a \<le> 0"
  using cmp_flip [of a b] by linarith

lemma cmp_total: "valid a \<Longrightarrow> valid b \<Longrightarrow> cmp a b < 0 \<or> a = b \<or> cmp b a < 0"
  using cmp_eq [of a b] cmp_flip [of b a] by linarith

lemma cmp_le_less_trans: "valid a \<Longrightarrow> valid b \<Longrightarrow> valid c \<Longrightarrow> cmp a b \<le> 0 \<Longrightarrow> cmp b c < 0 \<Longrightarrow> cmp a c < 0"
  using cmp_trans [of a b c] cmp_eq [of a b] by (cases "cmp a b = 0") auto

lemma cmp_less_le_trans: "valid a \<Longrightarrow> valid b \<Longrightarrow> valid c \<Longrightarrow> cmp a b < 0 \<Longrightarrow> cmp b c \<le> 0 \<Longrightarrow> cmp a c < 0"
  using cmp_trans [of a b c] cmp_eq [of b c] by (cases "cmp b c = 0") auto

lemma cmp_le_trans: "valid a \<Longrightarrow> valid b \<Longrightarrow> valid c \<Longrightarrow> cmp a b \<le> 0 \<Longrightarrow> cmp b c \<le> 0 \<Longrightarrow> cmp a c \<le> 0"
  using cmp_le_less_trans [of a b c] cmp_eq [of b c] by (cases "cmp b c = 0") auto

end

text \<open>A user comparator, and the internal-key order it induces.\<close>

locale user_comparator = comparator ucmp "\<lambda>_. True"
  for ucmp :: "bytes \<Rightarrow> bytes \<Rightarrow> int"
begin

lemma internal_less_iff:
  "InternalKeyCompare ucmp a b < 0 \<longleftrightarrow>
   ucmp (ExtractUserKey a) (ExtractUserKey b) < 0 \<or>
   ExtractUserKey a = ExtractUserKey b \<and> ExtractInternalKeyFooter b < ExtractInternalKeyFooter a"
  using cmp_eq [of "ExtractUserKey a" "ExtractUserKey b"]
  by (auto simp: InternalKeyCompare_def Let_def)

lemma internal_greater_iff:
  "0 < InternalKeyCompare ucmp a b \<longleftrightarrow>
   0 < ucmp (ExtractUserKey a) (ExtractUserKey b) \<or>
   ExtractUserKey a = ExtractUserKey b \<and> ExtractInternalKeyFooter a < ExtractInternalKeyFooter b"
  using cmp_eq [of "ExtractUserKey a" "ExtractUserKey b"]
  by (auto simp: InternalKeyCompare_def Let_def)

lemma internal_zero_iff:
  "InternalKeyCompare ucmp a b = 0 \<longleftrightarrow>
   ExtractUserKey a = ExtractUserKey b \<and> ExtractInternalKeyFooter a = ExtractInternalKeyFooter b"
  using cmp_eq [of "ExtractUserKey a" "ExtractUserKey b"]
  by (auto simp: InternalKeyCompare_def Let_def)

lemma internal_comparator: "comparator (InternalKeyCompare ucmp) is_ikey"
proof
  fix a b c
  assume ab: "is_ikey a" "is_ikey b"
  show "InternalKeyCompare ucmp a b = 0 \<longleftrightarrow> a = b"
    using ikey_eqI [OF ab] by (auto simp: internal_zero_iff)
  show "InternalKeyCompare ucmp a b < 0 \<longleftrightarrow> 0 < InternalKeyCompare ucmp b a"
    using cmp_flip [of "ExtractUserKey a" "ExtractUserKey b"]
    by (simp add: internal_less_iff internal_greater_iff) metis
  assume "InternalKeyCompare ucmp a b < 0" and "InternalKeyCompare ucmp b c < 0"
  then show "InternalKeyCompare ucmp a c < 0"
    unfolding internal_less_iff
    using cmp_trans [of "ExtractUserKey a" "ExtractUserKey b" "ExtractUserKey c"] less_trans
    by metis
qed

end

sublocale user_comparator \<subseteq> internal: comparator "InternalKeyCompare ucmp" is_ikey
  by (rule internal_comparator)

section \<open>Bytewise comparison is a total order\<close>

lemma slice_compare_Nil [simp]: "slice_compare [] [] = 0" "slice_compare [] (b # bs) = -1"
  "slice_compare (a # as) [] = 1"
  by (simp_all add: slice_compare_def)

lemma slice_compare_Cons [simp]:
  "slice_compare (a # as) (b # bs) = (if a < b then -1 else if b < a then 1 else slice_compare as bs)"
  by (simp add: slice_compare_def Let_def)

lemma slice_compare_eq: "slice_compare a b = 0 \<longleftrightarrow> a = b"
proof (induction a arbitrary: b)
  case Nil
  then show ?case by (cases b) auto
next
  case (Cons x a)
  then show ?case by (cases b) auto
qed

lemma slice_compare_flip: "slice_compare a b < 0 \<longleftrightarrow> 0 < slice_compare b a"
proof (induction a arbitrary: b)
  case Nil
  then show ?case by (cases b) auto
next
  case (Cons x a)
  then show ?case by (cases b) auto
qed

lemma slice_compare_trans: "slice_compare a b < 0 \<Longrightarrow> slice_compare b c < 0 \<Longrightarrow> slice_compare a c < 0"
proof (induction a arbitrary: b c)
  case Nil
  then show ?case by (cases b; cases c) auto
next
  case (Cons x a)
  then show ?case by (cases b; cases c) (auto split: if_splits)
qed

interpretation bytewise: user_comparator BytewiseCompare
  by unfold_locales
    (use slice_compare_trans slice_compare_flip in \<open>auto simp: BytewiseCompare_def slice_compare_eq\<close>)

lemma slice_eq_iff: "slice_eq x y \<longleftrightarrow> x = y"
proof -
  have "slice_eq x y \<longleftrightarrow> length x = length y \<and> slice_compare x y = 0"
    by (auto simp: slice_eq_def slice_compare_def Let_def)
  then show ?thesis by (auto simp: slice_compare_eq)
qed

section \<open>Packing and parsing\<close>

lemma kMaxSequenceNumber_mask: "kMaxSequenceNumber = mask 56"
  by (simp add: kMaxSequenceNumber_def mask_eq_exp_minus_1)

lemma seq_take_bit: "seq \<le> kMaxSequenceNumber \<Longrightarrow> take_bit 56 seq = seq"
proof -
  assume "seq \<le> kMaxSequenceNumber"
  then have "seq < 2 ^ 56"
    by (simp add: kMaxSequenceNumber_def word_le_nat_alt word_less_nat_alt)
  then show ?thesis
    using less_mask_eq [of seq 56] by (simp add: take_bit_eq_mask)
qed

lemma UnPack_Pack:
  assumes "seq \<le> kMaxSequenceNumber"
  shows "UnPackSequenceAndType (PackSequenceAndType seq t) = (seq, t)"
proof -
  have s: "seq = take_bit 56 seq" using seq_take_bit [OF assms] by simp
  have "drop_bit 8 (push_bit 8 seq OR ucast t) = seq"
    by (subst s, subst (2) s, rule bit_word_eqI) (auto simp: bit_simps dest: bit_imp_le_length)
  moreover have "(ucast (push_bit 8 seq OR ucast t) :: u8) = t"
    by (rule bit_word_eqI) (auto simp: bit_simps)
  ultimately show ?thesis
    by (simp add: UnPackSequenceAndType_def PackSequenceAndType_def)
qed

lemma unat_Pack:
  assumes "seq \<le> kMaxSequenceNumber"
  shows "unat (PackSequenceAndType seq t) = 256 * unat seq + unat t"
proof -
  have t: "unat t < 256" using unsigned_less [where ?'a = nat, of t] by simp
  have ut: "unat (ucast t :: u64) = unat t"
    using t by (simp add: unsigned_ucast_eq take_bit_nat_eq_self)
  have s: "unat seq < 2 ^ 56"
    using assms by (simp add: kMaxSequenceNumber_def word_le_nat_alt)
  have "push_bit 8 seq AND (ucast t :: u64) = 0"
    by (rule bit_word_eqI) (auto simp: bit_simps dest: bit_imp_le_length)
  then have "PackSequenceAndType seq t = push_bit 8 seq + ucast t"
    by (simp add: PackSequenceAndType_def disjunctive_add_eq_or)
  moreover have "unat (push_bit 8 seq) = 256 * unat seq"
    using s by (simp add: unsigned_push_bit_eq push_bit_nat_def take_bit_nat_eq_self mult.commute)
  ultimately show ?thesis
    using s t ut by (simp add: unat_word_ariths)
qed

lemma EncodeFixed64_tail [simp]: "DecodeFixed64 (EncodeFixed64 v) = Some v"
  using DecodeFixed_EncodeFixed(4) [of v "[]"] by (simp only: append_Nil2)

lemma is_ikey_Append [simp]: "is_ikey (AppendInternalKey r k)"
  by (simp add: is_ikey_def AppendInternalKey_def PutFixed_eq kNumInternalBytes_def)

lemma Append_parts [simp]:
  "ExtractUserKey (AppendInternalKey [] k) = user_key k"
  "ExtractInternalKeyFooter (AppendInternalKey [] k) = PackSequenceAndType (sequence k) (vtype k)"
  by (simp_all add: ExtractUserKey_def ExtractInternalKeyFooter_def AppendInternalKey_def PutFixed_eq
      kNumInternalBytes_def del: EncodeFixed_eq add: length_EncodeFixed)

lemma ParseInternalKey_eq:
  "is_ikey k \<Longrightarrow> ParseInternalKey k =
     (let (s, t) = UnPackSequenceAndType (ExtractInternalKeyFooter k)
      in (if IsExtendedValueType t then OK else Corruption,
          Some \<lparr>user_key = ExtractUserKey k, sequence = s, vtype = t\<rparr>))"
  by (simp add: ParseInternalKey_def is_ikey_def kNumInternalBytes_def ExtractUserKey_def
      ExtractInternalKeyFooter_def DecodeFixed_eq UnPackSequenceAndType_def Let_def)

lemma ParseInternalKey_small: "\<not> is_ikey k \<Longrightarrow> ParseInternalKey k = (Corruption, None)"
  by (simp add: ParseInternalKey_def is_ikey_def)

lemma Parse_Append:
  assumes "sequence k \<le> kMaxSequenceNumber" and "IsExtendedValueType (vtype k)"
  shows "ParseInternalKey (AppendInternalKey [] k) = (OK, Some k)"
  using assms by (simp add: ParseInternalKey_eq UnPack_Pack)

lemma Pack_less_iff:
  assumes "s \<le> kMaxSequenceNumber" and "s' \<le> kMaxSequenceNumber"
  shows "PackSequenceAndType s t < PackSequenceAndType s' t' \<longleftrightarrow> s < s' \<or> s = s' \<and> t < t'"
proof -
  have "unat t < 256" and "unat t' < 256"
    using unsigned_less [where ?'a = nat, of t] unsigned_less [where ?'a = nat, of t'] by simp_all
  moreover have "s = s' \<longleftrightarrow> unat s = unat s'" by (simp add: word_unat_eq_iff)
  ultimately show ?thesis
    using assms by (simp only: word_less_nat_alt unat_Pack) arith
qed

context user_comparator
begin

lemma InternalKeyCompare_Append:
  assumes "sequence a \<le> kMaxSequenceNumber" and "sequence b \<le> kMaxSequenceNumber"
  shows "InternalKeyCompare ucmp (AppendInternalKey [] a) (AppendInternalKey [] b) = ParsedCompare ucmp a b"
  using assms by (auto simp: InternalKeyCompare_def ParsedCompare_def Let_def Pack_less_iff)

end

lemma internal_key_LookupKey:
  "internal_key (LookupKey_init u s) =
   AppendInternalKey [] \<lparr>user_key = u, sequence = s, vtype = kValueTypeForSeek\<rparr>"
  by (simp add: internal_key_def LookupKey_init_def AppendInternalKey_def PutFixed_eq Let_def)

lemma memtable_key_LookupKey:
  "memtable_key (LookupKey_init u s) = PutLengthPrefixedSlice [] (internal_key (LookupKey_init u s))"
  by (simp add: memtable_key_def internal_key_def LookupKey_init_def PutLengthPrefixedSlice_def
      PutVarint32_def Let_def)

lemma lookup_user_key_LookupKey [simp]: "lookup_user_key (LookupKey_init u s) = u"
  by (simp add: lookup_user_key_def LookupKey_init_def Let_def)

lemma IsExtended_le_seek: "IsExtendedValueType t \<Longrightarrow> t \<le> kValueTypeForSeek"
  by (auto simp: IsExtendedValueType_def IsValueType_def value_type_defs word_le_nat_alt)

text \<open>The entries an internal iterator passes over: a parseable key of the same user key is at or
  after the lookup key exactly when it is visible at the snapshot.\<close>

lemma LookupKey_visible:
  assumes "s \<le> kMaxSequenceNumber" and "sequence k \<le> kMaxSequenceNumber" and "IsExtendedValueType (vtype k)"
    and "user_key k = u"
  shows "InternalKeyCompare BytewiseCompare (internal_key (LookupKey_init u s)) (AppendInternalKey [] k) \<le> 0
         \<longleftrightarrow> sequence k \<le> s"
proof -
  have "InternalKeyCompare BytewiseCompare (internal_key (LookupKey_init u s)) (AppendInternalKey [] k) =
        ParsedCompare BytewiseCompare \<lparr>user_key = u, sequence = s, vtype = kValueTypeForSeek\<rparr> k"
    unfolding internal_key_LookupKey using assms by (intro bytewise.InternalKeyCompare_Append) auto
  moreover have "BytewiseCompare u u = 0" by (simp add: BytewiseCompare_def slice_compare_eq)
  ultimately show ?thesis
    using assms IsExtended_le_seek [OF assms(3)] by (auto simp: ParsedCompare_def Let_def)
qed

section \<open>Properties\<close>

text \<open>C23: Parsing an internal key that was built from a user key, a sequence number that fits in
  56 bits and a storable value type gives these three back.\<close>

theorem internal_key_roundtrip:
  assumes "sequence k \<le> kMaxSequenceNumber" and "IsExtendedValueType (vtype k)"
  shows "ParseInternalKey (AppendInternalKey [] k) = (OK, Some k)"
  using assms by (rule Parse_Append)

theorem internal_key_roundtrip_witness:
  "ParseInternalKey (AppendInternalKey [] \<lparr>user_key = [1, 2], sequence = 7, vtype = 1\<rparr>) =
   (OK, Some \<lparr>user_key = [1, 2], sequence = 7, vtype = 1\<rparr>)"
  by (rule internal_key_roundtrip)
    (simp_all add: kMaxSequenceNumber_def IsExtendedValueType_def IsValueType_def value_type_defs)

text \<open>C24: The comparison of encoded internal keys (which reads the packed footer as one integer) is
  a total order on the keys of at least eight bytes, and on encoded keys it agrees with the
  field-by-field comparison of parsed keys: ascending user key, then descending sequence number,
  then descending type.\<close>

theorem internal_order:
  assumes "is_ikey a" and "is_ikey b" and "is_ikey c"
    and "sequence p \<le> kMaxSequenceNumber" and "sequence q \<le> kMaxSequenceNumber"
  shows "(InternalKeyCompare BytewiseCompare a b = 0 \<longleftrightarrow> a = b) \<and>
         (InternalKeyCompare BytewiseCompare a b < 0 \<longleftrightarrow> 0 < InternalKeyCompare BytewiseCompare b a) \<and>
         (InternalKeyCompare BytewiseCompare a b < 0 \<and> InternalKeyCompare BytewiseCompare b c < 0 \<longrightarrow>
          InternalKeyCompare BytewiseCompare a c < 0) \<and>
         InternalKeyCompare BytewiseCompare (AppendInternalKey [] p) (AppendInternalKey [] q) =
         ParsedCompare BytewiseCompare p q"
  using assms bytewise.internal.cmp_eq [of a b] bytewise.internal.cmp_flip [of a b]
    bytewise.internal.cmp_trans [of a b c] bytewise.InternalKeyCompare_Append [of p q]
  by blast

definition demo_key :: "u64 \<Rightarrow> ParsedInternalKey" where
  "demo_key s = \<lparr>user_key = [1], sequence = s, vtype = 1\<rparr>"

theorem internal_order_witness:
  "InternalKeyCompare BytewiseCompare (AppendInternalKey [] (demo_key 9)) (AppendInternalKey [] (demo_key 8)) =
   ParsedCompare BytewiseCompare (demo_key 9) (demo_key 8)"
  using internal_order [of "AppendInternalKey [] (demo_key 9)" "AppendInternalKey [] (demo_key 8)"
      "AppendInternalKey [] (demo_key 7)" "demo_key 9" "demo_key 8"]
  by (simp add: demo_key_def kMaxSequenceNumber_def)

text \<open>C25: Seeking to a lookup key skips exactly the versions that are newer than the snapshot: a
  stored key of the same user key is at or after the lookup key for snapshot \<open>s\<close> if and only if its
  sequence number is at most \<open>s\<close>. The memtable form of the lookup key is its internal key with a
  length prefix.\<close>

theorem lookup_key_visibility:
  assumes "s \<le> kMaxSequenceNumber" and "sequence k \<le> kMaxSequenceNumber"
    and "IsExtendedValueType (vtype k)" and "user_key k = u"
  shows "(InternalKeyCompare BytewiseCompare (internal_key (LookupKey_init u s)) (AppendInternalKey [] k) \<le> 0
          \<longleftrightarrow> sequence k \<le> s) \<and>
         memtable_key (LookupKey_init u s) = PutLengthPrefixedSlice [] (internal_key (LookupKey_init u s)) \<and>
         lookup_user_key (LookupKey_init u s) = u"
  using LookupKey_visible [OF assms] memtable_key_LookupKey by simp

theorem lookup_key_visibility_witness:
  "InternalKeyCompare BytewiseCompare (internal_key (LookupKey_init [1] 5)) (AppendInternalKey [] (demo_key 5)) \<le> 0 \<and>
   \<not> InternalKeyCompare BytewiseCompare (internal_key (LookupKey_init [1] 5)) (AppendInternalKey [] (demo_key 6)) \<le> 0"
  using lookup_key_visibility [of 5 "demo_key 5" "[1]"] lookup_key_visibility [of 5 "demo_key 6" "[1]"]
  by (simp add: demo_key_def kMaxSequenceNumber_def IsExtendedValueType_def IsValueType_def value_type_defs)

end
