(* ===== verification/Szd.thy ===== *)
theory Szd
  imports Prelude "HOL-Library.Multiset"
begin

text \<open>
  The boundary to SimpleZNSDevice (\<open>SZD\<close>), the storage layer TropoDB is written against. Its sources
  are a submodule that is not part of the tree, so its logs and buffers are parameters of the model:
  a record of operations over an abstract log state \<open>'l\<close> and one over buffers. What the code relies on
  is stated by the predicates of this theory, which are hypotheses of the theorems that need them.
  The only code of the tree here is \<open>io/szd_port.cc\<close>, which translates status codes.

  \<open>mem_log\<close> and \<open>mem_buffer\<close> are in-memory instances; they show that the predicates can hold.
\<close>

section \<open>Status codes\<close>

datatype SZDStatus =
    SZD_Success
  | SZD_InvalidArguments
  | SZD_IOError
  | SZD_Other

definition FromStatus :: "SZDStatus \<Rightarrow> status" where
  "FromStatus s = (case s of
       SZD_Success \<Rightarrow> OK
     | SZD_InvalidArguments \<Rightarrow> InvalidArgument
     | SZD_IOError \<Rightarrow> IOError
     | _ \<Rightarrow> Corruption)"

definition FromStatusMsg :: "SZDStatus \<Rightarrow> status" where
  "FromStatusMsg s = (case s of
       SZD_Success \<Rightarrow> OK
     | SZD_InvalidArguments \<Rightarrow> InvalidArgument
     | SZD_IOError \<Rightarrow> IOError
     | _ \<Rightarrow> Corruption)"

lemma FromStatus_ok [simp, status_simps]: "ok (FromStatus s) \<longleftrightarrow> s = SZD_Success"
  by (cases s) (simp_all add: FromStatus_def)

lemma FromStatus_OK [simp, status_simps]: "FromStatus s = OK \<longleftrightarrow> s = SZD_Success"
  by (cases s) (simp_all add: FromStatus_def)

section \<open>Operations of a log and of a buffer\<close>

text \<open>\<open>SZDLog\<close>, \<open>SZDOnceLog\<close> and \<open>SZDCircularLog\<close>: addresses are logical block addresses, sizes are in
  bytes. \<open>szd_Read l lba buf size\<close> gives the new contents of the buffer.\<close>

record 'l szd_log =
  szd_SpaceLeft :: "'l \<Rightarrow> nat \<Rightarrow> bool"
  szd_SpaceAvailable :: "'l \<Rightarrow> nat"
  szd_Empty :: "'l \<Rightarrow> bool"
  szd_GetWriteHead :: "'l \<Rightarrow> nat"
  szd_GetWriteTail :: "'l \<Rightarrow> nat"
  szd_Append :: "'l \<Rightarrow> bytes \<Rightarrow> SZDStatus \<times> nat \<times> 'l"
  szd_AsyncAppend :: "'l \<Rightarrow> bytes \<Rightarrow> SZDStatus \<times> 'l"
  szd_Read :: "'l \<Rightarrow> nat \<Rightarrow> bytes \<Rightarrow> nat \<Rightarrow> SZDStatus \<times> bytes"
  szd_ReadAll :: "'l \<Rightarrow> SZDStatus \<times> bytes"
  szd_ResetAll :: "'l \<Rightarrow> SZDStatus \<times> 'l"
  szd_RecoverPointers :: "'l \<Rightarrow> SZDStatus \<times> 'l"
  szd_ConsumeTail :: "'l \<Rightarrow> nat \<Rightarrow> nat \<Rightarrow> SZDStatus \<times> 'l"
  szd_Sync :: "'l \<Rightarrow> SZDStatus \<times> 'l"
  szd_MarkInactive :: "'l \<Rightarrow> SZDStatus \<times> 'l"

record szd_buffer =
  buf_Realloc :: "bytes \<Rightarrow> nat \<Rightarrow> SZDStatus \<times> bytes"
  buf_Get :: "bytes \<Rightarrow> SZDStatus"
  buf_Free :: "bytes \<Rightarrow> SZDStatus \<times> bytes"

section \<open>What the code relies on\<close>

text \<open>A reallocation that succeeds gives a buffer of the size asked for, and the buffer can be got.\<close>

definition buffer_laws :: "szd_buffer \<Rightarrow> bool" where
  "buffer_laws B \<longleftrightarrow>
     (\<forall>b n s b'. buf_Realloc B b n = (s, b') \<and> s = SZD_Success \<longrightarrow> length b' = n \<and> buf_Get B b' = SZD_Success)"

text \<open>The blocks from \<open>base\<close> on hold \<open>data\<close>: every block read succeeds and gives that block.\<close>

definition holds_at :: "nat \<Rightarrow> 'l szd_log \<Rightarrow> 'l \<Rightarrow> nat \<Rightarrow> bytes \<Rightarrow> bool" where
  "holds_at lba L l base data \<longleftrightarrow>
     (\<forall>i buf. (i + 1) * lba \<le> length data \<longrightarrow>
        szd_Read L l (base + i) buf lba = (SZD_Success, take lba (drop (i * lba) data)))"

text \<open>A successful append of whole blocks puts them at the write head, reports their number, and moves
  the write head behind them.\<close>

definition append_laws :: "nat \<Rightarrow> 'l szd_log \<Rightarrow> bool" where
  "append_laws lba L \<longleftrightarrow>
     (\<forall>l data n l'. length data mod lba = 0 \<and> szd_Append L l data = (SZD_Success, n, l') \<longrightarrow>
        n = length data div lba \<and> holds_at lba L l' (szd_GetWriteHead L l) data \<and>
        szd_GetWriteHead L l' = szd_GetWriteHead L l + n)"

text \<open>A log that is written with asynchronous appends only. \<open>chunks\<close> gives the appended pieces in the
  order of the calls; the device may store them in any order, so that reading everything gives
  them in some order.\<close>

definition once_laws :: "'l szd_log \<Rightarrow> ('l \<Rightarrow> bytes list) \<Rightarrow> bool" where
  "once_laws L chunks \<longleftrightarrow>
     (\<forall>l d l'. szd_AsyncAppend L l d = (SZD_Success, l') \<longrightarrow> chunks l' = chunks l @ [d]) \<and>
     (\<forall>l l'. szd_Sync L l = (SZD_Success, l') \<longrightarrow> chunks l' = chunks l) \<and>
     (\<forall>l. szd_Empty L l \<longleftrightarrow> chunks l = []) \<and>
     (\<forall>l d. szd_ReadAll L l = (SZD_Success, d) \<longrightarrow> (\<exists>cs. mset cs = mset (chunks l) \<and> d = concat cs))"

section \<open>In-memory instances\<close>

definition mem_buffer :: szd_buffer where
  "mem_buffer = \<lparr>buf_Realloc = \<lambda>b n. (SZD_Success, replicate n 0), buf_Get = \<lambda>b. SZD_Success,
                 buf_Free = \<lambda>b. (SZD_Success, [])\<rparr>"

text \<open>A log of \<open>cap\<close> bytes in blocks of \<open>lba\<close> bytes, starting at block 0; its state is its contents.\<close>

definition mem_log :: "nat \<Rightarrow> nat \<Rightarrow> bytes szd_log" where
  "mem_log lba cap =
     \<lparr>szd_SpaceLeft = \<lambda>l n. length l + n \<le> cap,
      szd_SpaceAvailable = \<lambda>l. cap - length l,
      szd_Empty = \<lambda>l. l = [],
      szd_GetWriteHead = \<lambda>l. length l div lba,
      szd_GetWriteTail = \<lambda>l. 0,
      szd_Append = \<lambda>l data.
        if length l mod lba = 0 \<and> length l + length data \<le> cap
        then (SZD_Success, length data div lba, l @ data) else (SZD_IOError, 0, l),
      szd_AsyncAppend = \<lambda>l data.
        if length l + length data \<le> cap then (SZD_Success, l @ data) else (SZD_IOError, l),
      szd_Read = \<lambda>l a buf n.
        if a * lba + n \<le> length l then (SZD_Success, take n (drop (a * lba) l)) else (SZD_IOError, buf),
      szd_ReadAll = \<lambda>l. (SZD_Success, l),
      szd_ResetAll = \<lambda>l. (SZD_Success, []),
      szd_RecoverPointers = \<lambda>l. (SZD_Success, l),
      szd_ConsumeTail = \<lambda>l b e. (SZD_InvalidArguments, l),
      szd_Sync = \<lambda>l. (SZD_Success, l),
      szd_MarkInactive = \<lambda>l. (SZD_Success, l)\<rparr>"

text \<open>A log of unbounded size whose state is the list of appended pieces, stored last piece first.\<close>

definition piece_log :: "bytes list szd_log" where
  "piece_log =
     \<lparr>szd_SpaceLeft = \<lambda>l n. True,
      szd_SpaceAvailable = \<lambda>l. 2 ^ 40,
      szd_Empty = \<lambda>l. l = [],
      szd_GetWriteHead = \<lambda>l. length (concat l),
      szd_GetWriteTail = \<lambda>l. 0,
      szd_Append = \<lambda>l data. (SZD_Success, length data, l @ [data]),
      szd_AsyncAppend = \<lambda>l data. (SZD_Success, l @ [data]),
      szd_Read = \<lambda>l a buf n. (SZD_IOError, buf),
      szd_ReadAll = \<lambda>l. (SZD_Success, concat (rev l)),
      szd_ResetAll = \<lambda>l. (SZD_Success, []),
      szd_RecoverPointers = \<lambda>l. (SZD_Success, l),
      szd_ConsumeTail = \<lambda>l b e. (SZD_InvalidArguments, l),
      szd_Sync = \<lambda>l. (SZD_Success, l),
      szd_MarkInactive = \<lambda>l. (SZD_Success, l)\<rparr>"

lemma once_laws_piece: "once_laws piece_log (\<lambda>l. l)"
  by (auto simp: once_laws_def piece_log_def intro!: exI [of _ "rev _"])

lemma mem_buffer_simps [simp]:
  "buf_Realloc mem_buffer b n = (SZD_Success, replicate n 0)" "buf_Get mem_buffer b = SZD_Success"
  "buf_Free mem_buffer b = (SZD_Success, [])"
  by (simp_all add: mem_buffer_def)

lemma mem_log_simps [simp]:
  "szd_GetWriteHead (mem_log lba cap) l = length l div lba"
  "szd_GetWriteTail (mem_log lba cap) l = 0"
  "szd_Empty (mem_log lba cap) l \<longleftrightarrow> l = []"
  "szd_SpaceLeft (mem_log lba cap) l n \<longleftrightarrow> length l + n \<le> cap"
  "szd_RecoverPointers (mem_log lba cap) l = (SZD_Success, l)"
  "szd_ReadAll (mem_log lba cap) l = (SZD_Success, l)"
  "szd_ResetAll (mem_log lba cap) l = (SZD_Success, [])"
  "szd_Sync (mem_log lba cap) l = (SZD_Success, l)"
  "length l mod lba = 0 \<Longrightarrow> length l + length data \<le> cap \<Longrightarrow>
   szd_Append (mem_log lba cap) l data = (SZD_Success, length data div lba, l @ data)"
  by (simp_all add: mem_log_def)

lemma buffer_laws_mem: "buffer_laws mem_buffer"
  by (simp add: buffer_laws_def mem_buffer_def)

lemma append_laws_mem:
  assumes "0 < lba"
  shows "append_laws lba (mem_log lba cap)"
proof -
  have "holds_at lba (mem_log lba cap) (l @ data) (length l div lba) data"
    if "length l mod lba = 0" for l data
  proof -
    have l: "length l div lba * lba = length l" using that by auto
    show ?thesis
      using l by (auto simp: holds_at_def mem_log_def algebra_simps)
  qed
  then show ?thesis
    using assms by (auto simp: append_laws_def mem_log_def div_add split: if_splits)
qed

end
