(* ===== verification/Committer.thy ===== *)
theory Committer
  imports Crc32c Szd
begin

text \<open>
  \<open>TropoCommitter\<close> (\<open>persistence/tropodb_committer.h\<close>, \<open>persistence/tropodb_committer.cc\<close>): records are cut
  into fragments of at most one logical block, each with an eight-byte header (masked checksum,
  three-byte length, type), and read back fragment by fragment, from a string or from the log.

  The loops that write fragments and the loops that read them are functions of their local
  variables. A write past the allocated buffer and a read past the input are \<open>None\<close>. The reader of
  the log (\<open>SeekCommitReader\<close>) can loop without advancing, so it is a partial function: there \<open>None\<close> also
  stands for not returning.
\<close>

section \<open>Types and state\<close>

datatype TropoRecordType = kInvalid | kFullType | kFirstType | kMiddleType | kLastType

definition record_type_code :: "TropoRecordType \<Rightarrow> nat" where
  "record_type_code t = (case t of
       kInvalid \<Rightarrow> 0 | kFullType \<Rightarrow> 1 | kFirstType \<Rightarrow> 2 | kMiddleType \<Rightarrow> 3 | kLastType \<Rightarrow> 4)"

definition kTropoHeaderSize :: nat where
  "kTropoHeaderSize = 4 + 3 + 1"

definition kTropoRecordTypeLast :: nat where
  "kTropoRecordTypeLast = record_type_code kLastType + 1"

record TropoCommitReader =
  commit_start :: nat
  commit_end :: nat
  commit_ptr :: nat
  reader_nr :: nat
  scratch :: bytes

record TropoCommitReaderString =
  str_start :: nat
  str_end :: nat
  str_ptr :: nat
  str_in :: bytes
  str_scratch :: bytes

record TropoCommitter =
  lba_size :: nat
  number_of_readers :: nat
  keep_buffer :: bool
  read_buffer :: "bytes list"
  write_buffer :: bytes
  type_crc :: "u32 list"

text \<open>\<open>InitTypeCrc\<close>: the array after the loop, and the indices outside the array that the loop wrote to.\<close>

definition InitTypeCrc :: "u32 list \<Rightarrow> u32 list \<times> nat list" where
  "InitTypeCrc tc =
     foldl (\<lambda>(tc, oob) i.
        let t = (word_of_nat i :: byte) in
        if i < length tc then (tc[i := Value [t]], oob) else (tc, oob @ [i]))
       (tc, []) [0..<length tc + 1]"

definition TropoCommitter_init :: "nat \<Rightarrow> nat \<Rightarrow> bool \<Rightarrow> TropoCommitter" where
  "TropoCommitter_init lba readers keep =
     \<lparr>lba_size = lba, number_of_readers = readers, keep_buffer = keep,
      read_buffer = replicate readers [], write_buffer = [],
      type_crc = fst (InitTypeCrc (replicate (kTropoRecordTypeLast + 1) 0))\<rparr>"

section \<open>Space\<close>

definition SpaceNeeded :: "nat \<Rightarrow> nat \<Rightarrow> nat" where
  "SpaceNeeded lba data_size =
     (let fragcount = data_size div lba + 1;
          size_needed = fragcount * kTropoHeaderSize + data_size
      in ((size_needed + lba - 1) div lba) * lba)"

definition SpaceEnough :: "'l szd_log \<Rightarrow> TropoCommitter \<Rightarrow> 'l \<Rightarrow> nat \<Rightarrow> bool" where
  "SpaceEnough L c l n = szd_SpaceLeft L l (SpaceNeeded (lba_size c) n)"

section \<open>Writing\<close>

definition fragment_type :: "bool \<Rightarrow> bool \<Rightarrow> TropoRecordType" where
  "fragment_type begin end' =
     (if begin \<and> end' then kFullType
      else if begin then kFirstType
      else if end' then kLastType
      else kMiddleType)"

text \<open>One iteration of the loop of \<open>CommitToCharArray\<close> and \<open>Commit\<close>, which have the same body: \<open>ptr\<close> is
  the data that is left, \<open>walker\<close> the offset of the fragment in the buffer.\<close>

definition write_fragment ::
  "nat \<Rightarrow> u32 list \<Rightarrow> bytes \<Rightarrow> nat \<Rightarrow> bytes \<Rightarrow> bool \<Rightarrow> (bytes \<times> nat) option" where
  "write_fragment lba tcrc fragment walker ptr begin = do {
     let left = length ptr;
     let avail = (if lba > kTropoHeaderSize then lba - kTropoHeaderSize else 0);
     let fragment_length = (if left < avail then left else avail);
     let type = fragment_type begin (left = fragment_length);
     let len = (word_of_nat fragment_length :: u64);
     fragment \<leftarrow> write_range fragment walker (replicate lba 0);
     fragment \<leftarrow> write_range fragment (walker + kTropoHeaderSize) (take fragment_length ptr);
     fragment \<leftarrow> write_range fragment (walker + 4) [ucast (len AND 0xff)];
     fragment \<leftarrow> write_range fragment (walker + 5) [ucast (drop_bit 8 len AND 0xff)];
     fragment \<leftarrow> write_range fragment (walker + 6) [ucast (drop_bit 16 len AND 0xff)];
     fragment \<leftarrow> write_range fragment (walker + 7) [word_of_nat (record_type_code type)];
     let crc = Mask (Extend (tcrc ! record_type_code type) (take fragment_length ptr));
     fragment \<leftarrow> write_range fragment walker (EncodeFixed32 crc);
     Some (fragment, fragment_length)
   }"

lemma write_fragment_bound:
  "write_fragment lba tcrc fragment walker ptr begin = Some (fragment', n) \<Longrightarrow>
   walker + kTropoHeaderSize \<le> length fragment \<and> length fragment' = length fragment"
  by (auto simp: write_fragment_def Let_def kTropoHeaderSize_def split: Option.bind_splits
      dest!: write_range_SomeD)

function commit_fragments ::
  "nat \<Rightarrow> u32 list \<Rightarrow> bytes \<Rightarrow> nat \<Rightarrow> bytes \<Rightarrow> bool \<Rightarrow> bytes option" where
  "commit_fragments lba tcrc fragment walker ptr begin = do {
     (fragment', fragment_length) \<leftarrow> write_fragment lba tcrc fragment walker ptr begin;
     let walker' = walker + fragment_length + kTropoHeaderSize;
     let ptr' = drop fragment_length ptr;
     if length ptr' > 0 then commit_fragments lba tcrc fragment' walker' ptr' False
     else Some fragment'
   }"
  by pat_completeness auto
termination
  by (relation "measure (\<lambda>(_, _, fragment, walker, _, _). length fragment + kTropoHeaderSize - walker)")
    (auto dest!: write_fragment_bound simp: kTropoHeaderSize_def)

declare commit_fragments.simps [simp del]

text \<open>\<open>CommitToCharArray\<close>: the array it allocates and fills; \<open>junk\<close> is the content of fresh memory.\<close>

definition CommitToCharArray :: "TropoCommitter \<Rightarrow> byte \<Rightarrow> bytes \<Rightarrow> (status \<times> bytes) option" where
  "CommitToCharArray c junk in' = do {
     let size_needed = SpaceNeeded (lba_size c) (length in');
     out \<leftarrow> commit_fragments (lba_size c) (type_crc c) (replicate size_needed junk) 0 in' True;
     Some (OK, out)
   }"

definition Commit ::
  "'l szd_log \<Rightarrow> szd_buffer \<Rightarrow> TropoCommitter \<Rightarrow> 'l \<Rightarrow> bytes \<Rightarrow>
   (status \<times> nat \<times> TropoCommitter \<times> 'l) option" where
  "Commit L B c l data = do {
     let fragcount = length data div lba_size c + 1;
     let size_needed = fragcount * kTropoHeaderSize + length data;
     let size_needed = ((size_needed + lba_size c - 1) div lba_size c) * lba_size c;
     let (s, wb) = buf_Realloc B (write_buffer c) size_needed;
     let c = c\<lparr>write_buffer := wb\<rparr>;
     if \<not> ok (FromStatus s) then Some (FromStatus s, 0, c, l)
     else if \<not> ok (FromStatus (buf_Get B wb)) then Some (FromStatus (buf_Get B wb), 0, c, l)
     else do {
       wb \<leftarrow> commit_fragments (lba_size c) (type_crc c) wb 0 data True;
       let c = c\<lparr>write_buffer := wb\<rparr>;
       let (s, lbas_iter, l) = szd_Append L l (take size_needed wb);
       let lbas = lbas_iter;
       if \<not> keep_buffer c then
         let (s, wb) = buf_Free B wb in Some (FromStatus s, lbas, c\<lparr>write_buffer := wb\<rparr>, l)
       else Some (FromStatus s, lbas, c, l)
     }
   }"

text \<open>The output parameter \<open>*lbas\<close> is written by \<open>Commit\<close> only; \<open>SafeCommit\<close> leaves it unchanged (here:
  returns the caller's value) when there is no space.\<close>

definition SafeCommit ::
  "'l szd_log \<Rightarrow> szd_buffer \<Rightarrow> TropoCommitter \<Rightarrow> 'l \<Rightarrow> nat \<Rightarrow> bytes \<Rightarrow>
   (status \<times> nat \<times> TropoCommitter \<times> 'l) option" where
  "SafeCommit L B c l lbas data =
     (if \<not> SpaceEnough L c l (length data) then Some (IOError, lbas, c, l)
      else Commit L B c l data)"

section \<open>Reading\<close>

text \<open>The header fields. \<open>header[7]\<close> is a signed \<open>char\<close> that is converted to \<open>uint32_t\<close>, so it is
  sign-extended.\<close>

definition header_length :: "byte \<Rightarrow> byte \<Rightarrow> byte \<Rightarrow> u32" where
  "header_length h4 h5 h6 =
     (let a = (ucast h4 :: u32) AND 0xff; b = (ucast h5 :: u32) AND 0xff; c = (ucast h6 :: u32) AND 0xff
      in a OR push_bit 8 b OR push_bit 16 c)"

text \<open>\<open>static_cast<TropoRecordType>(d)\<close> on the values the switch distinguishes; 0 and 5 reach its default
  case, as \<open>kInvalid\<close> does.\<close>

definition header_type :: "byte \<Rightarrow> TropoRecordType" where
  "header_type h7 =
     (let d = (scast h7 :: u32) in
      if d > word_of_nat kTropoRecordTypeLast then kInvalid
      else if d = 1 then kFullType else if d = 2 then kFirstType
      else if d = 3 then kMiddleType else if d = 4 then kLastType else kInvalid)"

text \<open>Header parsing and validation, common to both readers: \<open>header\<close> is the buffer from the header on.\<close>

definition parse_fragment :: "bytes \<Rightarrow> nat \<Rightarrow> (TropoRecordType \<times> nat) option" where
  "parse_fragment header to_read = do {
     h4 \<leftarrow> byte_at header 4; h5 \<leftarrow> byte_at header 5; h6 \<leftarrow> byte_at header 6; h7 \<leftarrow> byte_at header 7;
     let type = header_type h7;
     let length' = unat (header_length h4 h5 h6);
     let type = (if kTropoHeaderSize + length' > to_read then kInvalid else type);
     w \<leftarrow> DecodeFixed32 header;
     let expected_crc = Unmask w;
     body \<leftarrow> read_range header 7 (1 + length');
     let actual_crc = Value body;
     let type = (if actual_crc \<noteq> expected_crc then kInvalid else type);
     Some (type, length')
   }"

definition GetCommitReaderString :: "bytes \<Rightarrow> bytes \<Rightarrow> status \<times> TropoCommitReaderString" where
  "GetCommitReaderString deadbeef in' =
     (OK, \<lparr>str_start = 0, str_end = length in', str_ptr = 0, str_in = in', str_scratch = deadbeef\<rparr>)"

text \<open>The loop of \<open>SeekCommitReaderString\<close>: it returns the reader, whether a record was found, and the
  record. \<open>lba\<close> zero is a division by zero.\<close>

lemma advance_pos: "0 < lba \<Longrightarrow> 0 < ((n + kTropoHeaderSize + lba - 1) div lba) * lba"
  by (simp add: kTropoHeaderSize_def div_greater_zero_iff)

function SeekString_loop ::
  "nat \<Rightarrow> TropoCommitReaderString \<Rightarrow> bool \<Rightarrow> (TropoCommitReaderString \<times> bool \<times> bytes) option" where
  "SeekString_loop lba reader in_fragmented_record =
     (if lba = 0 then None
      else if str_ptr reader < str_end reader \<and> str_ptr reader \<ge> str_start reader then
        let to_read = (if str_end reader - str_ptr reader > lba then lba else str_end reader - str_ptr reader);
            header = drop (str_ptr reader) (str_in reader) in
        (case parse_fragment header to_read of
          None \<Rightarrow> None
        | Some (type, length') \<Rightarrow>
            let reader = reader\<lparr>str_ptr := str_ptr reader +
                           ((length' + kTropoHeaderSize + lba - 1) div lba) * lba\<rparr>;
                body = take length' (drop kTropoHeaderSize header) in
            (case type of
               kFullType \<Rightarrow> Some (reader\<lparr>str_scratch := body\<rparr>, True, body)
             | kFirstType \<Rightarrow> SeekString_loop lba (reader\<lparr>str_scratch := body\<rparr>) True
             | kMiddleType \<Rightarrow>
                 if \<not> in_fragmented_record then SeekString_loop lba reader in_fragmented_record
                 else SeekString_loop lba (reader\<lparr>str_scratch := str_scratch reader @ body\<rparr>)
                        in_fragmented_record
             | kLastType \<Rightarrow>
                 if \<not> in_fragmented_record then SeekString_loop lba reader in_fragmented_record
                 else Some (reader\<lparr>str_scratch := str_scratch reader @ body\<rparr>, True,
                            str_scratch reader @ body)
             | kInvalid \<Rightarrow> Some (reader\<lparr>str_scratch := []\<rparr>, False, [])))
      else Some (reader, False, []))"
  by pat_completeness auto
termination
proof (relation "measure (\<lambda>(lba, reader, _). str_end reader - str_ptr reader)", goal_cases)
  case 1
  then show ?case by simp
qed (use advance_pos in \<open>auto intro!: diff_less_mono2 simp del: mult_is_0\<close>)

declare SeekString_loop.simps [simp del]

definition SeekCommitReaderString ::
  "TropoCommitter \<Rightarrow> TropoCommitReaderString \<Rightarrow> (TropoCommitReaderString \<times> bool \<times> bytes) option" where
  "SeekCommitReaderString c reader =
     (if str_ptr reader \<ge> str_end reader then Some (reader, False, [])
      else SeekString_loop (lba_size c) (reader\<lparr>str_scratch := []\<rparr>) False)"

definition CloseCommitString :: "TropoCommitReaderString \<Rightarrow> bool \<times> TropoCommitReaderString" where
  "CloseCommitString reader = (True, reader\<lparr>str_scratch := []\<rparr>)"

text \<open>Reading from the log. The reader's buffer is reallocated by \<open>GetCommitReader\<close>; the status of
  \<open>log_->Read\<close> is not looked at, the buffer it leaves is used.\<close>

definition GetCommitReader ::
  "szd_buffer \<Rightarrow> TropoCommitter \<Rightarrow> bytes \<Rightarrow> nat \<Rightarrow> nat \<Rightarrow> nat \<Rightarrow> TropoCommitReader \<Rightarrow>
   status \<times> TropoCommitter \<times> TropoCommitReader" where
  "GetCommitReader B c deadbeef reader_number begin end' reader =
     (if begin \<ge> end' \<or> reader_number \<ge> number_of_readers c then (InvalidArgument, c, reader)
      else
        let reader = \<lparr>commit_start = begin, commit_end = end', commit_ptr = begin,
                      reader_nr = reader_number, scratch = deadbeef\<rparr>;
            (s, rb) = buf_Realloc B (read_buffer c ! reader_number) (lba_size c);
            c = c\<lparr>read_buffer := (read_buffer c)[reader_number := rb]\<rparr>
        in if \<not> ok (FromStatus s) then (MemoryLimit, c, reader) else (OK, c, reader))"

partial_function (option) SeekCommit_loop ::
  "'l szd_log \<Rightarrow> szd_buffer \<Rightarrow> 'l \<Rightarrow> TropoCommitter \<Rightarrow> TropoCommitReader \<Rightarrow> bool \<Rightarrow>
   (TropoCommitter \<times> TropoCommitReader \<times> bool \<times> bytes) option" where
  "SeekCommit_loop L B l c reader in_fragmented_record =
     (if commit_ptr reader < commit_end reader \<and> commit_ptr reader \<ge> commit_start reader then
        let lba = lba_size c;
            nr = reader_nr reader;
            to_read = (if (commit_end reader - commit_ptr reader) * lba > lba then lba
                       else (commit_end reader - commit_ptr reader) * lba);
            (_, rb) = szd_Read L l (commit_ptr reader) (read_buffer c ! nr) lba
        in
        do {
          h4 \<leftarrow> byte_at rb 4; h5 \<leftarrow> byte_at rb 5; h6 \<leftarrow> byte_at rb 6; h7 \<leftarrow> byte_at rb 7;
          let length' = unat (header_length h4 h5 h6);
          let rb = (if length' > lba \<and> length' \<le> usub64 to_read kTropoHeaderSize then
                      let (_, rb) = buf_Realloc B rb to_read;
                          (_, rb) = szd_Read L l (commit_ptr reader) rb to_read in rb
                    else rb);
          let c = c\<lparr>read_buffer := (read_buffer c)[nr := rb]\<rparr>;
          (type, _) \<leftarrow> parse_fragment rb to_read;
          let reader = reader\<lparr>commit_ptr := commit_ptr reader + (length' + lba - 1) div lba\<rparr>;
          let body = take length' (drop kTropoHeaderSize rb);
          (case type of
             kFullType \<Rightarrow> Some (c, reader\<lparr>scratch := body\<rparr>, True, body)
           | kFirstType \<Rightarrow> SeekCommit_loop L B l c (reader\<lparr>scratch := body\<rparr>) True
           | kMiddleType \<Rightarrow>
               if \<not> in_fragmented_record then SeekCommit_loop L B l c reader in_fragmented_record
               else SeekCommit_loop L B l c (reader\<lparr>scratch := scratch reader @ body\<rparr>) in_fragmented_record
           | kLastType \<Rightarrow>
               if \<not> in_fragmented_record then SeekCommit_loop L B l c reader in_fragmented_record
               else Some (c, reader\<lparr>scratch := scratch reader @ body\<rparr>, True, scratch reader @ body)
           | kInvalid \<Rightarrow> Some (c, reader\<lparr>scratch := []\<rparr>, False, []))
        }
      else Some (c, reader, False, []))"

definition SeekCommitReader ::
  "'l szd_log \<Rightarrow> szd_buffer \<Rightarrow> 'l \<Rightarrow> TropoCommitter \<Rightarrow> TropoCommitReader \<Rightarrow>
   (TropoCommitter \<times> TropoCommitReader \<times> bool \<times> bytes) option" where
  "SeekCommitReader L B l c reader =
     (if read_buffer c ! reader_nr reader = [] then Some (c, reader, False, [])
      else if commit_ptr reader \<ge> commit_end reader then Some (c, reader, False, [])
      else SeekCommit_loop L B l c (reader\<lparr>scratch := []\<rparr>) False)"

definition CloseCommit :: "szd_buffer \<Rightarrow> TropoCommitter \<Rightarrow> TropoCommitReader \<Rightarrow> bool \<times> TropoCommitter \<times> TropoCommitReader" where
  "CloseCommit B c reader =
     (let c = (if \<not> keep_buffer c then
                 c\<lparr>read_buffer := (read_buffer c)[reader_nr reader := snd (buf_Free B (read_buffer c ! reader_nr reader))]\<rparr>
               else c)
      in (True, c, reader\<lparr>scratch := []\<rparr>))"

section \<open>Reference fragments\<close>

text \<open>A fragment as it lies in its block, and the fragments of a record.\<close>

definition frag_bytes :: "nat \<Rightarrow> TropoRecordType \<Rightarrow> bytes \<Rightarrow> bytes" where
  "frag_bytes lba t data =
     EncodeFixed32 (Mask (Value (word_of_nat (record_type_code t) # data))) @
     le_bytes 3 (word_of_nat (length data) :: u64) @
     word_of_nat (record_type_code t) # data @ replicate (lba - kTropoHeaderSize - length data) 0"

function frags :: "nat \<Rightarrow> bool \<Rightarrow> bytes \<Rightarrow> bytes" where
  "frags lba begin data =
     (if lba \<le> kTropoHeaderSize \<or> length data \<le> lba - kTropoHeaderSize
      then frag_bytes lba (fragment_type begin True) data
      else frag_bytes lba (fragment_type begin False) (take (lba - kTropoHeaderSize) data) @
           frags lba False (drop (lba - kTropoHeaderSize) data))"
  by pat_completeness auto
termination
  by (relation "measure (\<lambda>(_, _, data). length data)") auto

declare frags.simps [simp del]

definition nfrags :: "nat \<Rightarrow> nat \<Rightarrow> nat" where
  "nfrags lba n = max 1 (ceil_div n (lba - kTropoHeaderSize))"

definition committer_wf :: "TropoCommitter \<Rightarrow> bool" where
  "committer_wf c \<longleftrightarrow>
     kTropoHeaderSize < lba_size c \<and> lba_size c \<le> 2 ^ 24 \<and>
     type_crc c = map (\<lambda>i. Value [word_of_nat i]) [0..<kTropoRecordTypeLast + 1]"

lemma length_frag_bytes:
  "length data \<le> lba - kTropoHeaderSize \<Longrightarrow> kTropoHeaderSize < lba \<Longrightarrow> length (frag_bytes lba t data) = lba"
  by (simp add: frag_bytes_def kTropoHeaderSize_def)

lemma ceil_div_step: "0 < b \<Longrightarrow> b < n \<Longrightarrow> ceil_div n b = Suc (ceil_div (n - b) b)"
proof -
  assume b: "0 < b" and n: "b < n"
  then have "n + b - 1 = (n - b + b - 1) + b" by simp
  moreover have "((n - b + b - 1) + b) div b = Suc ((n - b + b - 1) div b)"
    using b by (subst div_add_self2) simp_all
  ultimately show ?thesis unfolding ceil_div_def by metis
qed

lemma length_frags: "kTropoHeaderSize < lba \<Longrightarrow> length (frags lba begin data) = nfrags lba (length data) * lba"
proof (induction lba "begin" data rule: frags.induct)
  case (1 lba b data)
  show ?case
  proof (cases "length data \<le> lba - kTropoHeaderSize")
    case True
    then have "nfrags lba (length data) = 1"
      using "1.prems" ceil_div_le_iff [of "lba - kTropoHeaderSize" "length data" 1]
      by (simp add: nfrags_def)
    with True "1.prems" show ?thesis
      by (subst frags.simps) (simp add: length_frag_bytes)
  next
    case False
    then have "nfrags lba (length data) = Suc (nfrags lba (length data - (lba - kTropoHeaderSize)))"
      using "1.prems" ceil_div_step [of "lba - kTropoHeaderSize" "length data"]
        ceil_div_le_iff [of "lba - kTropoHeaderSize" "length data - (lba - kTropoHeaderSize)" 0]
      by (auto simp: nfrags_def max_def not_less_eq_eq)
    with False "1.prems" "1.IH" show ?thesis
      by (subst frags.simps) (simp add: length_frag_bytes)
  qed
qed

section \<open>The writer produces the reference fragments\<close>

lemma write_range_mid:
  "k + length ys \<le> length xs \<Longrightarrow> n = length pre + k \<Longrightarrow>
   write_range (pre @ xs @ post) n ys = Some (pre @ (take k xs @ ys @ drop (k + length ys) xs) @ post)"
  by (simp add: write_range_def)

lemma foldl_InitTypeCrc:
  "k \<le> length tc \<Longrightarrow>
   foldl (\<lambda>(tc, oob) i. let t = (word_of_nat i :: byte) in
        if i < length tc then (tc[i := Value [t]], oob) else (tc, oob @ [i])) (tc, []) [0..<k] =
   (map (\<lambda>i. Value [word_of_nat i]) [0..<k] @ drop k tc, [])"
proof (induction k)
  case (Suc k)
  then have "drop k tc = tc ! k # drop (Suc k) tc"
    by (simp add: Cons_nth_drop_Suc)
  with Suc show ?case by (simp add: Let_def list_update_append)
qed simp

lemma InitTypeCrc_eq: "InitTypeCrc tc = (map (\<lambda>i. Value [word_of_nat i]) [0..<length tc], [length tc])"
  unfolding InitTypeCrc_def using foldl_InitTypeCrc [of "length tc" tc] by (simp add: Let_def)

lemma committer_wf_init:
  "kTropoHeaderSize < lba \<Longrightarrow> lba \<le> 2 ^ 24 \<Longrightarrow> committer_wf (TropoCommitter_init lba n keep)"
  by (simp add: committer_wf_def TropoCommitter_init_def InitTypeCrc_eq)

lemma record_type_code_less: "record_type_code t < kTropoRecordTypeLast + 1"
  by (cases t) (simp_all add: record_type_code_def kTropoRecordTypeLast_def)

lemma Extend_type:
  "committer_wf c \<Longrightarrow> Extend (type_crc c ! record_type_code t) data =
                     Value (word_of_nat (record_type_code t) # data)"
  using record_type_code_less [of t] crc32c_append [of 0 "[word_of_nat (record_type_code t)]" data]
  by (simp add: committer_wf_def Value_def Extend_crc32c del: upt_Suc)

lemma le_bytes_3: "le_bytes 3 v = [ucast v, ucast (drop_bit 8 v), ucast (drop_bit 16 v)]"
  by (simp add: numeral_eq_Suc)

lemma le_bytes_4: "le_bytes 4 v = [ucast v, ucast (drop_bit 8 v), ucast (drop_bit 16 v), ucast (drop_bit 24 v)]"
  by (simp add: numeral_eq_Suc)

lemma write_fragment_eq:
  assumes "committer_wf c" and "lba = lba_size c" and "length pre = walker" and "length blk = lba"
    and n: "n = min (length ptr) (lba - kTropoHeaderSize)"
  shows "write_fragment lba (type_crc c) (pre @ blk @ post) walker ptr b =
         Some (pre @ frag_bytes lba (fragment_type b (length ptr = n)) (take n ptr) @ post, n)"
proof -
  define m where "m = lba - 8"
  have lba: "lba = 8 + m" "0 < m"
    using assms by (auto simp: committer_wf_def kTropoHeaderSize_def m_def)
  have nm: "n \<le> m" "n \<le> length ptr" "(if length ptr < m then length ptr else m) = n"
    using n lba by (auto simp: kTropoHeaderSize_def)
  let ?d = "take n ptr" and ?len = "word_of_nat n :: u64"
  let ?t = "record_type_code (fragment_type b (length ptr = n))"
  let ?tail = "?d @ replicate (m - n) (0 :: byte)"
  have z: "replicate lba (0 :: byte) = [0,0,0,0,0,0,0,0] @ replicate m 0"
    unfolding lba by (simp add: replicate_add numeral_eq_Suc)
  have r8: "replicate 8 (0 :: byte) = [0,0,0,0,0,0,0,0]"
    by (simp add: numeral_eq_Suc)
  have w1: "write_range (pre @ blk @ post) walker (replicate lba 0) = Some (pre @ replicate lba 0 @ post)"
    using write_range_mid [of 0 "replicate lba 0" blk walker pre post] assms by simp
  have w2: "write_range (pre @ replicate lba 0 @ post) (walker + 8) ?d =
      Some (pre @ ([0,0,0,0,0,0,0,0] @ ?tail) @ post)"
    using write_range_mid [of 8 ?d "replicate lba 0" "walker + 8" pre post] assms(3) nm z r8 lba by simp
  have w3: "write_range (pre @ ([0,0,0,0,0,0,0,0] @ ?tail) @ post) (walker + 4) [x4] =
      Some (pre @ ([0,0,0,0,x4,0,0,0] @ ?tail) @ post)" for x4
    using write_range_mid [of 4 "[x4]" "[0,0,0,0,0,0,0,0] @ ?tail" "walker + 4" pre post] assms(3) by simp
  have w4: "write_range (pre @ ([0,0,0,0,x4,0,0,0] @ ?tail) @ post) (walker + 5) [x5] =
      Some (pre @ ([0,0,0,0,x4,x5,0,0] @ ?tail) @ post)" for x4 x5
    using write_range_mid [of 5 "[x5]" "[0,0,0,0,x4,0,0,0] @ ?tail" "walker + 5" pre post] assms(3) by simp
  have w5: "write_range (pre @ ([0,0,0,0,x4,x5,0,0] @ ?tail) @ post) (walker + 6) [x6] =
      Some (pre @ ([0,0,0,0,x4,x5,x6,0] @ ?tail) @ post)" for x4 x5 x6
    using write_range_mid [of 6 "[x6]" "[0,0,0,0,x4,x5,0,0] @ ?tail" "walker + 6" pre post] assms(3) by simp
  have w6: "write_range (pre @ ([0,0,0,0,x4,x5,x6,0] @ ?tail) @ post) (walker + 7) [x7] =
      Some (pre @ ([0,0,0,0,x4,x5,x6,x7] @ ?tail) @ post)" for x4 x5 x6 x7
    using write_range_mid [of 7 "[x7]" "[0,0,0,0,x4,x5,x6,0] @ ?tail" "walker + 7" pre post] assms(3) by simp
  have w7: "write_range (pre @ ([0,0,0,0,x4,x5,x6,x7] @ ?tail) @ post) walker (EncodeFixed32 v) =
      Some (pre @ (EncodeFixed32 v @ [x4,x5,x6,x7] @ ?tail) @ post)" for x4 x5 x6 x7 v
    using write_range_mid [of 0 "EncodeFixed32 v" "[0,0,0,0,x4,x5,x6,x7] @ ?tail" walker pre post] assms(3)
    by (simp add: le_bytes_4)
  have h: "(if lba > kTropoHeaderSize then lba - kTropoHeaderSize else 0) = m"
    using lba by (simp add: kTropoHeaderSize_def)
  have f: "frag_bytes lba (fragment_type b (length ptr = n)) ?d =
      EncodeFixed32 (Mask (Value (word_of_nat ?t # ?d))) @
      [ucast (?len AND 0xff), ucast (drop_bit 8 ?len AND 0xff), ucast (drop_bit 16 ?len AND 0xff), word_of_nat ?t] @
      ?tail"
    using nm lba by (simp add: frag_bytes_def le_bytes_3 kTropoHeaderSize_def min_def)
  show ?thesis
    unfolding write_fragment_def Let_def h nm(3) w1 Option.bind_lunit
    unfolding kTropoHeaderSize_def numeral_plus_numeral add_num_simps one_plus_numeral numeral_plus_one
      w2 Option.bind_lunit w3 w4 w5 w6 w7 Extend_type [OF assms(1)]
    by (simp add: f)
qed


lemma commit_fragments_eq:
  assumes "committer_wf c" and "lba = lba_size c" and "length pre = walker"
    and "length blk = length (frags lba b ptr)"
  shows "commit_fragments lba (type_crc c) (pre @ blk @ post) walker ptr b =
         Some (pre @ frags lba b ptr @ post)"
  using assms(2-)
proof (induction lba "b" ptr arbitrary: pre walker blk rule: frags.induct)
  case (1 lba b ptr)
  have lba: "kTropoHeaderSize < lba" using assms(1) "1.prems" by (simp add: committer_wf_def)
  let ?n = "min (length ptr) (lba - kTropoHeaderSize)"
  show ?case
  proof (cases "length ptr \<le> lba - kTropoHeaderSize")
    case True
    then have n: "?n = length ptr" and f: "frags lba b ptr = frag_bytes lba (fragment_type b True) ptr"
      by (auto simp: frags.simps)
    then have "length blk = lba"
      using "1.prems" True lba by (simp add: length_frag_bytes)
    from write_fragment_eq [OF assms(1) "1.prems"(1,2) this, where n = "length ptr" and ptr = ptr and post = post and b = b]
    show ?thesis using n f
      by (subst commit_fragments.simps) simp
  next
    case False
    then have n: "?n = lba - kTropoHeaderSize" "length ptr \<noteq> lba - kTropoHeaderSize" by auto
    let ?f = "frag_bytes lba (fragment_type b False) (take (lba - kTropoHeaderSize) ptr)"
    let ?p = "drop (lba - kTropoHeaderSize) ptr"
    have f: "frags lba b ptr = ?f @ frags lba False ?p"
      using False lba by (subst frags.simps) simp
    have lf: "length ?f = lba" using lba by (simp add: length_frag_bytes)
    have blk: "length (take lba blk) = lba" "length (drop lba blk) = length (frags lba False ?p)"
      using "1.prems"(3) f lf by auto
    have e: "pre @ blk @ post = pre @ take lba blk @ drop lba blk @ post"
      by (metis append.assoc append_take_drop_id)
    have w: "write_fragment lba (type_crc c) (pre @ blk @ post) walker ptr b =
        Some (pre @ ?f @ drop lba blk @ post, lba - kTropoHeaderSize)"
      unfolding e using write_fragment_eq [OF assms(1) "1.prems"(1,2) blk(1), where n = "lba - kTropoHeaderSize"
        and ptr = ptr and post = "drop lba blk @ post" and b = b] n by simp
    have "commit_fragments lba (type_crc c) ((pre @ ?f) @ drop lba blk @ post) (walker + lba) ?p False =
        Some ((pre @ ?f) @ frags lba False ?p @ post)"
      using "1.IH" [of "pre @ ?f" "walker + lba" "drop lba blk"] "1.prems" False lba lf blk(2) by simp
    then show ?thesis
      using False lba by (subst commit_fragments.simps) (simp add: w f)
  qed
qed

lemma SpaceNeeded_mult: "\<exists>k. SpaceNeeded lba n = k * lba"
  by (simp add: SpaceNeeded_def Let_def)

lemma nfrags_pos: "0 < nfrags lba n"
  by (simp add: nfrags_def)

text \<open>The estimate of \<open>SpaceNeeded\<close> is exact as long as the headers of all fragments but one fit in
  one block.\<close>

lemma SpaceNeeded_exact:
  assumes lba: "kTropoHeaderSize < lba" and small: "kTropoHeaderSize * (nfrags lba n - 1) \<le> lba + 1"
  shows "SpaceNeeded lba n = nfrags lba n * lba"
proof -
  let ?k = "nfrags lba n" and ?L = "lba - kTropoHeaderSize"
  have up: "n \<le> ?k * ?L"
    using ceil_div_upper [of ?L n] lba by (auto simp: nfrags_def max_def intro: le_trans)
  have fc: "n div lba + 1 \<le> ?k"
  proof (cases "n = 0")
    case False
    have "n < ?k * lba"
    proof -
      have "?k * ?L < ?k * lba" using nfrags_pos [of lba n] lba by (simp add: kTropoHeaderSize_def)
      with up show ?thesis by (rule le_less_trans)
    qed
    then show ?thesis by (simp add: less_mult_imp_div_less Suc_le_eq)
  qed (simp add: nfrags_def)
  let ?s = "(n div lba + 1) * kTropoHeaderSize + n"
  have s_up: "?s \<le> ?k * lba"
  proof -
    have "(n div lba + 1) * kTropoHeaderSize \<le> ?k * kTropoHeaderSize" using fc by (rule mult_right_mono) simp
    then have "?s \<le> ?k * kTropoHeaderSize + ?k * ?L" using up by linarith
    also have "\<dots> = ?k * lba" using lba by (simp add: distrib_left [symmetric])
    finally show ?thesis .
  qed
  have s_low: "(?k - 1) * lba < ?s"
  proof (cases "?k = 1")
    case True
    then show ?thesis by (simp add: kTropoHeaderSize_def)
  next
    case False
    then have k: "?k = ceil_div n ?L" "2 \<le> ?k" using nfrags_pos [of lba n] by (auto simp: nfrags_def max_def split: if_splits)
    then have "\<not> n \<le> (?k - 1) * ?L"
      using lba ceil_div_le_iff [of ?L n "?k - 1"] by auto
    then have n: "(?k - 1) * ?L + 1 \<le> n" by simp
    have split: "(?k - 1) * ?L + kTropoHeaderSize * (?k - 1) = (?k - 1) * lba"
      using lba by (simp add: mult.commute [of kTropoHeaderSize] distrib_left [symmetric])
    have "(?k - 2) * lba \<le> n"
    proof -
      have "(?k - 2) * lba + lba = (?k - 1) * lba"
        using k(2) by (simp add: algebra_simps flip: add_mult_distrib)
      with n split small show ?thesis by linarith
    qed
    then have "?k - 2 \<le> n div lba" using lba by (simp add: less_eq_div_iff_mult_less_eq)
    then have "(?k - 1) * kTropoHeaderSize \<le> (n div lba + 1) * kTropoHeaderSize"
      using k(2) by (intro mult_right_mono) auto
    with n split show ?thesis by (simp add: mult.commute)
  qed
  have "ceil_div ?s lba = ?k"
  proof (rule antisym)
    show "ceil_div ?s lba \<le> ?k" using lba s_up by (simp add: ceil_div_le_iff)
    show "?k \<le> ceil_div ?s lba"
    proof (rule ccontr)
      assume "\<not> ?k \<le> ceil_div ?s lba"
      then have "ceil_div ?s lba \<le> ?k - 1" by simp
      then have "?s \<le> (?k - 1) * lba" using lba by (subst (asm) ceil_div_le_iff) auto
      with s_low show False by simp
    qed
  qed
  then show ?thesis by (simp add: SpaceNeeded_def Let_def ceil_div_def)
qed


lemma CommitToCharArray_eq:
  assumes "committer_wf c" and "kTropoHeaderSize * (nfrags (lba_size c) (length data) - 1) \<le> lba_size c + 1"
  shows "CommitToCharArray c junk data = Some (OK, frags (lba_size c) True data)"
proof -
  have "SpaceNeeded (lba_size c) (length data) = length (frags (lba_size c) True data)"
    using assms by (simp add: SpaceNeeded_exact committer_wf_def length_frags)
  then show ?thesis
    using commit_fragments_eq [OF assms(1) refl, of "[]" 0 "replicate (SpaceNeeded (lba_size c) (length data)) junk" True data "[]"]
    by (simp add: CommitToCharArray_def Let_def)
qed

section \<open>The readers return what was written\<close>

lemma header_type_code [simp]: "header_type (word_of_nat (record_type_code t)) = t"
  by (cases t) (simp_all add: header_type_def record_type_code_def kTropoRecordTypeLast_def Let_def)

lemma header_length_le_bytes:
  assumes "n < 2 ^ 24"
  shows "unat (header_length (ucast (word_of_nat n :: u64)) (ucast (drop_bit 8 (word_of_nat n :: u64)))
           (ucast (drop_bit 16 (word_of_nat n :: u64)))) = n"
proof -
  have "header_length (ucast (word_of_nat n :: u64)) (ucast (drop_bit 8 (word_of_nat n :: u64)))
           (ucast (drop_bit 16 (word_of_nat n :: u64))) = word_of_nat (take_bit 24 n)"
    unfolding header_length_def Let_def ff_eq_mask
  proof (rule bit_word_eqI, goal_cases)
    case (1 m)
    then show ?case by (cases "m < 16") (auto simp: bit_simps)
  qed
  with assms show ?thesis
    by (simp add: take_bit_nat_eq_self unsigned_of_nat)
qed

lemma frag_bytes_parts:
  assumes "length data \<le> lba - kTropoHeaderSize" and "kTropoHeaderSize < lba" and "lba \<le> 2 ^ 24"
    and "kTropoHeaderSize + length data \<le> to_read"
  shows "parse_fragment (frag_bytes lba t data @ post) to_read = Some (t, length data)"
    and "take (length data) (drop kTropoHeaderSize (frag_bytes lba t data @ post)) = data"
proof -
  let ?l = "word_of_nat (length data) :: u64" and ?c = "word_of_nat (record_type_code t) :: byte"
  let ?w = "Mask (Value (?c # data))"
  let ?tl = "data @ replicate (lba - kTropoHeaderSize - length data) 0 @ post"
  have f: "frag_bytes lba t data @ post =
      EncodeFixed32 ?w @ ucast ?l # ucast (drop_bit 8 ?l) # ucast (drop_bit 16 ?l) # ?c # ?tl"
    by (simp add: frag_bytes_def le_bytes_3)
  then have f4: "frag_bytes lba t data @ post =
      ucast ?w # ucast (drop_bit 8 ?w) # ucast (drop_bit 16 ?w) # ucast (drop_bit 24 ?w) #
      ucast ?l # ucast (drop_bit 8 ?l) # ucast (drop_bit 16 ?l) # ?c # ?tl"
    by (simp add: le_bytes_4)
  have d: "DecodeFixed32 (frag_bytes lba t data @ post) = Some ?w"
    unfolding f by (rule DecodeFixed_EncodeFixed(3))
  have len: "length data < 2 ^ 24" using assms by (simp add: kTropoHeaderSize_def)
  have b: "byte_at (frag_bytes lba t data @ post) 4 = Some (ucast ?l)"
    "byte_at (frag_bytes lba t data @ post) 5 = Some (ucast (drop_bit 8 ?l))"
    "byte_at (frag_bytes lba t data @ post) 6 = Some (ucast (drop_bit 16 ?l))"
    "byte_at (frag_bytes lba t data @ post) 7 = Some ?c"
    unfolding f4 by (simp_all add: byte_at_def)
  have r: "read_range (frag_bytes lba t data @ post) 7 (1 + length data) = Some (?c # data)"
    unfolding f4 by (simp add: read_range_def)
  show "parse_fragment (frag_bytes lba t data @ post) to_read = Some (t, length data)"
    unfolding parse_fragment_def b d Option.bind_lunit Let_def header_length_le_bytes [OF len] r
    using assms(4) by (simp add: Unmask_Mask)
  show "take (length data) (drop kTropoHeaderSize (frag_bytes lba t data @ post)) = data"
    unfolding f4 by (simp add: kTropoHeaderSize_def)
qed

text \<open>One fragment: what is left of the loop after it.\<close>

lemma advance_one: "0 < lba \<Longrightarrow> n \<le> lba - kTropoHeaderSize \<Longrightarrow> kTropoHeaderSize < lba \<Longrightarrow>
   ((n + kTropoHeaderSize + lba - 1) div lba) * lba = lba"
  using ceil_div_eq_1 [of "n + kTropoHeaderSize" lba] by (simp add: ceil_div_def kTropoHeaderSize_def)

lemma SeekString_loop_fragment:
  assumes r: "str_in r = pre @ frag_bytes lba t data @ post" "str_ptr r = length pre"
      "str_end r = length (str_in r)" "str_start r \<le> str_ptr r"
    and data: "length data \<le> lba - kTropoHeaderSize" and lba: "kTropoHeaderSize < lba" "lba \<le> 2 ^ 24"
    and t: "t \<noteq> kInvalid" "b \<or> t \<in> {kFullType, kFirstType}"
  shows "SeekString_loop lba r b =
    (let r' = r\<lparr>str_ptr := str_ptr r + lba,
                str_scratch := (if t \<in> {kFullType, kFirstType} then [] else str_scratch r) @ data\<rparr>
     in if t \<in> {kFullType, kLastType} then Some (r', True, str_scratch r') else SeekString_loop lba r' True)"
proof -
  have h: "drop (str_ptr r) (str_in r) = frag_bytes lba t data @ post" using r by simp
  have cond: "lba \<noteq> 0" "str_ptr r < str_end r \<and> str_ptr r \<ge> str_start r"
    using r data lba by (auto simp: length_frag_bytes)
  let ?tr = "if str_end r - str_ptr r > lba then lba else str_end r - str_ptr r"
  have tr: "kTropoHeaderSize + length data \<le> ?tr"
    using r data lba by (auto simp: length_frag_bytes)
  note p = frag_bytes_parts [OF data lba tr, of t post]
  have adv: "((length data + kTropoHeaderSize + lba - 1) div lba) * lba = lba"
    using advance_one data lba by simp
  show ?thesis
    unfolding SeekString_loop.simps [of lba r b] using cond t
    by (simp only: if_True if_False simp_thms Let_def h p adv option.case prod.case) (cases t; simp)
qed

lemma SeekString_loop_frags:
  assumes "str_in r = pre @ frags lba first data @ post" and "str_ptr r = length pre"
    and "str_end r = length (str_in r)" and "str_start r \<le> str_ptr r"
    and lba: "kTropoHeaderSize < lba" "lba \<le> 2 ^ 24" and "first \<or> b"
  shows "SeekString_loop lba r b =
    (let d = (if first then [] else str_scratch r) @ data
     in Some (r\<lparr>str_ptr := length pre + length (frags lba first data), str_scratch := d\<rparr>, True, d))"
  using assms(1-4,7)
proof (induction "length data" arbitrary: data pre r first b rule: less_induct)
  case less
  show ?case
  proof (cases "length data \<le> lba - kTropoHeaderSize")
    case True
    then have f: "frags lba first data = frag_bytes lba (fragment_type first True) data"
      by (subst frags.simps) simp
    show ?thesis
      using less.prems True lba
      by (subst SeekString_loop_fragment [where t = "fragment_type first True" and data = data and post = post and pre = pre])
        (auto simp: f fragment_type_def length_frag_bytes Let_def)
  next
    case False
    let ?d = "take (lba - kTropoHeaderSize) data" and ?d' = "drop (lba - kTropoHeaderSize) data"
    let ?f = "frag_bytes lba (fragment_type first False) ?d"
    have f: "frags lba first data = ?f @ frags lba False ?d'"
      using False lba by (subst frags.simps) simp
    have lf: "length ?f = lba" using lba by (simp add: length_frag_bytes)
    let ?r = "r\<lparr>str_ptr := str_ptr r + lba, str_scratch := (if first then [] else str_scratch r) @ ?d\<rparr>"
    have step: "SeekString_loop lba r b = SeekString_loop lba ?r True"
      using less.prems lba
      by (subst SeekString_loop_fragment [where t = "fragment_type first False" and data = ?d
            and post = "frags lba False ?d' @ post" and pre = pre])
        (auto simp: f fragment_type_def Let_def)
    have "SeekString_loop lba ?r True =
      (let d = str_scratch ?r @ ?d' in
       Some (?r\<lparr>str_ptr := length (pre @ ?f) + length (frags lba False ?d'), str_scratch := d\<rparr>, True, d))"
      using less.hyps [of ?d' ?r "pre @ ?f" False True] less.prems False lba lf f by simp
    then show ?thesis
      unfolding step by (simp add: f Let_def)
  qed
qed

definition string_reader :: "bytes \<Rightarrow> nat \<Rightarrow> bytes \<Rightarrow> TropoCommitReaderString" where
  "string_reader in' p sc = \<lparr>str_start = 0, str_end = length in', str_ptr = p, str_in = in', str_scratch = sc\<rparr>"

lemma SeekCommitReaderString_frags:
  assumes "committer_wf c"
  shows "SeekCommitReaderString c (string_reader (pre @ frags (lba_size c) True data @ post) (length pre) sc) =
    Some (string_reader (pre @ frags (lba_size c) True data @ post)
            (length pre + length (frags (lba_size c) True data)) data, True, data)"
proof -
  let ?in = "pre @ frags (lba_size c) True data @ post"
  have c: "kTropoHeaderSize < lba_size c" "lba_size c \<le> 2 ^ 24"
    using assms by (auto simp: committer_wf_def)
  then have "length pre < length ?in"
    using nfrags_pos [of "lba_size c" "length data"] by (simp add: length_frags)
  then show ?thesis
    using SeekString_loop_frags [of "string_reader ?in (length pre) []" pre "lba_size c" True data post False] c
    by (simp add: SeekCommitReaderString_def string_reader_def)
qed


lemma Commit_ok:
  assumes "committer_wf c" and "buffer_laws B"
    and "kTropoHeaderSize * (nfrags (lba_size c) (length data) - 1) \<le> lba_size c + 1"
    and "fst (buf_Realloc B (write_buffer c) (SpaceNeeded (lba_size c) (length data))) = SZD_Success"
    and "szd_Append L l (frags (lba_size c) True data) = (s, n, l')"
  shows "\<exists>wb. Commit L B c l data =
    (if keep_buffer c then Some (FromStatus s, n, c\<lparr>write_buffer := frags (lba_size c) True data\<rparr>, l')
     else Some (FromStatus (fst (buf_Free B (frags (lba_size c) True data))), n, c\<lparr>write_buffer := wb\<rparr>, l'))"
proof -
  let ?f = "frags (lba_size c) True data" and ?n = "SpaceNeeded (lba_size c) (length data)"
  obtain wb where wb: "buf_Realloc B (write_buffer c) ?n = (SZD_Success, wb)"
    using assms(4) by (metis prod.collapse)
  with assms(2) have "length wb = ?n" and get: "buf_Get B wb = SZD_Success"
    by (auto simp: buffer_laws_def)
  moreover have n: "?n = length ?f"
    using assms by (simp add: SpaceNeeded_exact committer_wf_def length_frags)
  ultimately have "commit_fragments (lba_size c) (type_crc c) wb 0 data True = Some ?f"
    using commit_fragments_eq [OF assms(1) refl, of "[]" 0 wb True data "[]"] by simp
  moreover have "((length data div lba_size c + 1) * kTropoHeaderSize + length data + lba_size c - 1) div lba_size c * lba_size c = ?n"
    by (simp add: SpaceNeeded_def Let_def)
  ultimately show ?thesis
    using wb get n assms(5) by (auto simp: Commit_def Let_def split: prod.splits)
qed

text \<open>Two committers that differ in their read buffers only.\<close>

definition same_but_read :: "TropoCommitter \<Rightarrow> TropoCommitter \<Rightarrow> nat \<Rightarrow> bool" where
  "same_but_read c c' nr \<longleftrightarrow>
     (\<exists>rb. c' = c\<lparr>read_buffer := rb\<rparr> \<and> length rb = length (read_buffer c) \<and> rb ! nr \<noteq> [])"

lemma holds_at_append:
  assumes "holds_at lba L l base (blk @ rest)" and "length blk = lba" and "0 < lba"
  shows "szd_Read L l base buf lba = (SZD_Success, blk)" and "holds_at lba L l (base + 1) rest"
proof -
  show "szd_Read L l base buf lba = (SZD_Success, blk)"
    using assms(1) [unfolded holds_at_def, rule_format, of 0 buf] assms(2) by simp
  show "holds_at lba L l (base + 1) rest"
    unfolding holds_at_def
  proof (intro allI impI)
    fix i buf
    assume "(i + 1) * lba \<le> length rest"
    then show "szd_Read L l (base + 1 + i) buf lba = (SZD_Success, take lba (drop (i * lba) rest))"
      using assms(1) [unfolded holds_at_def, rule_format, of "i + 1" buf] assms(2)
      by (simp add: algebra_simps)
  qed
qed

lemma SeekCommit_loop_fragment:
  assumes hold: "holds_at (lba_size c) L l (commit_ptr r) (frag_bytes (lba_size c) t data @ post)"
    and r: "commit_ptr r < commit_end r" "commit_start r \<le> commit_ptr r" "reader_nr r < length (read_buffer c)"
    and data: "length data \<le> lba_size c - kTropoHeaderSize" "data \<noteq> []"
    and lba: "kTropoHeaderSize < lba_size c" "lba_size c \<le> 2 ^ 24"
    and t: "t \<noteq> kInvalid" "b \<or> t \<in> {kFullType, kFirstType}"
  shows "\<exists>c'. same_but_read c c' (reader_nr r) \<and> SeekCommit_loop L B l c r b =
    (let r' = r\<lparr>commit_ptr := commit_ptr r + 1,
                scratch := (if t \<in> {kFullType, kFirstType} then [] else scratch r) @ data\<rparr>
     in if t \<in> {kFullType, kLastType} then Some (c', r', True, scratch r') else SeekCommit_loop L B l c' r' True)"
proof -
  let ?lba = "lba_size c"
  let ?f = "frag_bytes ?lba t data"
  have lf: "length ?f = ?lba" using data lba by (simp add: length_frag_bytes)
  have read: "szd_Read L l (commit_ptr r) buf ?lba = (SZD_Success, ?f)" for buf
    using holds_at_append(1) [OF hold lf] lba by simp
  have tr: "(if (commit_end r - commit_ptr r) * ?lba > ?lba then ?lba else (commit_end r - commit_ptr r) * ?lba) = ?lba"
    using r(1) by (cases "commit_end r - commit_ptr r") auto
  have le: "kTropoHeaderSize + length data \<le> ?lba" using data lba by simp
  note p = frag_bytes_parts [OF data(1) lba le, of t "[]", unfolded append_Nil2]
  obtain h4 h5 h6 h7 where h: "byte_at ?f 4 = Some h4" "byte_at ?f 5 = Some h5" "byte_at ?f 6 = Some h6"
    "byte_at ?f 7 = Some h7" and len: "unat (header_length h4 h5 h6) = length data"
    using p(1) unfolding parse_fragment_def by (auto simp: Let_def split: Option.bind_splits)
  have adv: "(length data + ?lba - 1) div ?lba = 1"
    using ceil_div_eq_1 [of "length data" ?lba] data by (simp add: ceil_div_def)
  have big: "\<not> length data > ?lba" using data lba by simp
  have ne: "?f \<noteq> []" using lf lba by (metis less_nat_zero_code list.size(3))
  let ?c = "c\<lparr>read_buffer := (read_buffer c)[reader_nr r := ?f]\<rparr>"
  have "same_but_read c ?c (reader_nr r)"
    using r(3) ne by (auto simp: same_but_read_def)
  moreover have "SeekCommit_loop L B l c r b =
    (let r' = r\<lparr>commit_ptr := commit_ptr r + 1,
                scratch := (if t \<in> {kFullType, kFirstType} then [] else scratch r) @ data\<rparr>
     in if t \<in> {kFullType, kLastType} then Some (?c, r', True, scratch r') else SeekCommit_loop L B l ?c r' True)"
    unfolding SeekCommit_loop.simps [of L B l c r b] using r(1,2) t
    by (simp only: if_True if_False simp_thms Let_def tr read prod.case h Option.bind_lunit len big p adv)
      (cases t; simp)
  ultimately show ?thesis by blast
qed

lemma same_but_read_trans: "same_but_read a b nr \<Longrightarrow> same_but_read b c nr \<Longrightarrow> same_but_read a c nr"
  by (auto simp: same_but_read_def)

lemma same_but_read_simps:
  assumes "same_but_read c c' nr"
  shows "lba_size c' = lba_size c" "number_of_readers c' = number_of_readers c"
    "keep_buffer c' = keep_buffer c" "type_crc c' = type_crc c" "write_buffer c' = write_buffer c"
    "length (read_buffer c') = length (read_buffer c)"
  using assms by (auto simp: same_but_read_def)

lemma SeekCommit_loop_frags:
  assumes "holds_at (lba_size c) L l (commit_ptr r) (frags (lba_size c) first data)"
    and "commit_ptr r + nfrags (lba_size c) (length data) \<le> commit_end r" and "commit_start r \<le> commit_ptr r"
    and "reader_nr r < length (read_buffer c)" and "data \<noteq> []" and "first \<or> b"
    and "kTropoHeaderSize < lba_size c" "lba_size c \<le> 2 ^ 24"
  shows "\<exists>c'. same_but_read c c' (reader_nr r) \<and> SeekCommit_loop L B l c r b =
    (let d = (if first then [] else scratch r) @ data
     in Some (c', r\<lparr>commit_ptr := commit_ptr r + nfrags (lba_size c) (length data), scratch := d\<rparr>, True, d))"
  using assms
proof (induction "length data" arbitrary: data c r first b rule: less_induct)
  case less
  let ?lba = "lba_size c"
  note lba = less.prems(7,8)
  have ptr: "commit_ptr r < commit_end r"
    using less.prems(2) nfrags_pos [of ?lba "length data"] by simp
  show ?case
  proof (cases "length data \<le> ?lba - kTropoHeaderSize")
    case True
    have f: "frags ?lba first data = frag_bytes ?lba (fragment_type first True) data @ []"
      using True by (subst frags.simps) simp
    have n: "nfrags ?lba (length data) = 1"
      using length_frags [OF lba(1), of first data] True lba by (simp add: f length_frag_bytes)
    show ?thesis
      using SeekCommit_loop_fragment [OF less.prems(1) [unfolded f] ptr less.prems(3,4) True less.prems(5) lba, of b B]
        less.prems(6) n by (auto simp: fragment_type_def Let_def)
  next
    case False
    let ?d = "take (?lba - kTropoHeaderSize) data" and ?d' = "drop (?lba - kTropoHeaderSize) data"
    let ?f = "frag_bytes ?lba (fragment_type first False) ?d"
    have f: "frags ?lba first data = ?f @ frags ?lba False ?d'"
      using False lba by (subst frags.simps) simp
    have lf: "length ?f = ?lba" using lba by (simp add: length_frag_bytes)
    have n: "nfrags ?lba (length data) = 1 + nfrags ?lba (length ?d')"
    proof -
      have "nfrags ?lba (length data) * ?lba = ?lba + nfrags ?lba (length ?d') * ?lba"
        using length_frags [OF lba(1), of first data] length_frags [OF lba(1), of False ?d'] by (simp add: f lf)
      also have "\<dots> = (1 + nfrags ?lba (length ?d')) * ?lba" by simp
      finally show ?thesis using lba by (simp only: mult_cancel2) auto
    qed
    let ?r = "r\<lparr>commit_ptr := commit_ptr r + 1, scratch := (if first then [] else scratch r) @ ?d\<rparr>"
    obtain c1 where c1: "same_but_read c c1 (reader_nr r)"
      and s1: "SeekCommit_loop L B l c r b = SeekCommit_loop L B l c1 ?r True"
      using SeekCommit_loop_fragment [OF less.prems(1) [unfolded f] ptr less.prems(3,4) _ _ lba, of b B]
        less.prems(5,6) False lba by (cases first) (auto simp: fragment_type_def Let_def)
    have h: "holds_at ?lba L l (commit_ptr r + 1) (frags ?lba False ?d')"
      using holds_at_append(2) [OF less.prems(1) [unfolded f] lf] lba by simp
    have lt: "length ?d' < length data" using False lba by simp
    obtain c2 where c2: "same_but_read c1 c2 (reader_nr r)"
      and s2: "SeekCommit_loop L B l c1 ?r True =
        (let d = scratch ?r @ ?d' in
         Some (c2, ?r\<lparr>commit_ptr := commit_ptr ?r + nfrags ?lba (length ?d'), scratch := d\<rparr>, True, d))"
      using less.hyps [OF lt, of c1 ?r False True] h less.prems(2-5) False lba n
        same_but_read_simps [OF c1] by auto
    show ?thesis
      unfolding s1 s2 n using same_but_read_trans [OF c1 c2]
      by (intro exI [of _ c2]) (simp add: Let_def)
  qed
qed

lemma SeekCommitReader_frags:
  assumes "committer_wf c" and "buffer_laws B"
    and "holds_at (lba_size c) L l base (frags (lba_size c) True data)" and "data \<noteq> []"
    and "nr < number_of_readers c" and "length (read_buffer c) = number_of_readers c"
    and "base + nfrags (lba_size c) (length data) \<le> e"
    and "fst (buf_Realloc B (read_buffer c ! nr) (lba_size c)) = SZD_Success"
  shows "\<exists>c1 r1 c2 r2.
    GetCommitReader B c deadbeef nr base e r = (OK, c1, r1) \<and>
    SeekCommitReader L B l c1 r1 = Some (c2, r2, True, data) \<and>
    commit_ptr r2 = base + nfrags (lba_size c) (length data) \<and> commit_end r2 = e \<and>
    reader_nr r2 = nr \<and> same_but_read c c2 nr"
proof -
  have lba: "kTropoHeaderSize < lba_size c" "lba_size c \<le> 2 ^ 24"
    using assms(1) by (auto simp: committer_wf_def)
  have be: "base < e" using assms(7) nfrags_pos [of "lba_size c" "length data"] by simp
  obtain rb where rb: "buf_Realloc B (read_buffer c ! nr) (lba_size c) = (SZD_Success, rb)"
    using assms(8) by (metis prod.collapse)
  then have "length rb = lba_size c" using assms(2) by (auto simp: buffer_laws_def)
  then have ne: "rb \<noteq> []" using lba by auto
  let ?c1 = "c\<lparr>read_buffer := (read_buffer c)[nr := rb]\<rparr>"
  let ?r1 = "\<lparr>commit_start = base, commit_end = e, commit_ptr = base, reader_nr = nr, scratch = deadbeef\<rparr>"
  have g: "GetCommitReader B c deadbeef nr base e r = (OK, ?c1, ?r1)"
    using be assms(5) rb by (simp add: GetCommitReader_def)
  have c1: "same_but_read c ?c1 nr"
    using assms(5,6) ne by (auto simp: same_but_read_def)
  obtain c2 where c2: "same_but_read ?c1 c2 nr" and
    "SeekCommit_loop L B l ?c1 (?r1\<lparr>scratch := []\<rparr>) False =
      Some (c2, ?r1\<lparr>commit_ptr := base + nfrags (lba_size c) (length data), scratch := data\<rparr>, True, data)"
    using SeekCommit_loop_frags [of ?c1 L l "?r1\<lparr>scratch := []\<rparr>" True data False B]
      assms(3,4,5,6,7) lba by simp blast
  then have s: "SeekCommitReader L B l ?c1 ?r1 =
      Some (c2, ?r1\<lparr>commit_ptr := base + nfrags (lba_size c) (length data), scratch := data\<rparr>, True, data)"
    using be assms(5,6) ne by (simp add: SeekCommitReader_def)
  show ?thesis
    by (intro exI conjI) (rule g, rule s, simp_all add: same_but_read_trans [OF c1 c2])
qed

section \<open>Overflow of the fragment buffer\<close>

lemma write_fragment_memset:
  "write_fragment lba tcrc fragment walker ptr b = Some (fragment', n) \<Longrightarrow>
   walker + lba \<le> length fragment \<and> length fragment' = length fragment \<and>
   n = min (length ptr) (lba - kTropoHeaderSize)"
  by (auto simp: write_fragment_def Let_def min_def split: Option.bind_splits dest!: write_range_SomeD)

lemma commit_fragments_None:
  assumes "kTropoHeaderSize < lba" and "length buf < walker + length (frags lba b ptr)"
  shows "commit_fragments lba tcrc buf walker ptr b = None"
  using assms(2)
proof (induction "length ptr" arbitrary: ptr buf walker b rule: less_induct)
  case less
  show ?case
  proof (cases "write_fragment lba tcrc buf walker ptr b")
    case None
    then show ?thesis by (subst commit_fragments.simps) simp
  next
    case (Some p)
    then obtain buf' n where w: "write_fragment lba tcrc buf walker ptr b = Some (buf', n)"
      by (cases p) auto
    note m = write_fragment_memset [OF w]
    show ?thesis
    proof (cases "length ptr \<le> lba - kTropoHeaderSize")
      case True
      then have "length (frags lba b ptr) = lba"
        using assms(1) by (subst frags.simps) (simp add: length_frag_bytes)
      with m less.prems show ?thesis by simp
    next
      case False
      let ?p = "drop (lba - kTropoHeaderSize) ptr"
      have f: "length (frags lba b ptr) = lba + length (frags lba False ?p)"
        using False assms(1) by (subst frags.simps) (simp add: length_frag_bytes)
      have "commit_fragments lba tcrc buf' (walker + lba) ?p False = None"
        using less.hyps [of ?p buf' "walker + lba" False] False m f less.prems assms(1) by simp
      then show ?thesis
        using w m False assms(1) by (subst commit_fragments.simps) (simp add: Let_def)
    qed
  qed
qed

lemma CommitToCharArray_None:
  assumes "committer_wf c"
  shows "CommitToCharArray c junk data = None \<longleftrightarrow>
         SpaceNeeded (lba_size c) (length data) < nfrags (lba_size c) (length data) * lba_size c"
proof -
  let ?n = "SpaceNeeded (lba_size c) (length data)" and ?f = "frags (lba_size c) True data"
  have lba: "kTropoHeaderSize < lba_size c" using assms by (simp add: committer_wf_def)
  have "commit_fragments (lba_size c) (type_crc c) (replicate ?n junk) 0 data True \<noteq> None"
    if "length ?f \<le> ?n"
  proof -
    have "replicate ?n junk = [] @ replicate (length ?f) junk @ replicate (?n - length ?f) junk"
      using that by (simp flip: replicate_add)
    then show ?thesis
      using commit_fragments_eq [OF assms refl, of "[]" 0 "replicate (length ?f) junk" True data
          "replicate (?n - length ?f) junk"] by simp
  qed
  moreover have "commit_fragments (lba_size c) (type_crc c) (replicate ?n junk) 0 data True = None"
    if "?n < length ?f"
    using commit_fragments_None [OF lba, of "replicate ?n junk" 0 True data] that by simp
  ultimately have "CommitToCharArray c junk data = None \<longleftrightarrow> ?n < length ?f"
    by (cases "?n < length ?f") (auto simp: CommitToCharArray_def Let_def)
  then show ?thesis using lba by (simp add: length_frags)
qed


section \<open>Properties\<close>

text \<open>Sizes for which the space estimate is right: 32760 bytes for blocks of 512 bytes, 2097144 bytes for
  blocks of 4096 bytes.\<close>

definition safe_size :: "nat \<Rightarrow> nat \<Rightarrow> bool" where
  "safe_size lba n \<longleftrightarrow> n \<le> ((lba + 1) div 8 + 1) * (lba - kTropoHeaderSize)"

lemma safe_size_nfrags:
  assumes "kTropoHeaderSize < lba" and "safe_size lba n"
  shows "kTropoHeaderSize * (nfrags lba n - 1) \<le> lba + 1"
proof -
  have "ceil_div n (lba - kTropoHeaderSize) \<le> (lba + 1) div 8 + 1"
    using assms by (simp add: ceil_div_le_iff safe_size_def)
  then have "nfrags lba n - 1 \<le> (lba + 1) div 8" by (simp add: nfrags_def)
  then have "8 * (nfrags lba n - 1) \<le> 8 * ((lba + 1) div 8)" by (rule mult_left_mono) simp
  also have "\<dots> \<le> lba + 1" by (rule times_div_less_eq_dividend)
  finally show ?thesis by (simp add: kTropoHeaderSize_def)
qed

text \<open>C26: A record of safe size that is committed to a character array, with whatever content the
  fresh memory has, is read back whole from any string the array is embedded in; the reader then
  stands right behind the array.\<close>

theorem commit_string_roundtrip:
  assumes "committer_wf c" and "safe_size (lba_size c) (length data)"
  shows "\<exists>arr. CommitToCharArray c junk data = Some (OK, arr) \<and>
           length arr = SpaceNeeded (lba_size c) (length data) \<and>
           SeekCommitReaderString c (string_reader (pre @ arr @ post) (length pre) sc) =
             Some (string_reader (pre @ arr @ post) (length pre + length arr) data, True, data)"
proof -
  have lba: "kTropoHeaderSize < lba_size c" using assms(1) by (simp add: committer_wf_def)
  note small = safe_size_nfrags [OF lba assms(2)]
  have "length (frags (lba_size c) True data) = SpaceNeeded (lba_size c) (length data)"
    using lba small by (simp add: length_frags SpaceNeeded_exact)
  then show ?thesis
    using CommitToCharArray_eq [OF assms(1) small, of junk] SeekCommitReaderString_frags [OF assms(1), of pre data post sc]
    by simp
qed

theorem commit_string_roundtrip_witness:
  "\<exists>arr. CommitToCharArray (TropoCommitter_init 512 1 False) 7 [1, 2, 3] = Some (OK, arr) \<and>
     length arr = 512 \<and>
     SeekCommitReaderString (TropoCommitter_init 512 1 False) (string_reader ([5] @ arr @ [6]) 1 []) =
       Some (string_reader ([5] @ arr @ [6]) 513 [1, 2, 3], True, [1, 2, 3])"
  using commit_string_roundtrip [of "TropoCommitter_init 512 1 False" "[1, 2, 3]" 7 "[5]" "[6]" "[]"]
    committer_wf_init [of 512 1 False]
  by (fastforce simp: kTropoHeaderSize_def safe_size_def TropoCommitter_init_def SpaceNeeded_def)



text \<open>C28: \<open>CommitToCharArray\<close> writes past its allocation exactly when the space estimate is below one
  block per fragment. This does happen: with blocks of 512 bytes, for every record of 32761 bytes.\<close>

theorem commit_overflow:
  assumes "committer_wf c"
  shows "(CommitToCharArray c junk data = None \<longleftrightarrow>
          SpaceNeeded (lba_size c) (length data) < nfrags (lba_size c) (length data) * lba_size c) \<and>
         CommitToCharArray (TropoCommitter_init 512 readers keep) junk (replicate 32761 x) = None"
  using CommitToCharArray_None [OF assms, of junk data]
    CommitToCharArray_None [OF committer_wf_init [of 512 readers keep], of junk "replicate 32761 x"]
  by (simp add: kTropoHeaderSize_def TropoCommitter_init_def SpaceNeeded_def nfrags_def ceil_div_def)

theorem commit_overflow_witness:
  "CommitToCharArray (TropoCommitter_init 512 1 False) 0 (replicate 32761 0) = None"
  using commit_overflow [of "TropoCommitter_init 512 1 False" 0 "[]" 1 False 0] committer_wf_init [of 512 1 False]
  by (simp add: kTropoHeaderSize_def)

text \<open>C29: A committer that does not keep its buffer (the one of the write-ahead log) reports the status
  of freeing the buffer, not that of the append: a failed append is reported as success.\<close>

theorem commit_masks_append_error:
  assumes "committer_wf c" and "buffer_laws B" and "safe_size (lba_size c) (length data)"
    and "fst (buf_Realloc B (write_buffer c) (SpaceNeeded (lba_size c) (length data))) = SZD_Success"
    and "\<not> keep_buffer c" and "\<And>b. fst (buf_Free B b) = SZD_Success"
    and "\<And>x. szd_Append L l x = (SZD_IOError, 0, l)"
  shows "\<exists>c'. Commit L B c l data = Some (OK, 0, c', l)"
proof -
  have lba: "kTropoHeaderSize < lba_size c" using assms(1) by (simp add: committer_wf_def)
  from Commit_ok [OF assms(1,2) safe_size_nfrags [OF lba assms(3)] assms(4,7)] assms(5,6)
  show ?thesis by (auto simp: FromStatus_def)
qed

theorem commit_masks_append_error_witness:
  "\<exists>c'. Commit ((mem_log 512 512)\<lparr>szd_Append := \<lambda>l x. (SZD_IOError, 0, l)\<rparr>) mem_buffer
          (TropoCommitter_init 512 1 False) [] [1] = Some (OK, 0, c', [])"
  using commit_masks_append_error [of "TropoCommitter_init 512 1 False" mem_buffer "[1]"
      "(mem_log 512 512)\<lparr>szd_Append := \<lambda>l x. (SZD_IOError, 0, l)\<rparr>" "[]"]
    committer_wf_init [of 512 1 False] buffer_laws_mem
  by (simp add: kTropoHeaderSize_def TropoCommitter_init_def safe_size_def)


end
