(* ===== verification/Config.thy ===== *)
theory Config
  imports Prelude
begin

text \<open>
  The compile-time configuration of \<open>tropodb_config_default.h\<close> (namespace \<open>TropoDBConfig\<close>), as far as the
  modelled components read it. Components take what they need of it as arguments, so that theorems
  hold for every configuration; the constants are used where a theorem is about the default one.
\<close>

definition manifest_zones :: nat where "manifest_zones = 4"
definition zones_foreach_wal :: nat where "zones_foreach_wal = 4"
definition wal_allow_buffering :: bool where "wal_allow_buffering = True"
definition wal_buffered_pages :: nat where "wal_buffered_pages = 1"
definition wal_allow_group_commit :: bool where "wal_allow_group_commit = True"
definition wal_count :: nat where "wal_count = 40"
definition wal_unordered :: bool where "wal_unordered = True"
definition wal_iodepth :: nat where "wal_iodepth = 4"
definition level_count :: nat where "level_count = 6"
definition L0_zones :: nat where "L0_zones = 100"
definition lower_concurrency :: nat where "lower_concurrency = 1"
definition wal_manager_zone_count :: nat where "wal_manager_zone_count = wal_count div lower_concurrency"
definition L0_slow_down :: nat where "L0_slow_down = 80"
definition number_of_concurrent_L0_readers :: nat where "number_of_concurrent_L0_readers = 4"
definition number_of_concurrent_LN_readers :: nat where "number_of_concurrent_LN_readers = 4"
definition min_ss_zone_count :: nat where "min_ss_zone_count = 5"
definition max_bytes_sstable_l0 :: nat where "max_bytes_sstable_l0 = 1024 * 1024 * 512"
definition max_lbas_compaction_l0 :: nat where "max_lbas_compaction_l0 = 2097152 * 12"
definition compaction_max_grandparents_overlapping_tables :: nat where
  "compaction_max_grandparents_overlapping_tables = 10"
definition min_zone :: nat where "min_zone = 0"
definition max_zone :: nat where "max_zone = 0"
definition use_sstable_encoding :: bool where "use_sstable_encoding = True"
definition max_sstable_encoding :: nat where "max_sstable_encoding = 16"

text \<open>\<open>(uint64_t)(1073741824. * 2. * 0.95)\<close>: the double product is rounded towards zero.\<close>

definition max_bytes_sstable :: nat where "max_bytes_sstable = 1073741824 * 2 * 95 div 100"

text \<open>Placeholder for strings that are not set yet.\<close>

definition deadbeef :: bytes where "deadbeef = [0xaf, 0xeb, 0xad, 0xde]"

end
