(* ===== verification/WriteBatch.thy ===== *)
theory WriteBatch
  imports InternalKey
begin

text \<open>
  Write batches (\<open>db/write_batch.cc\<close>): the serialised form (an eight-byte sequence number, a four-byte
  count, and tagged records), the operations TropoDB uses on it, and the record parser and
  iterator with which a batch is applied to a handler. A batch is the string \<open>rep_\<close>. The content
  flags and the per-entry protection information of the class are not modelled, they do not change
  \<open>rep_\<close>; batches have no size limit (\<open>max_bytes_\<close> zero, the default), so that a save point is never
  rolled back to.
\<close>

section \<open>The representation\<close>

definition kHeader :: nat where
  "kHeader = 12"

definition WriteBatch_init :: bytes where
  "WriteBatch_init = replicate kHeader 0"

definition wb_Count :: "bytes \<Rightarrow> u32 option" where
  "wb_Count rep = DecodeFixed32 (drop 8 rep)"

definition wb_SetCount :: "bytes \<Rightarrow> u32 \<Rightarrow> bytes option" where
  "wb_SetCount rep n = write_range rep 8 (EncodeFixed32 n)"

definition wb_Sequence :: "bytes \<Rightarrow> u64 option" where
  "wb_Sequence rep = DecodeFixed64 rep"

definition wb_SetSequence :: "bytes \<Rightarrow> u64 \<Rightarrow> bytes option" where
  "wb_SetSequence rep seq = write_range rep 0 (EncodeFixed64 seq)"

text \<open>\<open>SetContents\<close> asserts that the contents have a header.\<close>

definition wb_SetContents :: "bytes \<Rightarrow> status \<times> bytes" where
  "wb_SetContents contents = (OK, contents)"

definition kTypeLogData :: u8 where "kTypeLogData = 0x3"
definition kTypeColumnFamilyDeletion :: u8 where "kTypeColumnFamilyDeletion = 0x4"
definition kTypeColumnFamilyValue :: u8 where "kTypeColumnFamilyValue = 0x5"
definition kTypeColumnFamilyMerge :: u8 where "kTypeColumnFamilyMerge = 0x6"
definition kTypeColumnFamilySingleDeletion :: u8 where "kTypeColumnFamilySingleDeletion = 0x8"
definition kTypeBeginPrepareXID :: u8 where "kTypeBeginPrepareXID = 0x9"
definition kTypeEndPrepareXID :: u8 where "kTypeEndPrepareXID = 0xA"
definition kTypeCommitXID :: u8 where "kTypeCommitXID = 0xB"
definition kTypeRollbackXID :: u8 where "kTypeRollbackXID = 0xC"
definition kTypeNoop :: u8 where "kTypeNoop = 0xD"
definition kTypeColumnFamilyRangeDeletion :: u8 where "kTypeColumnFamilyRangeDeletion = 0xE"
definition kTypeColumnFamilyBlobIndex :: u8 where "kTypeColumnFamilyBlobIndex = 0x10"
definition kTypeBeginPersistedPrepareXID :: u8 where "kTypeBeginPersistedPrepareXID = 0x12"
definition kTypeBeginUnprepareXID :: u8 where "kTypeBeginUnprepareXID = 0x13"
definition kTypeCommitXIDAndTimestamp :: u8 where "kTypeCommitXIDAndTimestamp = 0x15"

lemmas wb_type_defs = value_type_defs kTypeLogData_def kTypeColumnFamilyDeletion_def
  kTypeColumnFamilyValue_def kTypeColumnFamilyMerge_def kTypeColumnFamilySingleDeletion_def
  kTypeBeginPrepareXID_def kTypeEndPrepareXID_def kTypeCommitXID_def kTypeRollbackXID_def
  kTypeNoop_def kTypeColumnFamilyRangeDeletion_def kTypeColumnFamilyBlobIndex_def
  kTypeBeginPersistedPrepareXID_def kTypeBeginUnprepareXID_def kTypeCommitXIDAndTimestamp_def

definition wb_Put :: "bytes \<Rightarrow> u32 \<Rightarrow> bytes \<Rightarrow> bytes \<Rightarrow> (status \<times> bytes) option" where
  "wb_Put rep cf key value =
     (if length key > 2 ^ 32 - 1 then Some (InvalidArgument, rep)
      else if length value > 2 ^ 32 - 1 then Some (InvalidArgument, rep)
      else do {
        n \<leftarrow> wb_Count rep;
        rep \<leftarrow> wb_SetCount rep (n + 1);
        let rep = (if cf = 0 then rep @ [kTypeValue] else PutVarint32 (rep @ [kTypeColumnFamilyValue]) cf);
        let rep = PutLengthPrefixedSlice rep key;
        let rep = PutLengthPrefixedSlice rep value;
        Some (OK, rep)
      })"

definition wb_Delete :: "bytes \<Rightarrow> u32 \<Rightarrow> bytes \<Rightarrow> (status \<times> bytes) option" where
  "wb_Delete rep cf key = do {
     n \<leftarrow> wb_Count rep;
     rep \<leftarrow> wb_SetCount rep (n + 1);
     let rep = (if cf = 0 then rep @ [kTypeDeletion] else PutVarint32 (rep @ [kTypeColumnFamilyDeletion]) cf);
     let rep = PutLengthPrefixedSlice rep key;
     Some (OK, rep)
   }"

text \<open>\<open>WriteBatchInternal::Append\<close> with \<open>wal_only\<close> false, as TropoDB calls it.\<close>

definition wb_Append :: "bytes \<Rightarrow> bytes \<Rightarrow> (status \<times> bytes) option" where
  "wb_Append dst src = do {
     src_count \<leftarrow> wb_Count src;
     dst_count \<leftarrow> wb_Count dst;
     dst \<leftarrow> wb_SetCount dst (dst_count + src_count);
     Some (OK, dst @ drop kHeader src)
   }"

section \<open>Parsing records\<close>

record wb_record =
  rec_tag :: u8
  rec_cf :: u32
  rec_key :: bytes
  rec_value :: bytes
  rec_blob :: bytes
  rec_xid :: bytes

text \<open>\<open>ReadRecordFromWriteBatch\<close>: \<open>None\<close> is the status \<open>Corruption\<close>; the fields a record does not set keep
  the values of \<open>r\<close>, the caller's variables.\<close>

definition read_cf :: "bytes \<Rightarrow> wb_record \<Rightarrow> (wb_record \<times> bytes) option" where
  "read_cf input r = map_option (\<lambda>(cf, input). (r\<lparr>rec_cf := cf\<rparr>, input)) (GetVarint32 input)"

definition read_key :: "bytes \<Rightarrow> wb_record \<Rightarrow> (wb_record \<times> bytes) option" where
  "read_key input r = map_option (\<lambda>(k, input). (r\<lparr>rec_key := k\<rparr>, input)) (GetLengthPrefixedSlice input)"

definition read_value :: "bytes \<Rightarrow> wb_record \<Rightarrow> (wb_record \<times> bytes) option" where
  "read_value input r = map_option (\<lambda>(v, input). (r\<lparr>rec_value := v\<rparr>, input)) (GetLengthPrefixedSlice input)"

definition read_blob :: "bytes \<Rightarrow> wb_record \<Rightarrow> (wb_record \<times> bytes) option" where
  "read_blob input r = map_option (\<lambda>(v, input). (r\<lparr>rec_blob := v\<rparr>, input)) (GetLengthPrefixedSlice input)"

definition read_xid :: "bytes \<Rightarrow> wb_record \<Rightarrow> (wb_record \<times> bytes) option" where
  "read_xid input r = map_option (\<lambda>(v, input). (r\<lparr>rec_xid := v\<rparr>, input)) (GetLengthPrefixedSlice input)"

definition read_key_value :: "bytes \<Rightarrow> wb_record \<Rightarrow> (wb_record \<times> bytes) option" where
  "read_key_value input r = do { (r, input) \<leftarrow> read_key input r; read_value input r }"

definition ReadRecordFromWriteBatch :: "bytes \<Rightarrow> wb_record \<Rightarrow> (wb_record \<times> bytes) option" where
  "ReadRecordFromWriteBatch input r =
     (case input of
        [] \<Rightarrow> None
      | tag # input \<Rightarrow>
          let r = r\<lparr>rec_tag := tag, rec_cf := 0\<rparr> in
          if tag = kTypeColumnFamilyValue then
            do { (r, input) \<leftarrow> read_cf input r; read_key_value input r }
          else if tag = kTypeValue then read_key_value input r
          else if tag = kTypeColumnFamilyDeletion \<or> tag = kTypeColumnFamilySingleDeletion then
            do { (r, input) \<leftarrow> read_cf input r; read_key input r }
          else if tag = kTypeDeletion \<or> tag = kTypeSingleDeletion then read_key input r
          else if tag = kTypeColumnFamilyRangeDeletion then
            do { (r, input) \<leftarrow> read_cf input r; read_key_value input r }
          else if tag = kTypeRangeDeletion then read_key_value input r
          else if tag = kTypeColumnFamilyMerge then
            do { (r, input) \<leftarrow> read_cf input r; read_key_value input r }
          else if tag = kTypeMerge then read_key_value input r
          else if tag = kTypeColumnFamilyBlobIndex then
            do { (r, input) \<leftarrow> read_cf input r; read_key_value input r }
          else if tag = kTypeBlobIndex then read_key_value input r
          else if tag = kTypeLogData then read_blob input r
          else if tag = kTypeNoop \<or> tag = kTypeBeginPrepareXID \<or> tag = kTypeBeginPersistedPrepareXID \<or>
                  tag = kTypeBeginUnprepareXID then Some (r, input)
          else if tag = kTypeEndPrepareXID then read_xid input r
          else if tag = kTypeCommitXIDAndTimestamp then
            do { (r, input) \<leftarrow> read_key input r; read_xid input r }
          else if tag = kTypeCommitXID then read_xid input r
          else if tag = kTypeRollbackXID then read_xid input r
          else None)"

section \<open>Iterating\<close>

text \<open>The calls a handler receives.\<close>

datatype handler_call =
    PutCF u32 bytes bytes
  | DeleteCF u32 bytes
  | SingleDeleteCF u32 bytes
  | DeleteRangeCF u32 bytes bytes
  | MergeCF u32 bytes bytes
  | PutBlobIndexCF u32 bytes bytes
  | LogData bytes
  | MarkBeginPrepare bool
  | MarkEndPrepare bytes
  | MarkCommit bytes
  | MarkCommitWithTimestamp bytes bytes
  | MarkRollback bytes
  | MarkNoop bool

text \<open>A handler: its callbacks over a state, and its two policy flags.\<close>

record 'h handler =
  h_Continue :: "'h \<Rightarrow> bool"
  h_call :: "'h \<Rightarrow> handler_call \<Rightarrow> status \<times> 'h"
  h_WriteAfterCommit :: bool
  h_WriteBeforePrepare :: bool

text \<open>The switch on the tag: the status, the handler state, and the new values of \<open>empty_batch\<close> and
  \<open>found\<close>. \<open>None\<close> is the default case, an early return of \<open>Corruption\<close>.\<close>

definition iterate_dispatch ::
  "'h handler \<Rightarrow> 'h \<Rightarrow> wb_record \<Rightarrow> bool \<Rightarrow> u32 \<Rightarrow> (status \<times> 'h \<times> bool \<times> u32) option" where
  "iterate_dispatch H h r empty_batch found =
     (let tag = rec_tag r;
          counted = (\<lambda>call. let (s, h) = h_call H h call in
             if ok s then Some (s, h, False, found + 1) else Some (s, h, empty_batch, found));
          marked = (\<lambda>call e. let (s, h) = h_call H h call in Some (s, h, e, found))
      in
      if tag = kTypeColumnFamilyValue \<or> tag = kTypeValue then counted (PutCF (rec_cf r) (rec_key r) (rec_value r))
      else if tag = kTypeColumnFamilyDeletion \<or> tag = kTypeDeletion then counted (DeleteCF (rec_cf r) (rec_key r))
      else if tag = kTypeColumnFamilySingleDeletion \<or> tag = kTypeSingleDeletion then
        counted (SingleDeleteCF (rec_cf r) (rec_key r))
      else if tag = kTypeColumnFamilyRangeDeletion \<or> tag = kTypeRangeDeletion then
        counted (DeleteRangeCF (rec_cf r) (rec_key r) (rec_value r))
      else if tag = kTypeColumnFamilyMerge \<or> tag = kTypeMerge then
        counted (MergeCF (rec_cf r) (rec_key r) (rec_value r))
      else if tag = kTypeColumnFamilyBlobIndex \<or> tag = kTypeBlobIndex then
        (let (s, h) = h_call H h (PutBlobIndexCF (rec_cf r) (rec_key r) (rec_value r)) in
         Some (s, h, empty_batch, if ok s then found + 1 else found))
      else if tag = kTypeLogData then
        (let (_, h) = h_call H h (LogData (rec_blob r)) in Some (OK, h, False, found))
      else if tag = kTypeBeginPrepareXID then
        (let (s, h) = h_call H h (MarkBeginPrepare False);
             s = (if \<not> h_WriteAfterCommit H then NotSupported else s);
             s = (if h_WriteBeforePrepare H then NotSupported else s)
         in Some (s, h, False, found))
      else if tag = kTypeBeginPersistedPrepareXID then
        (let (s, h) = h_call H h (MarkBeginPrepare False);
             s = (if h_WriteAfterCommit H then NotSupported else s)
         in Some (s, h, False, found))
      else if tag = kTypeBeginUnprepareXID then
        (let (s, h) = h_call H h (MarkBeginPrepare True);
             s = (if h_WriteAfterCommit H then NotSupported else s);
             s = (if \<not> h_WriteBeforePrepare H then NotSupported else s)
         in Some (s, h, False, found))
      else if tag = kTypeEndPrepareXID then marked (MarkEndPrepare (rec_xid r)) True
      else if tag = kTypeCommitXID then marked (MarkCommit (rec_xid r)) True
      else if tag = kTypeCommitXIDAndTimestamp then
        (let (s, h) = h_call H h (MarkCommitWithTimestamp (rec_xid r) (rec_key r)) in
         Some (s, h, if ok s then True else empty_batch, found))
      else if tag = kTypeRollbackXID then marked (MarkRollback (rec_xid r)) True
      else if tag = kTypeNoop then marked (MarkNoop empty_batch) True
      else None)"

lemma ReadRecord_shrinks:
  "ReadRecordFromWriteBatch input r = Some (r', input') \<Longrightarrow> length input' < length input"
  by (auto simp: ReadRecordFromWriteBatch_def read_cf_def read_key_def read_value_def read_blob_def
      read_xid_def read_key_value_def Let_def split: list.splits if_splits Option.bind_splits
      dest!: slice.get_shrinks varint32.get_shrinks)

text \<open>The loop of \<open>Iterate\<close>. \<open>Inl\<close> is an early return; \<open>Inr\<close> is what the code after the loop uses: the
  status, the handler state, \<open>found\<close> and \<open>handler_continue\<close>.\<close>

function iterate_loop ::
  "'h handler \<Rightarrow> 'h \<Rightarrow> bytes \<Rightarrow> wb_record \<Rightarrow> status \<Rightarrow> bool \<Rightarrow> bool \<Rightarrow> u32 \<Rightarrow>
   (status \<times> 'h) + (status \<times> 'h \<times> u32 \<times> bool)" where
  "iterate_loop H h input r s last_was_try_again empty_batch found =
     (if (ok s \<and> input \<noteq> []) \<or> s = TryAgain then
        if \<not> h_Continue H h then Inr (s, h, found, False)
        else if s \<noteq> TryAgain then
          (case ReadRecordFromWriteBatch input (r\<lparr>rec_tag := 0, rec_cf := 0\<rparr>) of
             None \<Rightarrow> Inl (Corruption, h)
           | Some (r, input) \<Rightarrow>
               (case iterate_dispatch H h r empty_batch found of
                  None \<Rightarrow> Inl (Corruption, h)
                | Some (s, h, empty_batch, found) \<Rightarrow> iterate_loop H h input r s False empty_batch found))
        else if last_was_try_again then Inl (Corruption, h)
        else
          (case iterate_dispatch H h r empty_batch found of
             None \<Rightarrow> Inl (Corruption, h)
           | Some (s, h, empty_batch, found) \<Rightarrow> iterate_loop H h input r s True empty_batch found)
      else Inr (s, h, found, True))"
  by pat_completeness auto
termination
  by (relation "measure (\<lambda>(H, h, input, r, s, l, e, f).
       2 * length input + (if s = TryAgain \<and> \<not> l then 1 else 0))")
    (auto dest!: ReadRecord_shrinks)

declare iterate_loop.simps [simp del]

definition wb_null :: wb_record where
  "wb_null = \<lparr>rec_tag = 0, rec_cf = 0, rec_key = [], rec_value = [], rec_blob = [], rec_xid = []\<rparr>"

text \<open>\<open>WriteBatchInternal::Iterate\<close> on a range, and \<open>WriteBatch::Iterate\<close> on the whole batch.\<close>

definition wb_Iterate_range :: "'h handler \<Rightarrow> bytes \<Rightarrow> 'h \<Rightarrow> nat \<Rightarrow> nat \<Rightarrow> (status \<times> 'h) option" where
  "wb_Iterate_range H rep h begin end' =
     (if begin > length rep \<or> end' > length rep \<or> end' < begin then Some (Corruption, h)
      else
        let input = take (end' - begin) (drop begin rep);
            whole_batch = (begin = kHeader \<and> end' = length rep)
        in case iterate_loop H h input wb_null OK False True 0 of
             Inl (s, h) \<Rightarrow> Some (s, h)
           | Inr (s, h, found, handler_continue) \<Rightarrow>
               if \<not> ok s then Some (s, h)
               else if handler_continue \<and> whole_batch then
                 do { n \<leftarrow> wb_Count rep; if found \<noteq> n then Some (Corruption, h) else Some (OK, h) }
               else Some (OK, h))"

definition wb_Iterate :: "'h handler \<Rightarrow> bytes \<Rightarrow> 'h \<Rightarrow> (status \<times> 'h) option" where
  "wb_Iterate H rep h =
     (if length rep < kHeader then Some (Corruption, h)
      else wb_Iterate_range H rep h kHeader (length rep))"

section \<open>Batches as lists of operations\<close>

datatype batch_op = BPut u32 bytes bytes | BDelete u32 bytes

fun encode_op :: "batch_op \<Rightarrow> bytes" where
  "encode_op (BPut cf k v) =
     (if cf = 0 then [kTypeValue] else kTypeColumnFamilyValue # EncodeVarint32 cf) @
     PutLengthPrefixedSlice [] k @ PutLengthPrefixedSlice [] v"
| "encode_op (BDelete cf k) =
     (if cf = 0 then [kTypeDeletion] else kTypeColumnFamilyDeletion # EncodeVarint32 cf) @
     PutLengthPrefixedSlice [] k"

fun call_of :: "batch_op \<Rightarrow> handler_call" where
  "call_of (BPut cf k v) = PutCF cf k v"
| "call_of (BDelete cf k) = DeleteCF cf k"

fun valid_op :: "batch_op \<Rightarrow> bool" where
  "valid_op (BPut cf k v) \<longleftrightarrow> length k < 2 ^ 32 \<and> length v < 2 ^ 32"
| "valid_op (BDelete cf k) \<longleftrightarrow> length k < 2 ^ 32"

definition batch_rep :: "u64 \<Rightarrow> batch_op list \<Rightarrow> bytes" where
  "batch_rep seq ops =
     EncodeFixed64 seq @ EncodeFixed32 (word_of_nat (length ops)) @ concat (map encode_op ops)"

lemma WriteBatch_init_rep: "WriteBatch_init = batch_rep 0 []"
proof -
  have "le_bytes 8 (0 :: u64) = replicate 8 0" and "le_bytes 4 (0 :: u32) = replicate 4 0"
    by (simp_all add: numeral_eq_Suc)
  then show ?thesis
    by (simp add: WriteBatch_init_def batch_rep_def kHeader_def flip: replicate_add)
qed

lemma batch_rep_fields [simp]:
  "wb_Count (batch_rep seq ops) = Some (word_of_nat (length ops))"
  "wb_Sequence (batch_rep seq ops) = Some seq"
  "length (batch_rep seq ops) = kHeader + length (concat (map encode_op ops))"
  "drop kHeader (batch_rep seq ops) = concat (map encode_op ops)"
proof -
  show "wb_Count (batch_rep seq ops) = Some (word_of_nat (length ops))"
    using DecodeFixed_EncodeFixed(3) [of "word_of_nat (length ops)" "concat (map encode_op ops)"]
    by (simp add: wb_Count_def batch_rep_def)
  show "wb_Sequence (batch_rep seq ops) = Some seq"
    using DecodeFixed_EncodeFixed(4) [of seq]
    by (simp add: wb_Sequence_def batch_rep_def)
qed (simp_all add: batch_rep_def kHeader_def)

lemma wb_SetCount_rep:
  "wb_SetCount (batch_rep seq ops) n =
   Some (EncodeFixed64 seq @ EncodeFixed32 n @ concat (map encode_op ops))"
  by (simp add: wb_SetCount_def batch_rep_def write_range_def)

lemma wb_SetSequence_rep: "wb_SetSequence (batch_rep seq ops) seq' = Some (batch_rep seq' ops)"
  by (simp add: wb_SetSequence_def batch_rep_def write_range_def)

lemma batch_rep_snoc:
  "batch_rep seq (ops @ [op]) =
   EncodeFixed64 seq @ EncodeFixed32 (word_of_nat (length ops) + 1) @ concat (map encode_op ops) @ encode_op op"
  by (simp add: batch_rep_def add.commute)

lemmas slice_put_append = slice.put_appends [of "_ @ _"] slice.put_appends [of "PutVarint32 _ _"]

lemma wb_Put_rep:
  assumes "valid_op (BPut cf k v)"
  shows "wb_Put (batch_rep seq ops) cf k v = Some (OK, batch_rep seq (ops @ [BPut cf k v]))"
  using assms by (simp add: wb_Put_def wb_SetCount_rep slice_put_append batch_rep_snoc PutVarint32_def)

lemma wb_Delete_rep:
  "wb_Delete (batch_rep seq ops) cf k = Some (OK, batch_rep seq (ops @ [BDelete cf k]))"
  by (simp add: wb_Delete_def wb_SetCount_rep slice_put_append batch_rep_snoc PutVarint32_def)

lemma wb_Append_rep: "wb_Append (batch_rep s1 o1) (batch_rep s2 o2) = Some (OK, batch_rep s1 (o1 @ o2))"
  by (simp add: wb_Append_def wb_SetCount_rep) (simp add: batch_rep_def)

lemma ReadRecord_encode_op:
  assumes "valid_op op"
  shows "\<exists>r'. ReadRecordFromWriteBatch (encode_op op @ rest) r = Some (r', rest) \<and>
     iterate_dispatch H h r' e n =
       (let (s, h') = h_call H h (call_of op) in
        if ok s then Some (s, h', False, n + 1) else Some (s, h', e, n))"
  using assms
  by (cases op)
    (auto simp: ReadRecordFromWriteBatch_def read_cf_def read_key_def read_value_def read_key_value_def
      iterate_dispatch_def wb_type_defs GetVarint32_EncodeVarint32 slice.get_put Let_def)

text \<open>Iterating over encoded operations stops at the first one the handler rejects.\<close>

fun apply_ops :: "'h handler \<Rightarrow> 'h \<Rightarrow> batch_op list \<Rightarrow> status \<times> 'h" where
  "apply_ops H h [] = (OK, h)"
| "apply_ops H h (op # ops) =
     (let (s, h') = h_call H h (call_of op) in if ok s then apply_ops H h' ops else (s, h'))"

definition no_try_again :: "'h handler \<Rightarrow> bool" where
  "no_try_again H \<longleftrightarrow> (\<forall>h c. h_Continue H h \<and> fst (h_call H h c) \<noteq> TryAgain)"

lemma encode_op_nonempty: "encode_op op \<noteq> []"
  by (cases op) auto

lemma iterate_loop_ops:
  assumes "no_try_again H" and "\<forall>op\<in>set ops. valid_op op"
  shows "\<exists>found. iterate_loop H h (concat (map encode_op ops)) r OK l e n =
           Inr (fst (apply_ops H h ops), snd (apply_ops H h ops), found, True) \<and>
         (ok (fst (apply_ops H h ops)) \<longrightarrow> found = n + word_of_nat (length ops))"
  using assms(2)
proof (induction ops arbitrary: h r l e n)
  case Nil
  then show ?case by (subst iterate_loop.simps) simp
next
  case (Cons op ops)
  obtain s h' where c: "h_call H h (call_of op) = (s, h')" by force
  with assms(1) have s: "s \<noteq> TryAgain" by (metis fst_conv no_try_again_def)
  obtain r' where r: "ReadRecordFromWriteBatch (encode_op op @ concat (map encode_op ops)) (r\<lparr>rec_tag := 0, rec_cf := 0\<rparr>)
      = Some (r', concat (map encode_op ops))"
    and d: "iterate_dispatch H h r' e n = (if ok s then Some (s, h', False, n + 1) else Some (s, h', e, n))"
    using ReadRecord_encode_op [of op "concat (map encode_op ops)" "r\<lparr>rec_tag := 0, rec_cf := 0\<rparr>" H h e n]
      Cons.prems c by auto
  have k: "h_Continue H h" using assms(1) by (simp add: no_try_again_def)
  show ?case
  proof (cases "ok s")
    case True
    then have "s = OK" by (simp add: ok_iff)
    obtain found where "iterate_loop H h' (concat (map encode_op ops)) r' OK False False (n + 1) =
           Inr (fst (apply_ops H h' ops), snd (apply_ops H h' ops), found, True) \<and>
         (ok (fst (apply_ops H h' ops)) \<longrightarrow> found = n + 1 + word_of_nat (length ops))"
      using Cons by (metis list.set_intros(2))
    then show ?thesis
      using r d k c \<open>s = OK\<close> by (subst iterate_loop.simps) (simp add: encode_op_nonempty add.assoc add.commute)
  next
    case False
    have "iterate_loop H h' (concat (map encode_op ops)) r' s False e n = Inr (s, h', n, True)"
      using False s by (subst iterate_loop.simps) simp
    then show ?thesis
      using r d k c False by (subst iterate_loop.simps) (simp add: encode_op_nonempty)
  qed
qed

lemma wb_Iterate_rep:
  assumes "no_try_again H" and "\<forall>op\<in>set ops. valid_op op"
  shows "wb_Iterate H (batch_rep seq ops) h = Some (apply_ops H h ops)"
proof -
  obtain found where "iterate_loop H h (concat (map encode_op ops)) wb_null OK False True 0 =
           Inr (fst (apply_ops H h ops), snd (apply_ops H h ops), found, True)"
    and "ok (fst (apply_ops H h ops)) \<longrightarrow> found = word_of_nat (length ops)"
    using iterate_loop_ops [OF assms, of h wb_null False True 0] by auto
  then show ?thesis
    by (simp add: wb_Iterate_def wb_Iterate_range_def ok_iff) (metis prod.collapse)
qed

section \<open>Properties\<close>

text \<open>C39: Write batches round trip. Starting from the empty batch, \<open>Put\<close> and \<open>Delete\<close> add one operation,
  \<open>Append\<close> adds the operations of a second batch, the count is the number of operations (as a 32-bit
  number), and iterating hands the handler exactly the operations in order, up to the first one it
  rejects, and reports that one's status.\<close>

theorem write_batch_roundtrip:
  assumes "no_try_again H" and "\<forall>op\<in>set (o1 @ o2). valid_op op" and "valid_op (BPut cf k v)"
  shows "WriteBatch_init = batch_rep 0 [] \<and>
     wb_Put (batch_rep s1 o1) cf k v = Some (OK, batch_rep s1 (o1 @ [BPut cf k v])) \<and>
     wb_Delete (batch_rep s1 o1) cf k = Some (OK, batch_rep s1 (o1 @ [BDelete cf k])) \<and>
     wb_Append (batch_rep s1 o1) (batch_rep s2 o2) = Some (OK, batch_rep s1 (o1 @ o2)) \<and>
     wb_Count (batch_rep s1 (o1 @ o2)) = Some (word_of_nat (length (o1 @ o2))) \<and>
     wb_Iterate H (batch_rep s1 (o1 @ o2)) h = Some (apply_ops H h (o1 @ o2))"
  using wb_Put_rep [OF assms(3)] wb_Delete_rep wb_Append_rep wb_Iterate_rep [OF assms(1,2)] WriteBatch_init_rep
  by simp

text \<open>A handler that keeps the calls it receives.\<close>

definition log_handler :: "handler_call list handler" where
  "log_handler = \<lparr>h_Continue = \<lambda>_. True, h_call = \<lambda>h c. (OK, h @ [c]),
                  h_WriteAfterCommit = True, h_WriteBeforePrepare = False\<rparr>"

theorem write_batch_roundtrip_witness:
  "wb_Iterate log_handler (batch_rep 5 [BPut 0 [1] [2], BDelete 0 [3]]) [] =
     Some (OK, [PutCF 0 [1] [2], DeleteCF 0 [3]])"
  using write_batch_roundtrip [of log_handler "[BPut 0 [1] [2]]" "[BDelete 0 [3]]" 0 "[1]" "[2]" 5 0 "[]"]
  by (simp add: no_try_again_def log_handler_def)

end
