(* ===== verification/Wal.thy ===== *)
theory Wal
  imports Committer WriteBatch Config
begin

text \<open>
  \<open>TropoWAL\<close> (\<open>persistence/tropodb_wal.h\<close>, \<open>persistence/tropodb_wal.cc\<close>): the write-ahead log. Batches are
  appended either directly (\<open>sync\<close>) or through a heap buffer, alone or grouped into one commit, and
  replayed into a memtable at recovery. With \<open>unordered\<close> every entry carries a sequence number of its
  own, since the device may reorder asynchronous appends; replay sorts by it.

  The memtable (RocksDB's skip list) is a parameter: the function that applies a batch to it. The
  timing counters are not modelled. \<open>None\<close> is a memory access outside a buffer.
\<close>

section \<open>State\<close>

record 'l TropoWAL =
  wal_log :: 'l
  wal_committer :: TropoCommitter
  buffered :: bool
  buffsize :: nat
  buff :: bytes
  buff_pos :: nat
  group_commits :: bool
  unordered :: bool
  sequence_nr :: u32

definition TropoWAL_init :: "'l \<Rightarrow> nat \<Rightarrow> nat \<Rightarrow> bool \<Rightarrow> bool \<Rightarrow> bool \<Rightarrow> byte \<Rightarrow> 'l TropoWAL" where
  "TropoWAL_init l lba pages use_buffer group_commit allow_unordered junk =
     \<lparr>wal_log = l, wal_committer = TropoCommitter_init lba 1 False, buffered = use_buffer,
      buffsize = lba * pages, buff = (if use_buffer then replicate (lba * pages) junk else []),
      buff_pos = 0, group_commits = group_commit, unordered = allow_unordered, sequence_nr = 0\<rparr>"

text \<open>The literal \<open>"group"\<close> with its terminating zero, as \<open>sizeof\<close> and \<open>memcpy\<close> see it.\<close>

definition group_tag :: bytes where
  "group_tag = [0x67, 0x72, 0x6f, 0x75, 0x70, 0x00]"

definition wal_SpaceNeeded_size :: "'l TropoWAL \<Rightarrow> nat \<Rightarrow> nat" where
  "wal_SpaceNeeded_size w n = SpaceNeeded (lba_size (wal_committer w)) (n + buff_pos w + 2 * 8)"

definition wal_SpaceNeeded :: "'l TropoWAL \<Rightarrow> bytes \<Rightarrow> nat" where
  "wal_SpaceNeeded w data = SpaceNeeded (lba_size (wal_committer w)) (length data)"

definition wal_SpaceLeft :: "'l szd_log \<Rightarrow> 'l TropoWAL \<Rightarrow> bytes \<Rightarrow> bool" where
  "wal_SpaceLeft L w data = SpaceEnough L (wal_committer w) (wal_log w) (wal_SpaceNeeded w data)"

definition wal_SpaceLeft_size :: "'l szd_log \<Rightarrow> 'l TropoWAL \<Rightarrow> nat \<Rightarrow> bool" where
  "wal_SpaceLeft_size L w n = SpaceEnough L (wal_committer w) (wal_log w) (wal_SpaceNeeded_size w n)"

section \<open>Appending\<close>

text \<open>The encoders return the bytes, the size the caller will use of them, and the log. The
  regions the source fills with \<open>memcpy\<close> and \<open>EncodeFixed64\<close> are adjacent and cover the allocation.\<close>

definition LightEncodeAppend :: "'l TropoWAL \<Rightarrow> bytes \<Rightarrow> bytes \<times> nat \<times> 'l TropoWAL" where
  "LightEncodeAppend w data =
     (if unordered w then
        (group_tag @ EncodeFixed64 (word_of_nat (length data)) @ EncodeFixed64 (ucast (sequence_nr w)) @ data,
         length data + length group_tag + 2 * 8,
         w\<lparr>sequence_nr := sequence_nr w + 1\<rparr>)
      else
        (group_tag @ EncodeFixed64 (word_of_nat (length data)) @ data,
         length data + length group_tag + 8,
         w))"

definition EncodeAppend :: "'l TropoWAL \<Rightarrow> byte \<Rightarrow> bytes \<Rightarrow> (status \<times> bytes \<times> nat \<times> 'l TropoWAL) option" where
  "EncodeAppend w junk data = do {
     (s, out, w) \<leftarrow>
       (if unordered w then do {
          let buf = EncodeFixed64 (word_of_nat (length data)) @ EncodeFixed64 (ucast (sequence_nr w)) @ data;
          (s, out) \<leftarrow> CommitToCharArray (wal_committer w) junk buf;
          Some (s, out, w\<lparr>sequence_nr := sequence_nr w + 1\<rparr>)
        } else do {
          let buf = EncodeFixed64 (word_of_nat (length data)) @ data;
          (s, out) \<leftarrow> CommitToCharArray (wal_committer w) junk buf;
          Some (s, out, w)
        });
     Some (s, out, wal_SpaceNeeded w data, w)
   }"

definition DirectAppend :: "'l szd_log \<Rightarrow> 'l TropoWAL \<Rightarrow> bytes \<Rightarrow> status \<times> 'l TropoWAL" where
  "DirectAppend L w data =
     (let (s, l) = szd_AsyncAppend L (wal_log w) data in (FromStatus s, w\<lparr>wal_log := l\<rparr>))"

definition SubmitAppend :: "'l szd_log \<Rightarrow> 'l TropoWAL \<Rightarrow> bytes \<Rightarrow> status \<times> 'l TropoWAL" where
  "SubmitAppend L w data =
     (let (s, l) = szd_AsyncAppend L (wal_log w) data in (FromStatus s, w\<lparr>wal_log := l\<rparr>))"

definition BufferedFlush :: "'l szd_log \<Rightarrow> 'l TropoWAL \<Rightarrow> byte \<Rightarrow> bytes \<Rightarrow> (status \<times> 'l TropoWAL) option" where
  "BufferedFlush L w junk data =
     (if group_commits w then do {
        let space_needed = wal_SpaceNeeded w data;
        (s, out) \<leftarrow> CommitToCharArray (wal_committer w) junk data;
        if \<not> ok s then Some (s, w)
        else do { chunk \<leftarrow> read_range out 0 space_needed; Some (SubmitAppend L w chunk) }
      } else Some (SubmitAppend L w data))"

definition DataSync :: "'l szd_log \<Rightarrow> 'l TropoWAL \<Rightarrow> byte \<Rightarrow> (status \<times> 'l TropoWAL) option" where
  "DataSync L w junk =
     (if buffered w \<and> buff_pos w \<noteq> 0 then do {
        data \<leftarrow> read_range (buff w) 0 (buff_pos w);
        (s, w) \<leftarrow> BufferedFlush L w junk data;
        Some (s, w\<lparr>buff_pos := 0\<rparr>)
      } else Some (OK, w))"

definition wal_Sync :: "'l szd_log \<Rightarrow> 'l TropoWAL \<Rightarrow> byte \<Rightarrow> (status \<times> 'l TropoWAL) option" where
  "wal_Sync L w junk = do {
     (s, w) \<leftarrow> DataSync L w junk;
     if \<not> ok s then Some (s, w)
     else let (s, l) = szd_Sync L (wal_log w) in Some (FromStatus s, w\<lparr>wal_log := l\<rparr>)
   }"

text \<open>\<open>memcpy\<close> into the heap buffer.\<close>

definition buffer_copy :: "'l TropoWAL \<Rightarrow> bytes \<Rightarrow> 'l TropoWAL option" where
  "buffer_copy w data = do {
     b \<leftarrow> write_range (buff w) (buff_pos w) data;
     Some (w\<lparr>buff := b, buff_pos := buff_pos w + length data\<rparr>)
   }"

definition BufferedAppend :: "'l szd_log \<Rightarrow> 'l TropoWAL \<Rightarrow> byte \<Rightarrow> bytes \<Rightarrow> (status \<times> 'l TropoWAL) option" where
  "BufferedAppend L w junk data = do {
     let sizeleft = usub64 (buffsize w) (buff_pos w);
     let sizeleft = (if group_commits w then usub64 sizeleft 1 else sizeleft);
     let sizeneeded = length data;
     let sizeimpact = (if group_commits w then SpaceNeeded (lba_size (wal_committer w)) (buff_pos w + sizeneeded)
                       else sizeneeded);
     if sizeimpact < sizeleft then do { w \<leftarrow> buffer_copy w data; Some (OK, w) }
     else do {
       (s, w, sizeleft) \<leftarrow>
         (if buff_pos w \<noteq> 0 then do {
            (s, w) \<leftarrow> DataSync L w junk;
            Some (s, w, usub64 (buffsize w) (buff_pos w))
          } else Some (OK, w, sizeleft));
       if \<not> ok s then Some (s, w)
       else if sizeimpact < sizeleft then do { w \<leftarrow> buffer_copy w data; Some (OK, w) }
       else BufferedFlush L w junk data
     }
   }"

definition wal_Append :: "'l szd_log \<Rightarrow> 'l TropoWAL \<Rightarrow> byte \<Rightarrow> bytes \<Rightarrow> bool \<Rightarrow> (status \<times> 'l TropoWAL) option" where
  "wal_Append L w junk data sync = do {
     (s, out, space_needed, w) \<leftarrow>
       (if sync \<or> \<not> group_commits w then EncodeAppend w junk data
        else let (out, n, w) = LightEncodeAppend w data in Some (OK, out, n, w));
     if \<not> ok s then Some (s, w)
     else do {
       rec \<leftarrow> read_range out 0 space_needed;
       if sync then Some (DirectAppend L w rec)
       else if buffered w then BufferedAppend L w junk rec
       else Some (SubmitAppend L w rec)
     }
   }"

section \<open>Replaying\<close>

text \<open>A seek that finds a record moves the reader forward.\<close>

lemma SeekString_loop_step:
  assumes "SeekString_loop lba r b = Some (r', True, record)"
  shows "str_ptr r < str_end r \<and>
    (\<exists>a>0. str_ptr r' = str_ptr r + a \<and> str_end r' = str_end r \<or>
      (\<exists>r1 b1. str_ptr r1 = str_ptr r + a \<and> str_end r1 = str_end r \<and>
               SeekString_loop lba r1 b1 = Some (r', True, record)))"
proof (cases "lba = 0 \<or> \<not> (str_ptr r < str_end r \<and> str_start r \<le> str_ptr r)")
  case True
  with assms show ?thesis by (subst (asm) SeekString_loop.simps) (auto split: if_splits)
next
  case False
  let ?h = "drop (str_ptr r) (str_in r)"
  let ?t = "if str_end r - str_ptr r > lba then lba else str_end r - str_ptr r"
  obtain t n where p: "parse_fragment ?h ?t = Some (t, n)"
    using assms False by (subst (asm) SeekString_loop.simps) (auto simp: Let_def split: option.splits)
  let ?a = "((n + kTropoHeaderSize + lba - 1) div lba) * lba"
  let ?r = "r\<lparr>str_ptr := str_ptr r + ?a\<rparr>" and ?body = "take n (drop kTropoHeaderSize ?h)"
  have a: "0 < ?a" using False by (intro advance_pos) auto
  have "SeekString_loop lba r b =
     (case t of
        kFullType \<Rightarrow> Some (?r\<lparr>str_scratch := ?body\<rparr>, True, ?body)
      | kFirstType \<Rightarrow> SeekString_loop lba (?r\<lparr>str_scratch := ?body\<rparr>) True
      | kMiddleType \<Rightarrow>
          if \<not> b then SeekString_loop lba ?r b
          else SeekString_loop lba (?r\<lparr>str_scratch := str_scratch ?r @ ?body\<rparr>) b
      | kLastType \<Rightarrow>
          if \<not> b then SeekString_loop lba ?r b
          else Some (?r\<lparr>str_scratch := str_scratch ?r @ ?body\<rparr>, True, str_scratch ?r @ ?body)
      | kInvalid \<Rightarrow> Some (?r\<lparr>str_scratch := []\<rparr>, False, []))"
    unfolding SeekString_loop.simps [of lba r b] using False
    by (simp only: if_True if_False simp_thms de_Morgan_disj Let_def p option.case prod.case)
  with assms False a show ?thesis
    by (cases t) (auto split: if_splits intro!: exI [of _ ?a])
qed

lemma SeekString_loop_progress:
  "SeekString_loop lba r b = Some (r', True, record) \<Longrightarrow>
   str_ptr r < str_ptr r' \<and> str_end r' = str_end r \<and> str_ptr r < str_end r"
proof (induction "str_end r - str_ptr r" arbitrary: r b rule: less_induct)
  case less
  from SeekString_loop_step [OF less.prems] obtain a where lt: "str_ptr r < str_end r" and a: "0 < a"
    and or: "str_ptr r' = str_ptr r + a \<and> str_end r' = str_end r \<or>
      (\<exists>r1 b1. str_ptr r1 = str_ptr r + a \<and> str_end r1 = str_end r \<and>
               SeekString_loop lba r1 b1 = Some (r', True, record))"
    by blast
  from or show ?case
  proof
    assume "\<exists>r1 b1. str_ptr r1 = str_ptr r + a \<and> str_end r1 = str_end r \<and>
               SeekString_loop lba r1 b1 = Some (r', True, record)"
    then obtain r1 b1 where r1: "str_ptr r1 = str_ptr r + a" "str_end r1 = str_end r"
      and eq: "SeekString_loop lba r1 b1 = Some (r', True, record)" by blast
    have "str_end r1 - str_ptr r1 < str_end r - str_ptr r" using r1 lt a by simp
    from less.hyps [OF this eq] show ?thesis using r1 lt by simp
  qed (use lt a in simp)
qed

lemma SeekCommitReaderString_progress:
  "SeekCommitReaderString c r = Some (r', True, record) \<Longrightarrow>
   str_ptr r < str_ptr r' \<and> str_end r' = str_end r \<and> str_ptr r < str_end r"
  by (auto simp: SeekCommitReaderString_def split: if_splits dest!: SeekString_loop_progress)

text \<open>The loop \<open>while (committer_.SeekCommitReaderString(reader, &record))\<close> of both replays, whose body
  does not touch the reader: the records it visits.\<close>

function read_records :: "TropoCommitter \<Rightarrow> TropoCommitReaderString \<Rightarrow> bytes list option" where
  "read_records c reader =
     (case SeekCommitReaderString c reader of
        None \<Rightarrow> None
      | Some (reader', found, record) \<Rightarrow>
          if found then map_option ((#) record) (read_records c reader') else Some [])"
  by pat_completeness auto
termination
  by (relation "measure (\<lambda>(c, r). str_end r - str_ptr r)")
    (auto dest!: SeekCommitReaderString_progress)

declare read_records.simps [simp del]

text \<open>The body of the loop of \<open>ReplayUnordered\<close> on one record: the status and the entries found, each
  with its sequence number. The \<open>do ... while (group_commits_)\<close> loop is the recursion.\<close>

function unordered_entries ::
  "bool \<Rightarrow> bytes \<Rightarrow> nat \<Rightarrow> status \<Rightarrow> (u64 \<times> bytes) list \<Rightarrow> (status \<times> (u64 \<times> bytes) list) option" where
  "unordered_entries grp record data_point s entries =
     (if grp \<and> (length record < data_point + length group_tag \<or>
                  take (length group_tag) (drop data_point record) \<noteq> group_tag)
      then Some (s, entries)
      else do {
        let data_point = data_point + length group_tag;
        n \<leftarrow> DecodeFixed64 (drop data_point record);
        seq_nr \<leftarrow> DecodeFixed64 (drop (data_point + 8) record);
        let data_size = unat n;
        if data_size > usub64 (usub64 (length record) (2 * 8)) data_point then Some (Corruption, entries)
        else do {
          dat \<leftarrow> read_range record (data_point + 2 * 8) data_size;
          let entries = entries @ [(seq_nr, dat)];
          let data_point = data_point + data_size + 2 * 8;
          if grp then unordered_entries grp record data_point s entries else Some (s, entries)
        }
      })"
  by pat_completeness auto
termination
  by (relation "measure (\<lambda>(g, record, p, s, e). length record - p)")
    (auto simp: group_tag_def DecodeFixed_eq dest!: read_range_SomeD split: if_splits)

declare unordered_entries.simps [simp del]

fun collect_entries ::
  "bool \<Rightarrow> bytes list \<Rightarrow> status \<Rightarrow> (u64 \<times> bytes) list \<Rightarrow> (status \<times> (u64 \<times> bytes) list) option" where
  "collect_entries grp [] s entries = Some (s, entries)"
| "collect_entries grp (record # records) s entries = do {
     (s, entries) \<leftarrow> unordered_entries grp record 0 s entries;
     collect_entries grp records s entries
   }"

text \<open>\<open>Sequence(&batch) + Count(&batch) - 1\<close>, and the update of \<open>*seq\<close>.\<close>

definition last_sequence :: "bytes \<Rightarrow> u64 option" where
  "last_sequence batch = do { q \<leftarrow> wb_Sequence batch; n \<leftarrow> wb_Count batch; Some (q + ucast n - 1) }"

fun apply_entries ::
  "('m \<Rightarrow> bytes \<Rightarrow> status \<times> 'm) \<Rightarrow> (u64 \<times> bytes) list \<Rightarrow> 'l TropoWAL \<Rightarrow> status \<Rightarrow> 'm \<Rightarrow> u64 \<Rightarrow>
   (status \<times> 'm \<times> u64 \<times> 'l TropoWAL) option" where
  "apply_entries memw [] w s mem seq = Some (s, mem, seq, w)"
| "apply_entries memw ((n, dat) # entries) w s mem seq =
     (let w = w\<lparr>sequence_nr := ucast n\<rparr>;
          (s, batch) = wb_SetContents dat
      in if \<not> ok s then Some (s, mem, seq, w)
         else let (s, mem) = memw mem batch in
           if \<not> ok s then Some (s, mem, seq, w)
           else do {
             last_seq \<leftarrow> last_sequence batch;
             apply_entries memw entries w s mem (if last_seq > seq then last_seq else seq)
           })"

text \<open>\<open>std::sort\<close> on the sequence numbers; entries with equal sequence numbers keep their order here,
  while \<open>std::sort\<close> may put them in any order.\<close>

definition ReplayUnordered ::
  "'l szd_log \<Rightarrow> ('m \<Rightarrow> bytes \<Rightarrow> status \<times> 'm) \<Rightarrow> 'l TropoWAL \<Rightarrow> 'm \<Rightarrow> u64 \<Rightarrow>
   (status \<times> 'm \<times> u64 \<times> 'l TropoWAL) option" where
  "ReplayUnordered L memw w mem seq =
     (if szd_Empty L (wal_log w) then Some (OK, mem, seq, w)
      else
        let (rs, commit_string) = szd_ReadAll L (wal_log w); s = FromStatus rs in
        if \<not> ok s then Some (s, mem, seq, w)
        else do {
          let (_, reader) = GetCommitReaderString deadbeef commit_string;
          records \<leftarrow> read_records (wal_committer w) reader;
          (s, entries) \<leftarrow> collect_entries (group_commits w) records s [];
          apply_entries memw (sort_key fst entries) w s mem seq
        })"

text \<open>The body of the loop of \<open>ReplayOrdered\<close> on one record; \<open>s\<close>, \<open>mem\<close> and \<open>seq\<close> are threaded through.\<close>

function ordered_entries ::
  "('m \<Rightarrow> bytes \<Rightarrow> status \<times> 'm) \<Rightarrow> bool \<Rightarrow> bytes \<Rightarrow> nat \<Rightarrow> status \<Rightarrow> 'm \<Rightarrow> u64 \<Rightarrow> (status \<times> 'm \<times> u64) option" where
  "ordered_entries memw grp record data_point s mem seq =
     (if grp \<and> (length record < data_point + length group_tag \<or>
                  take (length group_tag) (drop data_point record) \<noteq> group_tag)
      then Some (s, mem, seq)
      else do {
        let data_point = data_point + length group_tag;
        n \<leftarrow> DecodeFixed64 (drop data_point record);
        let data_size = unat n;
        if data_size > usub64 (usub64 (length record) 8) data_point then Some (Corruption, mem, seq)
        else do {
          contents \<leftarrow> read_range record (8 + data_point) data_size;
          let (s, batch) = wb_SetContents contents;
          if \<not> ok s then Some (s, mem, seq)
          else let (s, mem) = memw mem batch in
            if \<not> ok s then Some (s, mem, seq)
            else do {
              last_seq \<leftarrow> last_sequence batch;
              let seq = (if last_seq > seq then last_seq else seq);
              let data_point = data_point + data_size + 8;
              if grp then ordered_entries memw grp record data_point s mem seq else Some (s, mem, seq)
            }
        }
      })"
  by pat_completeness auto
termination
  by (relation "measure (\<lambda>(f, g, record, p, s, m, q). length record - p)")
    (auto simp: group_tag_def DecodeFixed_eq dest!: read_range_SomeD split: if_splits)

declare ordered_entries.simps [simp del]

fun ordered_records ::
  "('m \<Rightarrow> bytes \<Rightarrow> status \<times> 'm) \<Rightarrow> bool \<Rightarrow> bytes list \<Rightarrow> status \<Rightarrow> 'm \<Rightarrow> u64 \<Rightarrow> (status \<times> 'm \<times> u64) option" where
  "ordered_records memw grp [] s mem seq = Some (s, mem, seq)"
| "ordered_records memw grp (record # records) s mem seq = do {
     (s, mem, seq) \<leftarrow> ordered_entries memw grp record 0 s mem seq;
     ordered_records memw grp records s mem seq
   }"

definition ReplayOrdered ::
  "'l szd_log \<Rightarrow> ('m \<Rightarrow> bytes \<Rightarrow> status \<times> 'm) \<Rightarrow> 'l TropoWAL \<Rightarrow> 'm \<Rightarrow> u64 \<Rightarrow>
   (status \<times> 'm \<times> u64 \<times> 'l TropoWAL) option" where
  "ReplayOrdered L memw w mem seq =
     (if szd_Empty L (wal_log w) then Some (OK, mem, seq, w)
      else
        let (rs, commit_string) = szd_ReadAll L (wal_log w); s = FromStatus rs in
        if \<not> ok s then Some (s, mem, seq, w)
        else do {
          let (_, reader) = GetCommitReaderString deadbeef commit_string;
          records \<leftarrow> read_records (wal_committer w) reader;
          (s, mem, seq) \<leftarrow> ordered_records memw (group_commits w) records s mem seq;
          Some (s, mem, seq, w)
        })"

definition wal_Replay ::
  "'l szd_log \<Rightarrow> ('m \<Rightarrow> bytes \<Rightarrow> status \<times> 'm) \<Rightarrow> 'l TropoWAL \<Rightarrow> 'm \<Rightarrow> u64 \<Rightarrow>
   (status \<times> 'm \<times> u64 \<times> 'l TropoWAL) option" where
  "wal_Replay L memw w mem seq =
     (if szd_Empty L (wal_log w) then Some (OK, mem, seq, w)
      else if unordered w then ReplayUnordered L memw w mem seq
      else ReplayOrdered L memw w mem seq)"

section \<open>Reset, recovery and closing\<close>

definition wal_Reset :: "'l szd_log \<Rightarrow> 'l TropoWAL \<Rightarrow> status \<times> 'l TropoWAL" where
  "wal_Reset L w =
     (let (s, l) = szd_ResetAll L (wal_log w) in (FromStatus s, w\<lparr>wal_log := l, sequence_nr := 0\<rparr>))"

definition wal_Recover :: "'l szd_log \<Rightarrow> 'l TropoWAL \<Rightarrow> status \<times> 'l TropoWAL" where
  "wal_Recover L w =
     (let (s, l) = szd_RecoverPointers L (wal_log w) in (FromStatus s, w\<lparr>wal_log := l\<rparr>))"

definition wal_MarkInactive :: "'l szd_log \<Rightarrow> 'l TropoWAL \<Rightarrow> status \<times> 'l TropoWAL" where
  "wal_MarkInactive L w =
     (let (s, l) = szd_MarkInactive L (wal_log w) in (FromStatus s, w\<lparr>wal_log := l\<rparr>))"

definition wal_Close :: "'l szd_log \<Rightarrow> 'l TropoWAL \<Rightarrow> byte \<Rightarrow> (status \<times> 'l TropoWAL) option" where
  "wal_Close L w junk = do { (s, w) \<leftarrow> wal_Sync L w junk; Some (wal_MarkInactive L w) }"

section \<open>Reading committed records\<close>

lemma read_records_frags:
  assumes "committer_wf c"
  shows "read_records c (string_reader (pre @ concat (map (frags (lba_size c) True) rs)) (length pre) sc) = Some rs"
proof (induction rs arbitrary: pre sc)
  case Nil
  then show ?case
    by (subst read_records.simps) (simp add: SeekCommitReaderString_def string_reader_def)
next
  case (Cons r rs)
  let ?f = "frags (lba_size c) True"
  let ?rest = "concat (map ?f rs)"
  have "SeekCommitReaderString c (string_reader (pre @ ?f r @ ?rest) (length pre) sc) =
      Some (string_reader (pre @ ?f r @ ?rest) (length pre + length (?f r)) r, True, r)"
    using SeekCommitReaderString_frags [OF assms, of pre r ?rest sc] .
  moreover have "read_records c (string_reader ((pre @ ?f r) @ ?rest) (length (pre @ ?f r)) r) = Some rs"
    by (rule Cons.IH)
  ultimately show ?case
    by (subst read_records.simps) simp
qed

section \<open>Grouped entries\<close>

definition light_entry :: "u64 \<Rightarrow> bytes \<Rightarrow> bytes" where
  "light_entry q d = group_tag @ EncodeFixed64 (word_of_nat (length d)) @ EncodeFixed64 q @ d"

definition encode_group :: "(u64 \<times> bytes) list \<Rightarrow> bytes" where
  "encode_group es = concat (map (\<lambda>(q, d). light_entry q d) es)"

lemma encode_group_simps [simp]:
  "encode_group [] = []"
  "encode_group (e # es) = light_entry (fst e) (snd e) @ encode_group es"
  "encode_group (es @ es') = encode_group es @ encode_group es'"
  by (auto simp: encode_group_def split: prod.splits)

lemma length_light_entry [simp]: "length (light_entry q d) = 22 + length d"
  by (simp add: light_entry_def group_tag_def)

lemma unordered_entries_step:
  assumes "length d < 2 ^ 64"
  shows "unordered_entries True (pre @ light_entry q d @ post) (length pre) s acc =
         unordered_entries True (pre @ light_entry q d @ post) (length pre + 22 + length d) s (acc @ [(q, d)])"
proof -
  have n: "unat (word_of_nat (length d) :: u64) = length d"
    using assms by (simp add: unsigned_of_nat take_bit_nat_eq_self)
  have tag: "take (length group_tag) (drop (length pre) (pre @ light_entry q d @ post)) = group_tag"
    by (simp add: light_entry_def)
  have d1: "DecodeFixed64 (drop (length pre + length group_tag) (pre @ light_entry q d @ post)) =
      Some (word_of_nat (length d))"
    using DecodeFixed_EncodeFixed(4) [of "word_of_nat (length d)" "EncodeFixed64 q @ d @ post"]
    by (simp add: light_entry_def)
  have d2: "DecodeFixed64 (drop (length pre + length group_tag + 8) (pre @ light_entry q d @ post)) = Some q"
    using DecodeFixed_EncodeFixed(4) [of q "d @ post"] by (simp add: light_entry_def)
  have r: "read_range (pre @ light_entry q d @ post) (length pre + length group_tag + 16) (length d) = Some d"
    using read_range_append [of "pre @ group_tag @ EncodeFixed64 (word_of_nat (length d)) @ EncodeFixed64 q"
        "length pre + length group_tag + 16" d "length d" post]
    by (simp add: light_entry_def)
  have g: "length group_tag = 6" by (simp add: group_tag_def)
  show ?thesis
    by (subst unordered_entries.simps) (use n tag d1 d2 r g in \<open>simp add: Let_def ac_simps\<close>)
qed

lemma unordered_entries_group:
  assumes "\<forall>(q, d)\<in>set es. length d < 2 ^ 64"
  shows "unordered_entries True (pre @ encode_group es) (length pre) s acc = Some (s, acc @ es)"
  using assms
proof (induction es arbitrary: pre acc)
  case Nil
  show ?case by (subst unordered_entries.simps) (simp add: group_tag_def)
next
  case (Cons e es)
  obtain q d where e: "e = (q, d)" by force
  have "unordered_entries True (pre @ light_entry q d @ encode_group es) (length pre) s acc =
      unordered_entries True ((pre @ light_entry q d) @ encode_group es) (length (pre @ light_entry q d)) s (acc @ [(q, d)])"
    using unordered_entries_step [of d pre q "encode_group es" s acc] Cons.prems e by (simp add: add.assoc)
  also have "\<dots> = Some (s, acc @ e # es)"
    using Cons.IH [of "pre @ light_entry q d" "acc @ [(q, d)]"] Cons.prems e by simp
  finally show ?case by (simp add: e)
qed

lemma collect_entries_groups:
  assumes "\<forall>g\<in>set gs. \<forall>(q, d)\<in>set g. length d < 2 ^ 64"
  shows "collect_entries True (map encode_group gs) s acc = Some (s, acc @ concat gs)"
  using assms
proof (induction gs arbitrary: acc)
  case (Cons g gs)
  then show ?case using unordered_entries_group [of g "[]" s acc] by simp
qed simp

section \<open>Sorting restores the order of the appends\<close>

definition numbered :: "bytes list \<Rightarrow> (u64 \<times> bytes) list" where
  "numbered ds = zip (map word_of_nat [0..<length ds]) ds"

lemma numbered_snoc: "numbered (ds @ [d]) = numbered ds @ [(word_of_nat (length ds), d)]"
  by (simp add: numbered_def)

lemma numbered_keys: "map fst (numbered ds) = map word_of_nat [0..<length ds]"
  by (simp add: numbered_def)

lemma set_numbered: "(q, d) \<in> set (numbered ds) \<Longrightarrow> d \<in> set ds"
  by (auto simp: numbered_def dest: set_zip_rightD)

lemma word_of_nat_inj_u64: "i < 2 ^ 32 \<Longrightarrow> j < 2 ^ 32 \<Longrightarrow> (word_of_nat i :: u64) = word_of_nat j \<longleftrightarrow> i = j"
  by (auto simp: word_unat_eq_iff unsigned_of_nat take_bit_nat_eq_self)

lemma word_of_nat_le_u64: "i < 2 ^ 32 \<Longrightarrow> j < 2 ^ 32 \<Longrightarrow> (word_of_nat i :: u64) \<le> word_of_nat j \<longleftrightarrow> i \<le> j"
  by (auto simp: word_le_nat_alt unsigned_of_nat take_bit_nat_eq_self)

lemma sort_numbered:
  assumes "length ds \<le> 2 ^ 32" and "mset es = mset (numbered ds)"
  shows "sort_key fst es = numbered ds"
proof (rule properties_for_sort_key)
  have d: "distinct (map fst (numbered ds))"
    using assms(1) by (auto simp: numbered_keys distinct_map inj_on_def word_of_nat_inj_u64)
  show "mset (numbered ds) = mset es" using assms(2) by simp
  show "sorted (map fst (numbered ds))"
    using assms(1) by (auto simp: numbered_keys sorted_map sorted_wrt_iff_nth_less word_of_nat_le_u64)
  fix k
  assume "k \<in> set (numbered ds)"
  have one: "filter (\<lambda>x. fst k = fst x) xs = [k]" if "distinct (map fst xs)" "k \<in> set xs" for xs :: "(u64 \<times> bytes) list"
    using that by (induction xs) (auto simp: filter_empty_conv rev_image_eqI)
  have "distinct (map fst es)"
    using d assms(2) by (metis mset_eq_imp_distinct_iff mset_map)
  moreover have "k \<in> set es"
    using \<open>k \<in> set (numbered ds)\<close> assms(2) by (metis set_mset_mset)
  ultimately show "filter (\<lambda>x. fst k = fst x) (numbered ds) = filter (\<lambda>x. fst k = fst x) es"
    using one d \<open>k \<in> set (numbered ds)\<close> by simp
qed

section \<open>The log holds what was appended\<close>

text \<open>A buffered log with grouped commits whose buffer, when full, is a record of safe size.\<close>

definition wal_conf :: "'l TropoWAL \<Rightarrow> bool" where
  "wal_conf w \<longleftrightarrow> group_commits w \<and> unordered w \<and> buffered w \<and> committer_wf (wal_committer w) \<and>
     0 < buffsize w \<and> safe_size (lba_size (wal_committer w)) (buffsize w)"

definition wal_inv :: "('l \<Rightarrow> bytes list) \<Rightarrow> 'l TropoWAL \<Rightarrow> bytes list \<Rightarrow> bool" where
  "wal_inv chunks w ds \<longleftrightarrow>
     (\<exists>gs pend. concat gs @ pend = numbered ds \<and>
        chunks (wal_log w) = map (\<lambda>g. frags (lba_size (wal_committer w)) True (encode_group g)) gs \<and>
        take (buff_pos w) (buff w) = encode_group pend \<and> buff_pos w = length (encode_group pend)) \<and>
     sequence_nr w = word_of_nat (length ds) \<and> length (buff w) = buffsize w \<and> buff_pos w < buffsize w"

lemma wal_conf_updates [simp]:
  "wal_conf (w\<lparr>wal_log := l\<rparr>) = wal_conf w" "wal_conf (w\<lparr>buff_pos := p\<rparr>) = wal_conf w"
  "wal_conf (w\<lparr>buff := b\<rparr>) = wal_conf w" "wal_conf (w\<lparr>sequence_nr := q\<rparr>) = wal_conf w"
  by (simp_all add: wal_conf_def)

lemma wal_inv_init:
  assumes "chunks l = []" and "kTropoHeaderSize < lba" and "0 < pages"
  shows "wal_inv chunks (TropoWAL_init l lba pages True True True junk) []"
  using assms by (auto simp: wal_inv_def TropoWAL_init_def numbered_def kTropoHeaderSize_def)

lemma BufferedFlush_conf:
  assumes "wal_conf w" and "safe_size (lba_size (wal_committer w)) (length data)"
  shows "BufferedFlush L w junk data = Some (SubmitAppend L w (frags (lba_size (wal_committer w)) True data))"
proof -
  let ?lba = "lba_size (wal_committer w)"
  have wf: "committer_wf (wal_committer w)" and h: "kTropoHeaderSize < ?lba"
    using assms(1) by (auto simp: wal_conf_def committer_wf_def)
  note small = safe_size_nfrags [OF h assms(2)]
  have "wal_SpaceNeeded w data = length (frags ?lba True data)"
    by (simp add: wal_SpaceNeeded_def SpaceNeeded_exact [OF h small] length_frags [OF h])
  then show ?thesis
    using assms(1) by (simp add: BufferedFlush_def CommitToCharArray_eq [OF wf small] wal_conf_def read_range_def)
qed

lemma safe_size_mono: "safe_size lba n \<Longrightarrow> m \<le> n \<Longrightarrow> safe_size lba m"
  by (simp add: safe_size_def)

lemma DataSync_conf:
  assumes "wal_conf w" and "wal_inv chunks w ds"
  shows "\<exists>s w'. DataSync L w junk = Some (s, w') \<and> wal_conf w' \<and> wal_committer w' = wal_committer w \<and> buffsize w' = buffsize w \<and>
     (once_laws L chunks \<and> ok s \<longrightarrow> wal_inv chunks w' ds \<and> buff_pos w' = 0)"
proof (cases "buff_pos w = 0")
  case True
  then show ?thesis using assms by (simp add: DataSync_def)
next
  case False
  obtain gs pend where i: "concat gs @ pend = numbered ds"
      "chunks (wal_log w) = map (\<lambda>g. frags (lba_size (wal_committer w)) True (encode_group g)) gs"
      "take (buff_pos w) (buff w) = encode_group pend" "buff_pos w = length (encode_group pend)"
    and b: "length (buff w) = buffsize w" "buff_pos w < buffsize w" and q: "sequence_nr w = word_of_nat (length ds)"
    using assms(2) by (auto simp: wal_inv_def)
  have "safe_size (lba_size (wal_committer w)) (length (encode_group pend))"
    using assms(1) b i(4) by (auto simp: wal_conf_def intro: safe_size_mono)
  then have fl: "BufferedFlush L w junk (encode_group pend) =
      Some (SubmitAppend L w (frags (lba_size (wal_committer w)) True (encode_group pend)))"
    by (rule BufferedFlush_conf [OF assms(1)])
  obtain s l' where a: "szd_AsyncAppend L (wal_log w) (frags (lba_size (wal_committer w)) True (encode_group pend)) = (s, l')"
    by force
  have ds: "DataSync L w junk = Some (FromStatus s, w\<lparr>wal_log := l', buff_pos := 0\<rparr>)"
    using False assms(1) b i fl a
    by (simp add: DataSync_def wal_conf_def read_range_def SubmitAppend_def)
  have "wal_inv chunks (w\<lparr>wal_log := l', buff_pos := 0\<rparr>) ds" if "once_laws L chunks" "s = SZD_Success"
    unfolding wal_inv_def using that a i b q
    by (auto simp: once_laws_def intro!: exI [of _ "gs @ [pend]"] exI [of _ "[] :: (u64 \<times> bytes) list"])
  with ds assms(1) show ?thesis by auto
qed

lemma buffer_copy_inv:
  assumes "wal_inv chunks w ds" and "buff_pos w + 22 + length d < buffsize w"
  shows "\<exists>w'. buffer_copy (w\<lparr>sequence_nr := sequence_nr w + 1\<rparr>) (light_entry (word_of_nat (length ds)) d) = Some w' \<and>
     wal_inv chunks w' (ds @ [d]) \<and> wal_conf w' = wal_conf w"
proof -
  obtain gs pend where i: "concat gs @ pend = numbered ds"
      "chunks (wal_log w) = map (\<lambda>g. frags (lba_size (wal_committer w)) True (encode_group g)) gs"
      "take (buff_pos w) (buff w) = encode_group pend" "buff_pos w = length (encode_group pend)"
    and b: "length (buff w) = buffsize w" "buff_pos w < buffsize w" and q: "sequence_nr w = word_of_nat (length ds)"
    using assms(1) by (auto simp: wal_inv_def)
  let ?e = "light_entry (word_of_nat (length ds)) d" and ?w = "w\<lparr>sequence_nr := sequence_nr w + 1\<rparr>"
  let ?b = "encode_group pend @ ?e @ drop (buff_pos w + length ?e) (buff w)"
  have c: "buffer_copy ?w ?e = Some (?w\<lparr>buff := ?b, buff_pos := buff_pos w + length ?e\<rparr>)"
    using assms(2) b i(3) by (simp add: buffer_copy_def write_range_def)
  have "wal_inv chunks (?w\<lparr>buff := ?b, buff_pos := buff_pos w + length ?e\<rparr>) (ds @ [d])"
    unfolding wal_inv_def using i b q assms(2)
    by (auto simp: numbered_snoc intro!: exI [of _ gs] exI [of _ "pend @ [(word_of_nat (length ds), d)]"])
  with c show ?thesis by simp
qed

lemma encode_group_Nil: "encode_group es = [] \<longleftrightarrow> es = []"
  by (cases es) (auto simp: light_entry_def group_tag_def)

lemma wal_inv_flushed:
  assumes "wal_inv chunks w ds" and "buff_pos w = 0"
  obtains gs where "concat gs = numbered ds"
    "chunks (wal_log w) = map (\<lambda>g. frags (lba_size (wal_committer w)) True (encode_group g)) gs"
  using assms by (auto simp: wal_inv_def encode_group_Nil)

lemma SubmitAppend_inv:
  assumes "wal_inv chunks w ds" and "buff_pos w = 0" and "once_laws L chunks"
    and "SubmitAppend L (w\<lparr>sequence_nr := sequence_nr w + 1\<rparr>)
           (frags (lba_size (wal_committer w)) True (light_entry (word_of_nat (length ds)) d)) = (OK, w')"
  shows "wal_inv chunks w' (ds @ [d])"
proof -
  obtain gs where i: "concat gs = numbered ds"
      "chunks (wal_log w) = map (\<lambda>g. frags (lba_size (wal_committer w)) True (encode_group g)) gs"
    by (rule wal_inv_flushed [OF assms(1,2)])
  have b: "length (buff w) = buffsize w" "buff_pos w < buffsize w" and q: "sequence_nr w = word_of_nat (length ds)"
    using assms(1) by (auto simp: wal_inv_def)
  obtain l' where w': "w' = w\<lparr>sequence_nr := sequence_nr w + 1, wal_log := l'\<rparr>"
    and a: "szd_AsyncAppend L (wal_log w) (frags (lba_size (wal_committer w)) True (light_entry (word_of_nat (length ds)) d)) = (SZD_Success, l')"
    using assms(4) by (auto simp: SubmitAppend_def split: prod.splits)
  show ?thesis
    unfolding wal_inv_def w' using i b q assms(2,3) a
    by (auto simp: numbered_snoc once_laws_def
          intro!: exI [of _ "gs @ [[(word_of_nat (length ds), d)]]"] exI [of _ "[] :: (u64 \<times> bytes) list"])
qed

text \<open>One append of the light encoding through the buffer.\<close>

lemma DataSync_sequence:
  "DataSync L (w\<lparr>sequence_nr := q\<rparr>) junk = map_option (\<lambda>(s, w). (s, w\<lparr>sequence_nr := q\<rparr>)) (DataSync L w junk)"
  by (auto simp: DataSync_def BufferedFlush_def SubmitAppend_def wal_SpaceNeeded_def Let_def bind_eq_Some_conv
      split: prod.splits option.splits Option.bind_splits)

lemma SpaceNeeded_ge: "kTropoHeaderSize < lba \<Longrightarrow> n < SpaceNeeded lba n"
proof -
  assume lba: "kTropoHeaderSize < lba"
  let ?m = "(n div lba + 1) * kTropoHeaderSize + n"
  have "?m \<le> ((?m + lba - 1) div lba) * lba"
    using ceil_div_upper [of lba ?m] lba by (simp add: ceil_div_def)
  then show ?thesis by (simp add: SpaceNeeded_def kTropoHeaderSize_def)
qed

text \<open>Without room in the emptied buffer the entry is a record of its own.\<close>

lemma BufferedAppend_empty:
  assumes conf: "wal_conf w" and inv: "wal_inv chunks w ds" and pos: "buff_pos w = 0"
    and safe: "safe_size (lba_size (wal_committer w)) (22 + length d)" and n: "22 + length d < n"
  shows "\<exists>s w'. (if n < m \<and> m \<le> buffsize w then do { w \<leftarrow> buffer_copy (w\<lparr>sequence_nr := sequence_nr w + 1\<rparr>) (light_entry (word_of_nat (length ds)) d); Some (OK, w) }
      else BufferedFlush L (w\<lparr>sequence_nr := sequence_nr w + 1\<rparr>) junk (light_entry (word_of_nat (length ds)) d)) =
       Some (s, w') \<and> wal_conf w' \<and> (once_laws L chunks \<and> ok s \<longrightarrow> wal_inv chunks w' (ds @ [d]))"
proof (cases "n < m \<and> m \<le> buffsize w")
  case True
  then have "buff_pos w + 22 + length d < buffsize w" using n pos by simp
  from buffer_copy_inv [OF inv this] show ?thesis using True conf by auto
next
  case False
  let ?w = "w\<lparr>sequence_nr := sequence_nr w + 1\<rparr>"
  have "BufferedFlush L ?w junk (light_entry (word_of_nat (length ds)) d) =
      Some (SubmitAppend L ?w (frags (lba_size (wal_committer w)) True (light_entry (word_of_nat (length ds)) d)))"
    using BufferedFlush_conf [of ?w "light_entry (word_of_nat (length ds)) d" L junk] conf safe by simp
  moreover obtain s w' where s: "SubmitAppend L ?w (frags (lba_size (wal_committer w)) True (light_entry (word_of_nat (length ds)) d)) = (s, w')"
    by force
  moreover have "wal_conf w'" using s conf by (auto simp: SubmitAppend_def split: prod.splits)
  moreover have "wal_inv chunks w' (ds @ [d])" if "once_laws L chunks" "ok s"
    using SubmitAppend_inv [OF inv pos that(1)] s that(2) by (simp add: ok_def)
  ultimately show ?thesis using False by auto
qed

lemma BufferedAppend_conf:
  assumes conf: "wal_conf w" and inv: "wal_inv chunks w ds"
    and safe: "safe_size (lba_size (wal_committer w)) (22 + length d)" and laws: "once_laws L chunks"
  shows "\<exists>s w'. BufferedAppend L (w\<lparr>sequence_nr := sequence_nr w + 1\<rparr>) junk (light_entry (word_of_nat (length ds)) d) =
       Some (s, w') \<and> wal_conf w' \<and> (ok s \<longrightarrow> wal_inv chunks w' (ds @ [d]))"
proof -
  let ?w = "w\<lparr>sequence_nr := sequence_nr w + 1\<rparr>" and ?e = "light_entry (word_of_nat (length ds)) d"
  let ?n = "SpaceNeeded (lba_size (wal_committer w)) (buff_pos w + length ?e)"
  have c: "group_commits w" "kTropoHeaderSize < lba_size (wal_committer w)" and b: "buff_pos w < buffsize w"
    using conf inv by (auto simp: wal_conf_def wal_inv_def committer_wf_def)
  have n: "buff_pos w + 22 + length d < ?n" using SpaceNeeded_ge [OF c(2), of "buff_pos w + length ?e"] by simp
  have left: "usub64 (usub64 (buffsize w) (buff_pos w)) 1 = buffsize w - buff_pos w - 1" using b by simp
  show ?thesis
  proof (cases "?n < buffsize w - buff_pos w - 1")
    case True
    then have "buff_pos w + 22 + length d < buffsize w" using n by simp
    from buffer_copy_inv [OF inv this] show ?thesis
      using True conf c left by (auto simp: BufferedAppend_def Let_def)
  next
    case full: False
    show ?thesis
    proof (cases "buff_pos w = 0")
      case True
      then show ?thesis
        using BufferedAppend_empty [OF conf inv True safe, of ?n "buffsize w - 1" L junk] full c left n laws
        by (simp add: BufferedAppend_def Let_def)
    next
      case False
      obtain s w1 where s: "DataSync L w junk = Some (s, w1)" and conf1: "wal_conf w1"
        and eq: "wal_committer w1 = wal_committer w" "buffsize w1 = buffsize w"
        and i1: "ok s \<longrightarrow> wal_inv chunks w1 ds \<and> buff_pos w1 = 0"
        using DataSync_conf [OF conf inv, of L junk] laws by blast
      have q: "sequence_nr w1 = sequence_nr w" if "ok s" using i1 inv that by (simp add: wal_inv_def)
      show ?thesis
      proof (cases "ok s")
        case True
        from i1 True have inv1: "wal_inv chunks w1 ds" and pos1: "buff_pos w1 = 0" by auto
        show ?thesis
          using BufferedAppend_empty [OF conf1 inv1 pos1, of d ?n "buffsize w" L junk] safe eq full c left n False s q True
            pos1 laws
          by (simp add: BufferedAppend_def Let_def DataSync_sequence split: if_splits)
      qed (use full c left False s conf1 in \<open>simp add: BufferedAppend_def Let_def DataSync_sequence\<close>)
    qed
  qed
qed

lemma wal_Append_conf:
  assumes conf: "wal_conf w" and inv: "wal_inv chunks w ds" and len: "length ds < 2 ^ 32"
    and safe: "safe_size (lba_size (wal_committer w)) (22 + length d)" and laws: "once_laws L chunks"
  shows "\<exists>s w'. wal_Append L w junk d False = Some (s, w') \<and> wal_conf w' \<and>
       (ok s \<longrightarrow> wal_inv chunks w' (ds @ [d]))"
proof -
  have "(ucast (sequence_nr w) :: u64) = word_of_nat (length ds)"
    using inv len by (auto simp: wal_inv_def word_unat_eq_iff unsigned_of_nat unsigned_ucast_eq take_bit_nat_eq_self)
  then have "LightEncodeAppend w d = (light_entry (word_of_nat (length ds)) d, 22 + length d, w\<lparr>sequence_nr := sequence_nr w + 1\<rparr>)"
    using conf by (simp add: LightEncodeAppend_def light_entry_def wal_conf_def group_tag_def)
  then have "wal_Append L w junk d False =
      BufferedAppend L (w\<lparr>sequence_nr := sequence_nr w + 1\<rparr>) junk (light_entry (word_of_nat (length ds)) d)"
    using conf by (simp add: wal_Append_def wal_conf_def read_range_def)
  then show ?thesis using BufferedAppend_conf [OF conf inv safe laws, of junk] by simp
qed

section \<open>Replaying\<close>

lemma wal_Sync_conf:
  assumes conf: "wal_conf w" and inv: "wal_inv chunks w ds" and laws: "once_laws L chunks"
  shows "\<exists>s w'. wal_Sync L w junk = Some (s, w') \<and> wal_conf w' \<and>
     (ok s \<longrightarrow> wal_inv chunks w' ds \<and> buff_pos w' = 0)"
proof -
  obtain s w1 where s: "DataSync L w junk = Some (s, w1)" and conf1: "wal_conf w1"
    and i1: "ok s \<longrightarrow> wal_inv chunks w1 ds \<and> buff_pos w1 = 0"
    using DataSync_conf [OF conf inv, of L junk] laws by blast
  have sync: "wal_inv chunks (w1\<lparr>wal_log := l'\<rparr>) ds"
    if "wal_inv chunks w1 ds" "szd_Sync L (wal_log w1) = (SZD_Success, l')" for l'
    using that laws by (simp add: wal_inv_def once_laws_def)
  show ?thesis
    using s conf1 i1 sync by (cases "szd_Sync L (wal_log w1)") (auto simp: wal_Sync_def)
qed

lemma mset_map_permuted: "mset ys = mset (map f xs) \<Longrightarrow> \<exists>xs'. mset xs' = mset xs \<and> ys = map f xs'"
proof (induction ys arbitrary: xs)
  case (Cons y ys)
  then have "y \<in> set (map f xs)" by (metis list.set_intros(1) set_mset_mset)
  then obtain x where x: "x \<in> set xs" "y = f x" by auto
  then have "mset ys = mset (map f (remove1 x xs))"
    using Cons.prems by (simp add: image_mset_Diff) (metis add_mset_remove_trivial)
  with Cons.IH obtain xs' where "mset xs' = mset (remove1 x xs)" "ys = map f xs'" by blast
  with x show ?case by (intro exI [of _ "x # xs'"]) simp
qed simp

lemma wal_inv_records:
  assumes "wal_conf w" and "wal_inv chunks w ds" and "buff_pos w = 0" and "once_laws L chunks"
    and "szd_ReadAll L (wal_log w) = (SZD_Success, all)"
  shows "\<exists>gs. mset (concat gs) = mset (numbered ds) \<and>
     read_records (wal_committer w) (string_reader all 0 sc) = Some (map encode_group gs)"
proof -
  let ?f = "\<lambda>g. frags (lba_size (wal_committer w)) True (encode_group g)"
  obtain gs where i: "concat gs = numbered ds" "chunks (wal_log w) = map ?f gs"
    by (rule wal_inv_flushed [OF assms(2,3)])
  have "\<exists>cs. mset cs = mset (chunks (wal_log w)) \<and> all = concat cs"
    using assms(4,5) by (simp add: once_laws_def)
  then obtain cs where "mset cs = mset (map ?f gs)" and all: "all = concat cs"
    unfolding i(2) by blast
  then obtain gs' where gs': "mset gs' = mset gs" and cs: "cs = map ?f gs'"
    using mset_map_permuted by blast
  have "mset (concat gs') = mset (concat gs)"
    using gs' by (simp add: mset_concat flip: sum_mset_sum_list)
  moreover have "read_records (wal_committer w) (string_reader all 0 sc) = Some (map encode_group gs')"
    using read_records_frags [of "wal_committer w" "[]" "map encode_group gs'" sc] assms(1) all cs
    by (simp add: wal_conf_def comp_def)
  ultimately show ?thesis using i(1) by auto
qed

lemma wal_Replay_conf:
  assumes conf: "wal_conf w" and inv: "wal_inv chunks w ds" and pos: "buff_pos w = 0" and laws: "once_laws L chunks"
    and len: "length ds \<le> 2 ^ 32" and sizes: "\<forall>d\<in>set ds. length d < 2 ^ 64"
    and all: "szd_ReadAll L (wal_log w) = (SZD_Success, all)"
  shows "wal_Replay L memw w mem seq = apply_entries memw (numbered ds) w OK mem seq"
proof -
  obtain gs where gs: "mset (concat gs) = mset (numbered ds)"
    and rr: "read_records (wal_committer w) (string_reader all 0 deadbeef) = Some (map encode_group gs)"
    using wal_inv_records [OF conf inv pos laws all] by blast
  have "\<forall>g\<in>set gs. \<forall>(q, d)\<in>set g. length d < 2 ^ 64"
  proof clarify
    fix g q d assume "g \<in> set gs" "(q, d) \<in> set g"
    then have "(q, d) \<in> set (concat gs)" by auto
    then have "(q, d) \<in> set (numbered ds)" unfolding mset_eq_setD [OF gs] .
    then show "length d < 2 ^ 64" using sizes set_numbered by blast
  qed
  from collect_entries_groups [OF this, of OK "[]"]
  have "collect_entries True (map encode_group gs) OK [] = Some (OK, concat gs)" by simp
  moreover have "sort_key fst (concat gs) = numbered ds" by (rule sort_numbered [OF len gs])
  moreover have "GetCommitReaderString deadbeef all = (OK, string_reader all 0 deadbeef)"
    by (simp add: GetCommitReaderString_def string_reader_def)
  moreover have "numbered ds = []" if "szd_Empty L (wal_log w)"
  proof -
    have "chunks (wal_log w) = []" using that laws by (simp add: once_laws_def)
    then show ?thesis using wal_inv_flushed [OF inv pos] by (metis concat.simps(1) map_is_Nil_conv)
  qed
  ultimately show ?thesis
    using conf rr all by (simp add: FromStatus_def wal_Replay_def ReplayUnordered_def wal_conf_def Let_def)
qed

text \<open>A sequence of appends without the sync flag, as long as they succeed.\<close>

fun wal_appends :: "'l szd_log \<Rightarrow> 'l TropoWAL \<Rightarrow> byte \<Rightarrow> bytes list \<Rightarrow> 'l TropoWAL option" where
  "wal_appends L w junk [] = Some w"
| "wal_appends L w junk (d # ds) = do {
     (s, w) \<leftarrow> wal_Append L w junk d False;
     if ok s then wal_appends L w junk ds else None
   }"

lemma wal_conf_init:
  "kTropoHeaderSize < lba \<Longrightarrow> lba \<le> 2 ^ 24 \<Longrightarrow> 0 < pages \<Longrightarrow> safe_size lba (lba * pages) \<Longrightarrow>
   wal_conf (TropoWAL_init l lba pages True True True junk)"
  using committer_wf_init [of lba 1 False]
  by (auto simp: wal_conf_def TropoWAL_init_def TropoCommitter_init_def)

lemma SubmitAppend_log: "SubmitAppend L w d = (s, w') \<Longrightarrow> \<exists>l. w' = w\<lparr>wal_log := l\<rparr>"
  by (auto simp: SubmitAppend_def split: prod.splits)

lemma BufferedFlush_log: "BufferedFlush L w junk d = Some (s, w') \<Longrightarrow> \<exists>l. w' = w\<lparr>wal_log := l\<rparr>"
  by (auto simp: BufferedFlush_def Let_def bind_eq_Some_conv split: if_splits intro: exI [of _ "wal_log w"]
      dest: SubmitAppend_log)

lemma DataSync_committer: "DataSync L w junk = Some (s, w') \<Longrightarrow> wal_committer w' = wal_committer w"
  by (auto simp: DataSync_def bind_eq_Some_conv split: if_splits dest!: BufferedFlush_log)

lemma buffer_copy_committer: "buffer_copy w d = Some w' \<Longrightarrow> wal_committer w' = wal_committer w"
  by (auto simp: buffer_copy_def bind_eq_Some_conv)

lemma BufferedAppend_committer:
  "BufferedAppend L w junk d = Some (s, w') \<Longrightarrow> wal_committer w' = wal_committer w"
  by (simp add: BufferedAppend_def Let_def bind_eq_Some_conv split: if_splits)
    (auto dest!: BufferedFlush_log DataSync_committer buffer_copy_committer split: if_splits)

lemma wal_Append_committer:
  "group_commits w \<Longrightarrow> wal_Append L w junk d False = Some (s, w') \<Longrightarrow> wal_committer w' = wal_committer w"
  by (auto simp: wal_Append_def LightEncodeAppend_def Let_def bind_eq_Some_conv split: if_splits
      dest!: BufferedAppend_committer SubmitAppend_log)

lemma wal_appends_conf:
  assumes "wal_conf w" and "wal_inv chunks w ds0" and "once_laws L chunks"
    and "\<forall>d\<in>set ds. safe_size (lba_size (wal_committer w)) (22 + length d)"
    and "length ds0 + length ds \<le> 2 ^ 32" and "wal_appends L w junk ds = Some w'"
  shows "wal_conf w' \<and> wal_inv chunks w' (ds0 @ ds) \<and> lba_size (wal_committer w') = lba_size (wal_committer w)"
  using assms
proof (induction ds arbitrary: w ds0)
  case (Cons d ds)
  obtain s w1 where a: "wal_Append L w junk d False = Some (s, w1)" "wal_conf w1"
    and i: "ok s \<longrightarrow> wal_inv chunks w1 (ds0 @ [d])"
    using wal_Append_conf [OF Cons.prems(1,2), of d L junk] Cons.prems(3,4,5) by auto
  moreover from this have "ok s" "wal_appends L w1 junk ds = Some w'"
    using Cons.prems(6) by (auto split: if_splits)
  moreover have "wal_committer w1 = wal_committer w"
    using wal_Append_committer [OF _ a(1)] Cons.prems(1) by (simp add: wal_conf_def)
  ultimately show ?case
    using Cons.IH [of w1 "ds0 @ [d]"] Cons.prems(3,4,5) by simp
qed simp

lemma safe_size_bound: "lba \<le> 2 ^ 24 \<Longrightarrow> safe_size lba n \<Longrightarrow> n < 2 ^ 64"
proof -
  assume a: "lba \<le> 2 ^ 24" and "safe_size lba n"
  then have "n \<le> ((lba + 1) div 8 + 1) * (lba - kTropoHeaderSize)" by (simp add: safe_size_def)
  also have "\<dots> \<le> (2 ^ 24 + 2) * 2 ^ 24" using a by (intro mult_mono) auto
  finally show ?thesis by simp
qed

lemma wal_appends_init:
  assumes "once_laws L chunks" and "chunks l = []"
    and "kTropoHeaderSize < lba" and "lba \<le> 2 ^ 24" and "0 < pages" and "safe_size lba (lba * pages)"
    and "\<forall>d\<in>set ds. safe_size lba (22 + length d)" and "length ds \<le> 2 ^ 32"
    and "wal_appends L (TropoWAL_init l lba pages True True True junk0) junk ds = Some w"
  shows "wal_conf w" and "wal_inv chunks w ds" and "lba_size (wal_committer w) = lba"
proof -
  have "lba_size (wal_committer (TropoWAL_init l lba pages True True True junk0)) = lba"
    by (simp add: TropoWAL_init_def TropoCommitter_init_def)
  with wal_appends_conf [OF wal_conf_init [OF assms(3-6)] wal_inv_init [where chunks = chunks, OF _ assms(3,5)] assms(1) _ _ assms(9)] assms(2,7,8)
  show "wal_conf w" and "wal_inv chunks w ds" and "lba_size (wal_committer w) = lba" by auto
qed

section \<open>Properties\<close>

text \<open>C1: Recovery replays the log in the order of the appends. Start from an empty log with buffering,
  grouped commits and unordered appends, append any batches of safe size without the sync flag, all
  successfully, and synchronise. A replay then applies exactly these batches, numbered from 0, in
  the order they were appended, whatever order the device stored the asynchronous writes in, and
  whichever of them were grouped in the buffer.\<close>

theorem wal_replay_in_append_order:
  assumes "once_laws L chunks" and "chunks l = []"
    and "kTropoHeaderSize < lba" and "lba \<le> 2 ^ 24" and "0 < pages" and "safe_size lba (lba * pages)"
    and "\<forall>d\<in>set ds. safe_size lba (22 + length d)" and "length ds \<le> 2 ^ 32"
    and "wal_appends L (TropoWAL_init l lba pages True True True junk0) junk ds = Some w1"
    and "wal_Sync L w1 junk = Some (OK, w2)"
    and "fst (szd_ReadAll L (wal_log w2)) = SZD_Success"
  shows "wal_Replay L memw w2 mem seq =
         apply_entries memw (zip (map word_of_nat [0..<length ds]) ds) w2 OK mem seq"
proof -
  note w1 = wal_appends_init [OF assms(1-9)]
  have w2: "wal_conf w2" "wal_inv chunks w2 ds" "buff_pos w2 = 0"
    using wal_Sync_conf [OF w1(1,2) assms(1), of junk] assms(10) by auto
  have "\<forall>d\<in>set ds. length d < 2 ^ 64"
    using assms(7) safe_size_bound [OF assms(4)] by fastforce
  then show ?thesis
    using wal_Replay_conf [OF w2 assms(1,8)] assms(11) prod.collapse [of "szd_ReadAll L (wal_log w2)"]
    unfolding numbered_def by metis
qed

text \<open>C14: Appending is memory safe. In every state that such a log reaches, an append of a batch of safe
  size writes and reads inside the heap buffer and inside the character arrays of the committer
  (the model has a result), and an append that succeeds leaves the position inside the buffer.\<close>

theorem wal_append_memory_safe:
  assumes "once_laws L chunks" and "chunks l = []"
    and "kTropoHeaderSize < lba" and "lba \<le> 2 ^ 24" and "0 < pages" and "safe_size lba (lba * pages)"
    and "\<forall>d\<in>set (ds @ [d]). safe_size lba (22 + length d)" and "length ds < 2 ^ 32"
    and "wal_appends L (TropoWAL_init l lba pages True True True junk0) junk ds = Some w"
  shows "\<exists>s w'. wal_Append L w junk d False = Some (s, w') \<and>
    (s = OK \<longrightarrow> length (buff w') = buffsize w' \<and> buff_pos w' < buffsize w')"
proof -
  have "\<forall>d\<in>set ds. safe_size lba (22 + length d)" "length ds \<le> 2 ^ 32" using assms(7,8) by auto
  note w = wal_appends_init [OF assms(1-6) this assms(9)]
  show ?thesis
    using wal_Append_conf [OF w(1,2) assms(8), of d L junk] assms(1,7) w(3) by (auto simp: wal_inv_def)
qed

text \<open>On the in-memory log every operation succeeds.\<close>

lemma CommitToCharArray_OK: "CommitToCharArray c junk data = Some (s, out) \<Longrightarrow> s = OK"
  by (auto simp: CommitToCharArray_def Let_def bind_eq_Some_conv)

lemma SubmitAppend_piece: "SubmitAppend piece_log w d = (s, w') \<Longrightarrow> s = OK"
  by (auto simp: SubmitAppend_def piece_log_def FromStatus_def)

lemma BufferedFlush_piece: "BufferedFlush piece_log w junk d = Some (s, w') \<Longrightarrow> s = OK"
  by (auto simp: BufferedFlush_def Let_def bind_eq_Some_conv split: if_splits
      dest: SubmitAppend_piece CommitToCharArray_OK)

lemma DataSync_piece: "DataSync piece_log w junk = Some (s, w') \<Longrightarrow> s = OK"
  by (auto simp: DataSync_def bind_eq_Some_conv split: if_splits dest: BufferedFlush_piece)

lemma szd_Sync_piece: "szd_Sync piece_log l = (SZD_Success, l)"
  by (simp add: piece_log_def)

lemma wal_Sync_piece: "wal_Sync piece_log w junk = Some (s, w') \<Longrightarrow> s = OK"
  by (auto simp: wal_Sync_def bind_eq_Some_conv szd_Sync_piece FromStatus_def split: if_splits
      dest: DataSync_piece)

lemma wal_Append_piece:
  assumes "group_commits w" and "wal_Append piece_log w junk d False = Some (s, w')"
  shows "s = OK"
proof -
  have "BufferedAppend piece_log w junk d = Some (s, w') \<Longrightarrow> s = OK" for w :: "bytes list TropoWAL" and d
    by (auto simp: BufferedAppend_def Let_def bind_eq_Some_conv split: if_splits
        dest: BufferedFlush_piece DataSync_piece)
  then show ?thesis
    using assms by (auto simp: wal_Append_def Let_def bind_eq_Some_conv split: if_splits prod.splits
        dest: SubmitAppend_piece)
qed

lemma wal_appends_piece:
  assumes "wal_conf w" and "wal_inv (\<lambda>l. l) w ds0" and "length ds0 + length ds \<le> 2 ^ 32"
    and "\<forall>d\<in>set ds. safe_size (lba_size (wal_committer w)) (22 + length d)"
  shows "\<exists>w1 w2. wal_appends piece_log w junk ds = Some w1 \<and> wal_Sync piece_log w1 junk = Some (OK, w2)"
  using assms
proof (induction ds arbitrary: w ds0)
  case Nil
  then show ?case using wal_Sync_conf [OF Nil(1,2) once_laws_piece, of junk] wal_Sync_piece by fastforce
next
  case (Cons d ds)
  obtain s w1 where a: "wal_Append piece_log w junk d False = Some (s, w1)" "wal_conf w1"
    and i: "ok s \<longrightarrow> wal_inv (\<lambda>l. l) w1 (ds0 @ [d])"
    using wal_Append_conf [OF Cons.prems(1,2) _ _ once_laws_piece, of d junk] Cons.prems(3,4) by auto
  have g: "group_commits w" using Cons.prems(1) by (simp add: wal_conf_def)
  have "s = OK" by (rule wal_Append_piece [OF g a(1)])
  then show ?case
    using Cons.IH [of w1 "ds0 @ [d]"] a i Cons.prems(3,4) wal_Append_committer [OF g a(1)] by simp
qed

lemma wal_appends_piece_init:
  assumes "kTropoHeaderSize < lba" and "lba \<le> 2 ^ 24" and "0 < pages" and "safe_size lba (lba * pages)"
    and "\<forall>d\<in>set ds. safe_size lba (22 + length d)" and "length ds \<le> 2 ^ 32"
  obtains w1 w2 where "wal_appends piece_log (TropoWAL_init [] lba pages True True True junk0) junk ds = Some w1"
    "wal_Sync piece_log w1 junk = Some (OK, w2)"
proof -
  have "lba_size (wal_committer (TropoWAL_init [] lba pages True True True junk0 :: bytes list TropoWAL)) = lba"
    by (simp add: TropoWAL_init_def TropoCommitter_init_def)
  then show ?thesis
    using that wal_appends_piece [OF wal_conf_init [OF assms(1-4)] wal_inv_init [where chunks = "\<lambda>l. l", OF refl assms(1,3)],
      of ds junk0 junk] assms(5,6) by auto
qed

theorem wal_replay_in_append_order_witness:
  "\<exists>w1 w2. wal_appends piece_log (TropoWAL_init [] 4096 4 True True True 0) 0 [[1, 2], [3]] = Some w1 \<and>
     wal_Sync piece_log w1 0 = Some (OK, w2) \<and>
     (\<forall>memw (mem :: bytes list) seq.
        wal_Replay piece_log memw w2 mem seq = apply_entries memw [(0, [1, 2]), (1, [3])] w2 OK mem seq)"
proof -
  have safe: "safe_size 4096 (4096 * 4)" "\<forall>d\<in>set [[1, 2], [3 :: byte]]. safe_size 4096 (22 + length d)"
    and lba: "kTropoHeaderSize < 4096" "(4096 :: nat) \<le> 2 ^ 24" and pages: "0 < (4 :: nat)"
    by (simp_all add: safe_size_def kTropoHeaderSize_def)
  let ?w = "TropoWAL_init [] 4096 4 True True True 0 :: bytes list TropoWAL"
  obtain w1 w2 where w: "wal_appends piece_log ?w 0 [[1, 2], [3]] = Some w1" "wal_Sync piece_log w1 0 = Some (OK, w2)"
    using wal_appends_piece_init [OF lba pages safe(1), of "[[1, 2], [3]]" 0 0] safe(2) by auto
  have "fst (szd_ReadAll piece_log (wal_log w2)) = SZD_Success" by (simp add: piece_log_def)
  from wal_replay_in_append_order [where chunks = "\<lambda>l. l", OF once_laws_piece refl lba pages safe _ w this]
  show ?thesis using w by (auto simp: upt_rec)
qed

theorem wal_append_memory_safe_witness:
  "\<exists>w1 s w'. wal_appends piece_log (TropoWAL_init [] 4096 4 True True True 0) 0 [[1, 2], [3]] = Some w1 \<and>
     wal_Append piece_log w1 0 [4] False = Some (s, w') \<and> s = OK \<and> buff_pos w' < buffsize w'"
proof -
  have safe: "safe_size 4096 (4096 * 4)" "\<forall>d\<in>set ([[1, 2], [3]] @ [[4 :: byte]]). safe_size 4096 (22 + length d)"
    and lba: "kTropoHeaderSize < 4096" "(4096 :: nat) \<le> 2 ^ 24" and pages: "0 < (4 :: nat)"
    by (simp_all add: safe_size_def kTropoHeaderSize_def)
  let ?w = "TropoWAL_init [] 4096 4 True True True 0 :: bytes list TropoWAL"
  obtain w1 where w: "wal_appends piece_log ?w 0 [[1, 2], [3]] = Some w1"
    using wal_appends_piece_init [OF lba pages safe(1), of "[[1, 2], [3]]" 0 0] safe(2) by auto
  have "group_commits w1"
    using wal_appends_init(1) [where chunks = "\<lambda>l. l", OF once_laws_piece refl lba pages safe(1) _ _ w] safe(2)
    by (simp add: wal_conf_def)
  then show ?thesis
    using wal_append_memory_safe [where chunks = "\<lambda>l. l", OF once_laws_piece refl lba pages safe _ w] w wal_Append_piece
    by fastforce
qed

text \<open>C34: With the default configuration (a buffer of one block and grouped commits) the write-ahead log never
  keeps an entry in its heap buffer: after any successful appends the buffer is empty, every
  entry has been submitted as a record of its own.\<close>

theorem wal_default_never_buffers:
  assumes "kTropoHeaderSize < lba"
    and "wal_appends L (TropoWAL_init l lba wal_buffered_pages wal_allow_buffering wal_allow_group_commit
           wal_unordered junk0) junk ds = Some w"
  shows "buff_pos w = 0"
proof -
  define P :: "'a TropoWAL \<Rightarrow> bool" where
    "P w \<longleftrightarrow> buff_pos w = 0 \<and> buffsize w = lba \<and> group_commits w \<and> buffered w \<and> lba_size (wal_committer w) = lba" for w
  have big: "lba \<le> SpaceNeeded lba n" for n
  proof -
    have "1 \<le> ((n div lba + 1) * kTropoHeaderSize + n + lba - 1) div lba"
      using assms(1) by (simp add: div_greater_zero_iff kTropoHeaderSize_def Suc_le_eq)
    then show ?thesis by (simp add: SpaceNeeded_def Let_def)
  qed
  have flush: "P w'" if "BufferedFlush L w junk d = Some (s, w')" "P w" for w d s w'
    using that by (auto simp: P_def dest!: BufferedFlush_log)
  have step: "P w'" if a: "wal_Append L w junk d False = Some (s, w')" and p: "P w" for w d s w'
  proof -
    obtain out n w0 where le: "LightEncodeAppend w d = (out, n, w0)" by (cases "LightEncodeAppend w d")
    with p have p0: "P w0" by (auto simp: LightEncodeAppend_def P_def split: if_splits)
    obtain rec where "BufferedAppend L w0 junk rec = Some (s, w')"
      using a p le p0 by (auto simp: wal_Append_def P_def bind_eq_Some_conv)
    moreover have "\<not> SpaceNeeded lba (length rec) < lba - 1" using big [of "length rec"] assms(1) by linarith
    ultimately have "BufferedFlush L w0 junk rec = Some (s, w')"
      using p0 assms(1) by (simp add: BufferedAppend_def Let_def P_def split: if_splits)
    then show ?thesis using flush p0 by blast
  qed
  have "P w'" if "wal_appends L w0 junk ds = Some w'" "P w0" for w0 w'
    using that by (induction ds arbitrary: w0) (auto simp: bind_eq_Some_conv split: if_splits dest: step)
  then show ?thesis
    using assms(2) by (fastforce simp: P_def TropoWAL_init_def TropoCommitter_init_def wal_buffered_pages_def
        wal_allow_buffering_def wal_allow_group_commit_def)
qed

theorem wal_default_never_buffers_witness:
  "\<exists>w. wal_appends piece_log (TropoWAL_init [] 4096 wal_buffered_pages wal_allow_buffering wal_allow_group_commit
     wal_unordered 0) 0 [[1, 2], [3]] = Some w \<and> buff_pos w = 0"
proof -
  have safe: "safe_size 4096 (4096 * 1)" "\<forall>d\<in>set [[1, 2], [3 :: byte]]. safe_size 4096 (22 + length d)"
    and lba: "kTropoHeaderSize < 4096" "(4096 :: nat) \<le> 2 ^ 24" and pages: "0 < (1 :: nat)"
    by (simp_all add: safe_size_def kTropoHeaderSize_def)
  let ?w = "TropoWAL_init [] 4096 1 True True True 0 :: bytes list TropoWAL"
  obtain w where w: "wal_appends piece_log ?w 0 [[1, 2], [3]] = Some w"
    using wal_appends_piece_init [OF lba pages safe(1), of "[[1, 2], [3]]" 0 0] safe(2) by auto
  have d: "TropoWAL_init [] 4096 wal_buffered_pages wal_allow_buffering wal_allow_group_commit wal_unordered 0 = ?w"
    by (simp add: wal_buffered_pages_def wal_allow_buffering_def wal_allow_group_commit_def wal_unordered_def)
  show ?thesis
    using wal_default_never_buffers [OF lba(1), of piece_log "[]" 0 0 "[[1, 2], [3]]" w] w unfolding d by blast
qed

lemma tag_of_size:
  assumes "n < 2 ^ 32"
  shows "take (length group_tag) (le_bytes 8 (word_of_nat n :: u64) @ xs) \<noteq> group_tag"
proof
  assume "take (length group_tag) (le_bytes 8 (word_of_nat n :: u64) @ xs) = group_tag"
  then have "(ucast (drop_bit 32 (word_of_nat n :: u64)) :: byte) = 0x70"
    by (simp add: group_tag_def numeral_eq_Suc)
  moreover have "drop_bit 32 (word_of_nat n :: u64) = 0"
    using assms by (simp add: word_unat_eq_iff drop_bit_eq_div unat_div unsigned_of_nat take_bit_nat_eq_self)
  ultimately show False by simp
qed

text \<open>The encoding of a synchronous append, when the space computed from the batch alone is enough for the
  record, which is 16 bytes longer.\<close>

lemma EncodeAppend_conf:
  assumes wf: "committer_wf (wal_committer w)" and "unordered w" and lba: "lba = lba_size (wal_committer w)"
    and "safe_size lba (16 + length d)" and "nfrags lba (16 + length d) = nfrags lba (length d)"
  defines "r \<equiv> frags lba True (le_bytes 8 (word_of_nat (length d) :: u64) @ le_bytes 8 (ucast (sequence_nr w) :: u64) @ d)"
  shows "EncodeAppend w junk d = Some (OK, r, length r, w\<lparr>sequence_nr := sequence_nr w + 1\<rparr>)"
proof -
  have h: "kTropoHeaderSize < lba" using wf lba by (simp add: committer_wf_def)
  have small: "kTropoHeaderSize * (nfrags lba (16 + length d) - 1) \<le> lba + 1"
    by (rule safe_size_nfrags [OF h assms(4)])
  have "length r = SpaceNeeded lba (length d)"
    using SpaceNeeded_exact [OF h, of "length d"] small assms(5) by (simp add: r_def length_frags [OF h])
  then show ?thesis
    using CommitToCharArray_eq [OF wf, of "le_bytes 8 (word_of_nat (length d) :: u64) @ le_bytes 8 (ucast (sequence_nr w) :: u64) @ d" junk]
      small assms(2) lba
    by (simp add: EncodeAppend_def wal_SpaceNeeded_def r_def)
qed

text \<open>C32: A synchronous append is not recovered. With the default configuration (grouped commits), a batch
  appended with the sync flag to an empty log is acknowledged, but the record lacks the tag that
  the replay of a grouped log looks for: the replay reports success and applies nothing.\<close>

theorem wal_sync_append_not_replayed:
  assumes "once_laws L chunks" and "chunks l = []" and "kTropoHeaderSize < lba" and "lba \<le> 2 ^ 24"
    and "safe_size lba (16 + length d)" and "nfrags lba (16 + length d) = nfrags lba (length d)"
    and "length d < 2 ^ 32"
    and "wal_Append L (TropoWAL_init l lba wal_buffered_pages wal_allow_buffering wal_allow_group_commit
           wal_unordered junk0) junk d True = Some (OK, w)"
    and "fst (szd_ReadAll L (wal_log w)) = SZD_Success"
  shows "wal_Replay L memw w mem seq = Some (OK, mem, seq, w)"
proof -
  let ?w = "TropoWAL_init l lba wal_buffered_pages wal_allow_buffering wal_allow_group_commit wal_unordered junk0"
  let ?r = "le_bytes 8 (word_of_nat (length d) :: u64) @ le_bytes 8 (0 :: u64) @ d"
  have w0: "committer_wf (wal_committer ?w)" "unordered ?w" "lba = lba_size (wal_committer ?w)" "sequence_nr ?w = 0"
    using committer_wf_init [OF assms(3,4), of 1 False] by (auto simp: TropoWAL_init_def TropoCommitter_init_def wal_unordered_def)
  note e = EncodeAppend_conf [OF w0(1-3) assms(5,6), of junk, unfolded w0(4)]
  obtain l' where a: "szd_AsyncAppend L l (frags lba True ?r) = (SZD_Success, l')"
    and w: "w = ?w\<lparr>sequence_nr := 1, wal_log := l'\<rparr>"
    using assms(8) e by (auto simp: wal_Append_def read_range_def DirectAppend_def TropoWAL_init_def split: prod.splits)
  have "chunks l' = [frags lba True ?r]" using assms(1,2) a by (simp add: once_laws_def)
  moreover obtain all where all: "szd_ReadAll L l' = (SZD_Success, all)"
    using assms(9) w by (cases "szd_ReadAll L l'") simp
  ultimately have "\<exists>cs. mset cs = mset [frags lba True ?r] \<and> all = concat cs"
    using assms(1) unfolding once_laws_def by metis
  then have "all = concat (map (frags lba True) [?r])" by auto
  then have "read_records (wal_committer w) (string_reader all 0 deadbeef) = Some [?r]"
    using read_records_frags [OF w0(1), of "[]" "[?r]" deadbeef] w0(3) w by simp
  moreover have "unordered_entries True ?r 0 OK [] = Some (OK, [])"
    using tag_of_size [OF assms(7), of "le_bytes 8 (0 :: u64) @ d"] by (subst unordered_entries.simps) simp
  moreover have "GetCommitReaderString deadbeef all = (OK, string_reader all 0 deadbeef)"
    by (simp add: GetCommitReaderString_def string_reader_def)
  ultimately show ?thesis
    using all w
    by (simp add: FromStatus_def wal_Replay_def ReplayUnordered_def TropoWAL_init_def wal_allow_group_commit_def wal_unordered_def)
qed

theorem wal_sync_append_not_replayed_witness:
  "\<exists>w. wal_Append piece_log (TropoWAL_init [] 4096 wal_buffered_pages wal_allow_buffering wal_allow_group_commit
      wal_unordered 0) 0 [1, 2, 3] True = Some (OK, w) \<and>
     (\<forall>memw (mem :: bytes list) seq. wal_Replay piece_log memw w mem seq = Some (OK, mem, seq, w))"
proof -
  let ?w = "TropoWAL_init [] 4096 wal_buffered_pages wal_allow_buffering wal_allow_group_commit wal_unordered 0 :: bytes list TropoWAL"
  let ?d = "[1, 2, 3] :: bytes"
  have c: "kTropoHeaderSize < 4096" "(4096 :: nat) \<le> 2 ^ 24" "safe_size 4096 (16 + length ?d)"
    "nfrags 4096 (16 + length ?d) = nfrags 4096 (length ?d)" "length ?d < 2 ^ 32"
    by (simp_all add: safe_size_def kTropoHeaderSize_def nfrags_def ceil_div_def)
  have w0: "committer_wf (wal_committer ?w)" "unordered ?w" "4096 = lba_size (wal_committer ?w)"
    using committer_wf_init [OF c(1,2), of 1 False] by (auto simp: TropoWAL_init_def TropoCommitter_init_def wal_unordered_def)
  obtain w where w: "wal_Append piece_log ?w 0 ?d True = Some (OK, w)"
    using EncodeAppend_conf [OF w0 c(3,4), of 0]
    by (auto simp: wal_Append_def read_range_def DirectAppend_def piece_log_def FromStatus_def)
  have "fst (szd_ReadAll piece_log (wal_log w)) = SZD_Success" by (simp add: piece_log_def)
  from wal_sync_append_not_replayed [where chunks = "\<lambda>l. l", OF once_laws_piece refl c w this] w
  show ?thesis by blast
qed

text \<open>C33: A synchronous append can lose the end of its record. The size handed to the log is computed from
  the batch, while the committed record is 16 bytes longer; when these bytes need one more
  fragment, fewer bytes are submitted than the record has, and the rest is dropped without an error.\<close>

theorem wal_sync_append_truncated:
  assumes "committer_wf (wal_committer w)" and "unordered w"
    and "safe_size (lba_size (wal_committer w)) (16 + length d)"
    and "nfrags (lba_size (wal_committer w)) (length d) < nfrags (lba_size (wal_committer w)) (16 + length d)"
  shows "\<exists>out n w'. EncodeAppend w junk d = Some (OK, out, n, w') \<and> n < length out \<and>
    wal_Append L w junk d True = Some (DirectAppend L w' (take n out))"
proof -
  let ?lba = "lba_size (wal_committer w)"
  let ?r = "le_bytes 8 (word_of_nat (length d) :: u64) @ le_bytes 8 (ucast (sequence_nr w) :: u64) @ d"
  have h: "kTropoHeaderSize < ?lba" using assms(1) by (simp add: committer_wf_def)
  note small = safe_size_nfrags [OF h assms(3)]
  have "kTropoHeaderSize * (nfrags ?lba (length d) - 1) \<le> kTropoHeaderSize * (nfrags ?lba (16 + length d) - 1)"
    using assms(4) by (intro mult_left_mono) auto
  then have n: "SpaceNeeded ?lba (length d) = nfrags ?lba (length d) * ?lba"
    using small by (intro SpaceNeeded_exact [OF h]) linarith
  have lt: "nfrags ?lba (length d) * ?lba < nfrags ?lba (16 + length d) * ?lba"
    using assms(4) h by simp
  have "EncodeAppend w junk d =
      Some (OK, frags ?lba True ?r, nfrags ?lba (length d) * ?lba, w\<lparr>sequence_nr := sequence_nr w + 1\<rparr>)"
    using CommitToCharArray_eq [OF assms(1), of ?r junk] small assms(2) n
    by (simp add: EncodeAppend_def wal_SpaceNeeded_def)
  then show ?thesis
    using lt by (simp add: wal_Append_def read_range_def length_frags [OF h])
qed

theorem wal_sync_append_truncated_witness:
  "\<exists>out n w'. EncodeAppend (TropoWAL_init [] 512 1 True True True 0 :: bytes list TropoWAL) 0 (replicate 500 7) = Some (OK, out, n, w') \<and>
     n < length out"
proof -
  have "committer_wf (wal_committer (TropoWAL_init [] 512 1 True True True 0 :: bytes list TropoWAL))"
    using committer_wf_init [of 512 1 False] by (simp add: TropoWAL_init_def TropoCommitter_init_def kTropoHeaderSize_def)
  from wal_sync_append_truncated [OF this, of "replicate 500 7" 0 piece_log]
  show ?thesis
    by (auto simp: TropoWAL_init_def TropoCommitter_init_def safe_size_def kTropoHeaderSize_def nfrags_def ceil_div_def)
qed

end
