(* ===== verification/WalManager.thy ===== *)
theory WalManager
  imports Wal
begin

text \<open>
  The manager of the write-ahead logs (\<open>persistence/tropodb_wal_manager.ipp\<close>, \<open>ref_counter.h\<close>): a ring of
  \<open>N\<close> logs with a head and a tail. \<open>wals\<close> is the array \<open>wals_\<close>, \<open>wal_refs\<close> the reference counts of its
  elements, \<open>current_wal\<close> the index \<open>current_wal_\<close> points to (\<open>None\<close> for the null pointer). Assertions are
  compiled out. An index outside the array is \<open>None\<close>.

  The lemmas show which logs the ring considers in use, that a log in use is never reset and a
  log that is handed out is empty, that recovery replays every log once, and a state of the ring
  that no operation leaves.
\<close>

section \<open>State\<close>

record 'l TropoWALManager =
  wals :: "'l TropoWAL list"
  wal_refs :: "nat list"
  wal_head :: nat
  wal_tail :: nat
  current_wal :: "nat option"

text \<open>\<open>Ref\<close> and \<open>Unref\<close> of a log: the counter starts at 0, and the object is deleted when it reaches 0.\<close>

definition Ref :: "nat \<Rightarrow> nat" where "Ref refs = refs + 1"
definition Unref :: "nat \<Rightarrow> nat \<times> bool" where "Unref refs = (let r = usub64 refs 1 in (r, r \<le> 0))"

definition TropoWALManager_init :: "(nat \<Rightarrow> 'l) \<Rightarrow> nat \<Rightarrow> nat \<Rightarrow> byte \<Rightarrow> 'l TropoWALManager" where
  "TropoWALManager_init logs N lba junk =
     \<lparr>wals = map (\<lambda>i. TropoWAL_init (logs i) lba wal_buffered_pages wal_allow_buffering wal_allow_group_commit
                        wal_unordered junk) [0..<N],
      wal_refs = replicate N (Ref 0), wal_head = 0, wal_tail = N - 1, current_wal = None\<rparr>"

section \<open>Operations\<close>

definition WALAvailable :: "'l TropoWALManager \<Rightarrow> bool" where
  "WALAvailable m =
     (if wal_head m = wal_tail m then False
      else if wal_head m > wal_tail m then length (wals m) > wal_head m \<or> wal_tail m > 0
      else wal_tail m > wal_head m + 1)"

definition wal_at :: "'l TropoWALManager \<Rightarrow> nat \<Rightarrow> 'l TropoWAL option" where
  "wal_at m i = (if i < length (wals m) then Some (wals m ! i) else None)"

text \<open>The status of closing the previous log is not looked at.\<close>

definition close_current :: "'l szd_log \<Rightarrow> byte \<Rightarrow> 'l TropoWALManager \<Rightarrow> 'l TropoWALManager option" where
  "close_current L junk m =
     (case current_wal m of
        None \<Rightarrow> Some m
      | Some c \<Rightarrow> do {
          w \<leftarrow> wal_at m c;
          (_, w) \<leftarrow> wal_Close L w junk;
          Some (m\<lparr>wals := (wals m)[c := w]\<rparr>)
        })"

definition NewWAL :: "'l szd_log \<Rightarrow> byte \<Rightarrow> 'l TropoWALManager \<Rightarrow> (status \<times> 'l TropoWALManager) option" where
  "NewWAL L junk m =
     (if \<not> WALAvailable m then Some (Busy, m)
      else do {
        m \<leftarrow> close_current L junk m;
        _ \<leftarrow> wal_at m (wal_head m);
        let m = m\<lparr>current_wal := Some (wal_head m)\<rparr>;
        let m = m\<lparr>wal_head := wal_head m + 1\<rparr>;
        Some (OK, if wal_head m = length (wals m) then m\<lparr>wal_head := 0\<rparr> else m)
      })"

definition GetCurrentWAL :: "'l szd_log \<Rightarrow> byte \<Rightarrow> 'l TropoWALManager \<Rightarrow> (nat option \<times> 'l TropoWALManager) option" where
  "GetCurrentWAL L junk m =
     (if current_wal m \<noteq> None then Some (current_wal m, m)
      else do {
        m \<leftarrow>
          (if wal_head m = 0 \<and> wal_tail m = length (wals m) - 1 \<or> wal_head m \<noteq> 0 \<and> wal_head m - 1 = wal_tail m
           then do { (_, m) \<leftarrow> NewWAL L junk m; Some m }
           else do {
             let c = (if wal_head m = 0 then length (wals m) - 1 else wal_head m - 1);
             _ \<leftarrow> wal_at m c;
             Some (m\<lparr>current_wal := Some c\<rparr>)
           });
        Some (current_wal m, m)
      })"

text \<open>The two loops of \<open>ResetOldWALs\<close>. The flag tells that the loop returned because the log at the tail is
  still referenced. The status of the reset is not looked at.\<close>

definition reset_tail :: "'l szd_log \<Rightarrow> 'l TropoWALManager \<Rightarrow> 'l TropoWALManager" where
  "reset_tail L m =
     m\<lparr>wals := (wals m)[wal_tail m := snd (wal_Reset L (wals m ! wal_tail m))], wal_tail := wal_tail m + 1\<rparr>"

lemma reset_tail_simps [simp]:
  "length (wals (reset_tail L m)) = length (wals m)" "wal_tail (reset_tail L m) = Suc (wal_tail m)"
  "wal_head (reset_tail L m) = wal_head m" "wal_refs (reset_tail L m) = wal_refs m"
  "current_wal (reset_tail L m) = current_wal m"
  "wals (reset_tail L m) ! i =
     (if i = wal_tail m \<and> i < length (wals m) then snd (wal_Reset L (wals m ! i)) else wals m ! i)"
  by (auto simp: reset_tail_def nth_list_update) (metis linorder_not_less list_update_beyond nth_list_update_neq)

function reset_upper :: "'l szd_log \<Rightarrow> 'l TropoWALManager \<Rightarrow> bool \<times> 'l TropoWALManager" where
  "reset_upper L m =
     (if wal_tail m < length (wals m) \<and> wal_head m > 0 \<or> wal_tail m < length (wals m) - 1
      then if wal_refs m ! wal_tail m > 1 then (True, m) else reset_upper L (reset_tail L m)
      else (False, m))"
  by pat_completeness auto
termination
  by (relation "measure (\<lambda>(L, m). length (wals m) - wal_tail m)") auto

function reset_lower :: "'l szd_log \<Rightarrow> 'l TropoWALManager \<Rightarrow> 'l TropoWALManager option" where
  "reset_lower L m =
     (if wal_head m > wal_tail m + 2
      then if wal_tail m \<ge> length (wals m) then None
           else if wal_refs m ! wal_tail m > 1 then Some m else reset_lower L (reset_tail L m)
      else Some m)"
  by pat_completeness auto
termination
  by (relation "measure (\<lambda>(L, m). length (wals m) - wal_tail m)") auto

declare reset_upper.simps [simp del] reset_lower.simps [simp del]

definition ResetOldWALs :: "'l szd_log \<Rightarrow> 'l TropoWALManager \<Rightarrow> (status \<times> 'l TropoWALManager) option" where
  "ResetOldWALs L m = do {
     let (returned, m) = (if wal_tail m > wal_head m then reset_upper L m else (False, m));
     if returned then Some (OK, m)
     else do {
       let m = (if wal_tail m = length (wals m) then m\<lparr>wal_tail := 0\<rparr> else m);
       m \<leftarrow> reset_lower L m;
       Some (OK, m)
     }
   }"

section \<open>Recovery\<close>

text \<open>Recovering the write pointers of every log, up to the first that fails.\<close>

fun recover_wals :: "'l szd_log \<Rightarrow> 'l TropoWAL list \<Rightarrow> status \<times> 'l TropoWAL list" where
  "recover_wals L [] = (OK, [])"
| "recover_wals L (w # ws) =
     (let (s, w) = wal_Recover L w in
      if \<not> ok s then (s, w # ws) else let (s, ws) = recover_wals L ws in (s, w # ws))"

text \<open>The scan for head and tail, from index \<open>i\<close>; the list tells which logs are empty.\<close>

fun find_head_tail :: "bool list \<Rightarrow> nat \<Rightarrow> bool \<Rightarrow> bool \<Rightarrow> nat \<times> nat \<Rightarrow> nat \<times> nat" where
  "find_head_tail [] i first_non_empty first_empty (head, tail) = (head, tail)"
| "find_head_tail (emp # es) i first_non_empty first_empty (head, tail) =
     (if \<not> emp \<and> \<not> first_non_empty then
        find_head_tail es (i + 1) True first_empty (i + 1, if i > 0 then i else tail)
      else if \<not> emp \<and> first_empty then (head, i)
      else if \<not> emp \<and> first_non_empty then
        find_head_tail es (i + 1) first_non_empty first_empty (i + 1, tail)
      else if emp \<and> \<not> first_empty \<and> first_non_empty then
        find_head_tail es (i + 1) first_non_empty True (head, tail)
      else find_head_tail es (i + 1) first_non_empty first_empty (head, tail))"

text \<open>The indices the replay loop visits. The fuel is the number of logs; \<open>None\<close> when it does not suffice.\<close>

fun replay_indices :: "nat \<Rightarrow> nat \<Rightarrow> nat \<Rightarrow> nat \<Rightarrow> nat list option" where
  "replay_indices 0 N head i = None"
| "replay_indices (Suc fuel) N head i =
     (if i \<noteq> head then map_option ((#) i) (replay_indices fuel N head (if i = 0 then N - 1 else i - 1))
      else Some [head])"

fun replay_wals ::
  "'l szd_log \<Rightarrow> ('m \<Rightarrow> bytes \<Rightarrow> status \<times> 'm) \<Rightarrow> nat list \<Rightarrow> 'l TropoWALManager \<Rightarrow> status \<Rightarrow> 'm \<Rightarrow> u64 \<Rightarrow>
   (status \<times> 'm \<times> u64 \<times> 'l TropoWALManager) option" where
  "replay_wals L memw [] m s mem seq = Some (s, mem, seq, m)"
| "replay_wals L memw (i # is) m s mem seq = do {
     w \<leftarrow> wal_at m i;
     (s, mem, seq, w) \<leftarrow> wal_Replay L memw w mem seq;
     let m = m\<lparr>wals := (wals m)[i := w]\<rparr>;
     if \<not> ok s then Some (s, mem, seq, m) else replay_wals L memw is m s mem seq
   }"

definition walmgr_Recover ::
  "'l szd_log \<Rightarrow> ('m \<Rightarrow> bytes \<Rightarrow> status \<times> 'm) \<Rightarrow> 'l TropoWALManager \<Rightarrow> 'm \<Rightarrow> u64 \<Rightarrow>
   (status \<times> 'm \<times> u64 \<times> 'l TropoWALManager) option" where
  "walmgr_Recover L memw m mem seq =
     (let (s, ws) = recover_wals L (wals m); m = m\<lparr>wals := ws\<rparr>; N = length ws in
      if \<not> ok s then Some (s, mem, seq, m)
      else do {
        let (head, tail) = find_head_tail (map (\<lambda>w. szd_Empty L (wal_log w)) ws) 0 False False (wal_head m, wal_tail m);
        let head = (if head \<ge> N then 0 else head);
        let m = m\<lparr>wal_head := head, wal_tail := tail\<rparr>;
        is \<leftarrow> replay_indices N N head (if head = 0 then N - 1 else head - 1);
        replay_wals L memw is m s mem seq
      })"

section \<open>The ring\<close>

text \<open>The logs in use, from the tail up to the head. When head and tail coincide all are in use.\<close>

definition in_use :: "'l TropoWALManager \<Rightarrow> nat set" where
  "in_use m = (if wal_tail m < wal_head m then {wal_tail m..<wal_head m}
               else {wal_tail m..<length (wals m)} \<union> {0..<wal_head m})"

definition newest :: "'l TropoWALManager \<Rightarrow> nat" where
  "newest m = (if wal_head m = 0 then length (wals m) - 1 else wal_head m - 1)"

definition ring_wf :: "'l TropoWALManager \<Rightarrow> bool" where
  "ring_wf m \<longleftrightarrow> wal_head m < length (wals m) \<and> wal_tail m < length (wals m) \<and>
     length (wal_refs m) = length (wals m) \<and> (current_wal m = None \<or> current_wal m = Some (newest m))"

definition unused_empty :: "'l szd_log \<Rightarrow> 'l TropoWALManager \<Rightarrow> bool" where
  "unused_empty L m \<longleftrightarrow> (\<forall>i<length (wals m). i \<notin> in_use m \<longrightarrow> szd_Empty L (wal_log (wals m ! i)))"

text \<open>The states a manager goes through: its operations, clients that take and drop references, and
  clients that write to the current log.\<close>

inductive walmgr_reach :: "'l szd_log \<Rightarrow> byte \<Rightarrow> 'l TropoWALManager \<Rightarrow> 'l TropoWALManager \<Rightarrow> bool"
  for L junk m0 where
  start: "walmgr_reach L junk m0 m0"
| new: "walmgr_reach L junk m0 m \<Longrightarrow> NewWAL L junk m = Some (s, m') \<Longrightarrow> walmgr_reach L junk m0 m'"
| get: "walmgr_reach L junk m0 m \<Longrightarrow> GetCurrentWAL L junk m = Some (c, m') \<Longrightarrow> walmgr_reach L junk m0 m'"
| reset: "walmgr_reach L junk m0 m \<Longrightarrow> ResetOldWALs L m = Some (s, m') \<Longrightarrow> walmgr_reach L junk m0 m'"
| client_write: "walmgr_reach L junk m0 m \<Longrightarrow> current_wal m = Some c \<Longrightarrow> walmgr_reach L junk m0 (m\<lparr>wals := (wals m)[c := w]\<rparr>)"
| client_refs: "walmgr_reach L junk m0 m \<Longrightarrow> length rs = length (wal_refs m) \<Longrightarrow> walmgr_reach L junk m0 (m\<lparr>wal_refs := rs\<rparr>)"

text \<open>Resetting moves the tail towards the head and empties the logs it passes.\<close>

definition reset_to :: "'l szd_log \<Rightarrow> 'l TropoWALManager \<Rightarrow> nat \<Rightarrow> 'l TropoWALManager \<Rightarrow> bool" where
  "reset_to L m t m' \<longleftrightarrow>
     wal_tail m \<le> t \<and> wal_tail m' = t \<and> wal_head m' = wal_head m \<and> wal_refs m' = wal_refs m \<and>
     current_wal m' = current_wal m \<and> length (wals m') = length (wals m) \<and>
     (\<forall>i<length (wals m). if wal_tail m \<le> i \<and> i < t
        then wals m' ! i = snd (wal_Reset L (wals m ! i)) \<and> wal_refs m ! i \<le> 1
        else wals m' ! i = wals m ! i)"

lemma reset_to_refl: "reset_to L m (wal_tail m) m"
  by (auto simp: reset_to_def)

lemma reset_to_step:
  "wal_refs m ! wal_tail m \<le> 1 \<Longrightarrow> reset_to L (reset_tail L m) t m' \<Longrightarrow> reset_to L m t m'"
  by (auto simp: reset_to_def split: if_splits)

lemma reset_upper_spec:
  "reset_upper L m = (r, m') \<Longrightarrow> wal_tail m < length (wals m) \<Longrightarrow>
   \<exists>t. reset_to L m t m' \<and> t \<le> length (wals m) \<and> (r \<longrightarrow> t < length (wals m) \<and> wal_refs m ! t > 1) \<and>
       (\<not> r \<longrightarrow> length (wals m) - 1 \<le> t) \<and> (wal_head m = 0 \<longrightarrow> t < length (wals m)) \<and> (\<not> r \<and> wal_head m > 0 \<longrightarrow> t = length (wals m))"
proof (induction L m rule: reset_upper.induct)
  case (1 L m)
  let ?c = "wal_tail m < length (wals m) \<and> wal_head m > 0 \<or> wal_tail m < length (wals m) - 1"
  show ?case
  proof (cases "?c \<and> \<not> wal_refs m ! wal_tail m > 1")
    case True
    then have e: "reset_upper L (reset_tail L m) = (r, m')"
      using "1.prems"(1) by (subst (asm) reset_upper.simps) simp
    show ?thesis
    proof (cases "Suc (wal_tail m) < length (wals m)")
      case lt: True
      obtain t where "reset_to L (reset_tail L m) t m'" "t \<le> length (wals m)" "r \<longrightarrow> t < length (wals m) \<and> wal_refs m ! t > 1" "\<not> r \<longrightarrow> length (wals m) - 1 \<le> t"
        "wal_head m = 0 \<longrightarrow> t < length (wals m)" "\<not> r \<and> wal_head m > 0 \<longrightarrow> t = length (wals m)"
        using "1.IH" True e lt by auto
      then show ?thesis using reset_to_step [of m L t m'] True by auto
    next
      case False
      then have "(r, m') = (False, reset_tail L m)"
        using e True by (subst (asm) reset_upper.simps) (auto split: if_splits)
      then show ?thesis
        using reset_to_step [of m L "Suc (wal_tail m)" "reset_tail L m"] reset_to_refl [of L "reset_tail L m"] True False
        by (intro exI [of _ "Suc (wal_tail m)"]) auto
    qed
  next
    case False
    then have "m' = m" "r \<longleftrightarrow> ?c" using "1.prems"(1) by (subst (asm) reset_upper.simps, auto split: if_splits)+
    then show ?thesis using "1.prems"(2) False reset_to_refl by (auto intro!: exI [of _ "wal_tail m"])
  qed
qed

lemma reset_lower_spec:
  "wal_head m \<le> length (wals m) \<Longrightarrow> \<exists>m' t. reset_lower L m = Some m' \<and> reset_to L m t m' \<and> (t = wal_tail m \<or> t + 2 \<le> wal_head m) \<and>
    (wal_head m \<le> t + 2 \<or> wal_refs m ! t > 1)"
proof (induction L m rule: reset_lower.induct)
  case (1 L m)
  show ?case
  proof (cases "wal_head m > wal_tail m + 2 \<and> \<not> wal_refs m ! wal_tail m > 1")
    case True
    then obtain m' t where "reset_lower L (reset_tail L m) = Some m'" "reset_to L (reset_tail L m) t m'"
      "t = Suc (wal_tail m) \<or> t + 2 \<le> wal_head m" "wal_head m \<le> t + 2 \<or> wal_refs m ! t > 1"
      using "1.IH" "1.prems" by auto
    moreover have "reset_lower L m = reset_lower L (reset_tail L m)"
      using True "1.prems" by (subst reset_lower.simps) simp
    ultimately show ?thesis using True reset_to_step [of m L t m'] by (intro exI [of _ m'] exI [of _ t]) auto
  next
    case False
    then show ?thesis using "1.prems" reset_to_refl by (subst reset_lower.simps) (auto intro!: exI [of _ "wal_tail m"])
  qed
qed

text \<open>A reset empties the log.\<close>

definition reset_empties :: "'l szd_log \<Rightarrow> bool" where
  "reset_empties L \<longleftrightarrow> (\<forall>l. szd_Empty L (snd (szd_ResetAll L l)))"

lemma wal_Reset_empty: "reset_empties L \<Longrightarrow> szd_Empty L (wal_log (snd (wal_Reset L w)))"
  unfolding reset_empties_def wal_Reset_def by (cases "szd_ResetAll L (wal_log w)") (auto, metis snd_conv)

lemma reset_to_empty:
  assumes "unused_empty L m" and "reset_to L m t m'" and "reset_empties L" and "i < length (wals m)"
    and "i \<in> in_use m \<longrightarrow> wal_tail m \<le> i \<and> i < t"
  shows "szd_Empty L (wal_log (wals m' ! i))"
proof (cases "wal_tail m \<le> i \<and> i < t")
  case True
  then have "wals m' ! i = snd (wal_Reset L (wals m ! i))" using assms(2,4) by (simp add: reset_to_def)
  then show ?thesis using wal_Reset_empty [OF assms(3)] by simp
next
  case False
  then have "wals m' ! i = wals m ! i" using assms(2,4) unfolding reset_to_def by presburger
  then show ?thesis using False assms by (auto simp: unused_empty_def)
qed

lemma reset_to_unused:
  assumes "ring_wf m" and "unused_empty L m" and r: "reset_to L m t m'" and "reset_empties L"
    and "t < length (wals m)" and "wal_tail m < wal_head m \<longrightarrow> t < wal_head m"
  shows "unused_empty L m'"
  unfolding unused_empty_def
proof (intro allI impI)
  fix i
  assume i: "i < length (wals m')" "i \<notin> in_use m'"
  have eq: "wal_head m' = wal_head m" "wal_tail m' = t" "length (wals m') = length (wals m)" "wal_tail m \<le> t"
    using r by (auto simp: reset_to_def)
  show "szd_Empty L (wal_log (wals m' ! i))"
    by (rule reset_to_empty [OF assms(2-4)])
      (use i eq assms(1,5,6) in \<open>auto simp: in_use_def ring_wf_def split: if_splits\<close>)
qed

lemma reset_to_wrap:
  assumes "ring_wf m" and "unused_empty L m" and r: "reset_to L m (length (wals m)) m'" and "reset_empties L"
    and "wal_head m < wal_tail m" and "0 < wal_head m"
  shows "unused_empty L (m'\<lparr>wal_tail := 0\<rparr>)"
  unfolding unused_empty_def
proof (intro allI impI)
  fix i
  assume i: "i < length (wals (m'\<lparr>wal_tail := 0\<rparr>))" "i \<notin> in_use (m'\<lparr>wal_tail := 0\<rparr>)"
  have eq: "wal_head m' = wal_head m" "length (wals m') = length (wals m)" using r by (auto simp: reset_to_def)
  have "i < length (wals m)" "wal_head m \<le> i" using i eq assms(6) by (simp_all add: in_use_def)
  then have "szd_Empty L (wal_log (wals m' ! i))"
    by (intro reset_to_empty [OF assms(2-4)]) (use assms(5) in \<open>simp_all add: in_use_def\<close>)
  then show "szd_Empty L (wal_log (wals (m'\<lparr>wal_tail := 0\<rparr>) ! i))" by simp
qed

lemma reset_to_changed:
  assumes "reset_to L m t m'" and "i < length (wals m)" and "wals m' ! i \<noteq> wals m ! i"
  shows "wal_refs m ! i \<le> 1 \<and> wal_tail m \<le> i \<and> i < t"
proof (rule ccontr)
  assume "\<not> ?thesis"
  moreover have "if wal_tail m \<le> i \<and> i < t
        then wals m' ! i = snd (wal_Reset L (wals m ! i)) \<and> wal_refs m ! i \<le> 1
        else wals m' ! i = wals m ! i"
    using assms(1,2) unfolding reset_to_def by blast
  ultimately show False using assms(3) by (auto split: if_splits)
qed

lemma reset_to_wf:
  assumes "ring_wf m" and "reset_to L m t m'" and "t < length (wals m)"
  shows "ring_wf m'" and "newest m' = newest m"
  using assms by (auto simp: ring_wf_def reset_to_def newest_def)

text \<open>What a reset of old logs keeps: the shape of the ring, that unused logs are empty, and every log
  that is referenced or the newest.\<close>

definition reset_ok :: "'l szd_log \<Rightarrow> 'l TropoWALManager \<Rightarrow> 'l TropoWALManager \<Rightarrow> bool" where
  "reset_ok L m m' \<longleftrightarrow> ring_wf m' \<and> length (wals m') = length (wals m) \<and> wal_refs m' = wal_refs m \<and> newest m' = newest m \<and>
     (reset_empties L \<and> unused_empty L m \<longrightarrow> unused_empty L m') \<and>
     (\<forall>i<length (wals m). wals m' ! i \<noteq> wals m ! i \<longrightarrow> wal_refs m ! i \<le> 1 \<and> i \<noteq> newest m)"

lemma reset_ok_refl: "ring_wf m \<Longrightarrow> reset_ok L m m"
  by (simp add: reset_ok_def)

lemma reset_ok_trans: "reset_ok L m m1 \<Longrightarrow> reset_ok L m1 m2 \<Longrightarrow> reset_ok L m m2"
  unfolding reset_ok_def by metis

lemma reset_to_ok:
  assumes "ring_wf m" and "reset_to L m t m'" and "t < length (wals m)"
    and "wal_tail m < wal_head m \<longrightarrow> t < wal_head m" and "\<not> (wal_tail m \<le> newest m \<and> newest m < t)"
  shows "reset_ok L m m'"
proof -
  have "length (wals m') = length (wals m)" "wal_refs m' = wal_refs m" using assms(2) by (auto simp: reset_to_def)
  moreover have "wal_refs m ! i \<le> 1 \<and> i \<noteq> newest m" if "i < length (wals m)" "wals m' ! i \<noteq> wals m ! i" for i
    using reset_to_changed [OF assms(2) that] assms(5) by auto
  ultimately show ?thesis
    using reset_to_wf [OF assms(1-3)] reset_to_unused [OF assms(1) _ assms(2) _ assms(3,4)] by (auto simp: reset_ok_def)
qed

lemma reset_lower_ok:
  assumes "ring_wf m" and "\<not> wal_head m < wal_tail m"
  shows "\<exists>m'. reset_lower L m = Some m' \<and> reset_ok L m m'"
proof -
  obtain m' t where r: "reset_lower L m = Some m'" "reset_to L m t m'" "t = wal_tail m \<or> t + 2 \<le> wal_head m"
    using reset_lower_spec [of m L] assms(1) by (auto simp: ring_wf_def)
  have "reset_ok L m m'"
    by (rule reset_to_ok [OF assms(1) r(2)]) (use r(3) assms in \<open>auto simp: ring_wf_def newest_def\<close>)
  with r(1) show ?thesis by blast
qed

lemma reset_upper_ok:
  assumes wf: "ring_wf m" and ht: "wal_head m < wal_tail m" and u: "reset_upper L m = (r, m1)"
  defines "m2 \<equiv> (if wal_tail m1 = length (wals m1) then m1\<lparr>wal_tail := 0\<rparr> else m1)"
  shows "(r \<longrightarrow> m2 = m1) \<and> reset_ok L m m2 \<and> (r \<or> \<not> wal_head m2 < wal_tail m2 \<or> wal_head m2 = 0)"
proof -
  have len: "wal_tail m < length (wals m)" using wf by (simp add: ring_wf_def)
  obtain t where t: "reset_to L m t m1" "t \<le> length (wals m)" "r \<longrightarrow> t < length (wals m)"
    "wal_head m = 0 \<longrightarrow> t < length (wals m)" "\<not> r \<and> wal_head m > 0 \<longrightarrow> t = length (wals m)"
    using reset_upper_spec [OF u len] by auto
  have eq: "wal_head m1 = wal_head m" "wal_tail m1 = t" "length (wals m1) = length (wals m)" "wal_refs m1 = wal_refs m"
    "current_wal m1 = current_wal m"
    using t(1) by (auto simp: reset_to_def)
  show ?thesis
  proof (cases "t < length (wals m)")
    case True
    have "reset_ok L m m1"
      by (rule reset_to_ok [OF wf t(1) True]) (use True t ht in \<open>auto simp: newest_def\<close>)
    then show ?thesis using True eq t(5) by (auto simp: m2_def)
  next
    case False
    then have full: "t = length (wals m)" "\<not> r" "0 < wal_head m" using t(2-4) by auto
    have m2: "m2 = m1\<lparr>wal_tail := 0\<rparr>" using full eq by (simp add: m2_def)
    have "wal_refs m ! i \<le> 1 \<and> i \<noteq> newest m" if "i < length (wals m)" "wals m2 ! i \<noteq> wals m ! i" for i
      using reset_to_changed [OF t(1), of i] that ht full by (auto simp: m2 newest_def)
    then show ?thesis
      using wf eq full reset_to_wrap [OF wf _ t(1) [unfolded full(1)] _ ht full(3)]
      by (auto simp: m2 reset_ok_def ring_wf_def newest_def)
  qed
qed

lemma ResetOldWALs_ok:
  assumes wf: "ring_wf m"
  shows "\<exists>m'. ResetOldWALs L m = Some (OK, m') \<and> reset_ok L m m'"
proof (cases "wal_head m < wal_tail m")
  case False
  then have "wal_tail m \<noteq> length (wals m)" using wf by (auto simp: ring_wf_def)
  moreover obtain m' where "reset_lower L m = Some m'" "reset_ok L m m'" using reset_lower_ok [OF wf False] by blast
  ultimately show ?thesis using False by (simp add: ResetOldWALs_def)
next
  case True
  obtain r m1 where u: "reset_upper L m = (r, m1)" by force
  define m2 where "m2 = (if wal_tail m1 = length (wals m1) then m1\<lparr>wal_tail := 0\<rparr> else m1)"
  have 2: "r \<longrightarrow> m2 = m1" "reset_ok L m m2" "r \<or> \<not> wal_head m2 < wal_tail m2 \<or> wal_head m2 = 0"
    using reset_upper_ok [OF wf True u, folded m2_def] by simp_all
  have wf2: "ring_wf m2" using 2(2) by (simp add: reset_ok_def)
  have e: "ResetOldWALs L m = (if r then Some (OK, m1) else do { m \<leftarrow> reset_lower L m2; Some (OK, m) })"
    using True u by (simp add: ResetOldWALs_def m2_def)
  have "\<exists>m'. reset_lower L m2 = Some m' \<and> reset_ok L m2 m'" if "\<not> r"
  proof (cases "wal_head m2 = 0")
    case True
    then have "reset_lower L m2 = Some m2" by (subst reset_lower.simps) simp
    then show ?thesis using reset_ok_refl [OF wf2] by blast
  next
    case False
    then have "\<not> wal_head m2 < wal_tail m2" using 2(3) that by simp
    then show ?thesis by (rule reset_lower_ok [OF wf2])
  qed
  then show ?thesis using e 2(1,2) reset_ok_trans [OF 2(2)] by (cases r) auto
qed

lemma newest_in_use: "ring_wf m \<Longrightarrow> newest m \<in> in_use m"
  by (auto simp: ring_wf_def newest_def in_use_def)

lemma close_current_spec:
  assumes "ring_wf m" and "close_current L junk m = Some m'"
  shows "\<exists>w. m' = m\<lparr>wals := (wals m)[newest m := w]\<rparr>"
proof (cases "current_wal m")
  case None
  then show ?thesis using assms by (auto simp: close_current_def intro!: exI [of _ "wals m ! newest m"])
next
  case (Some c)
  then show ?thesis using assms by (auto simp: close_current_def ring_wf_def bind_eq_Some_conv)
qed

lemma ring_wf_write: "ring_wf (m\<lparr>wals := (wals m)[c := w]\<rparr>) = ring_wf m"
  by (simp add: ring_wf_def newest_def)

lemma in_use_write: "in_use (m\<lparr>wals := (wals m)[c := w]\<rparr>) = in_use m"
  by (simp add: in_use_def)

lemma unused_empty_write:
  "unused_empty L m \<Longrightarrow> c \<in> in_use m \<Longrightarrow> unused_empty L (m\<lparr>wals := (wals m)[c := w]\<rparr>)"
  by (auto simp: unused_empty_def in_use_def nth_list_update)

text \<open>The step to the next log.\<close>

definition advance :: "'l TropoWALManager \<Rightarrow> 'l TropoWALManager" where
  "advance m = m\<lparr>current_wal := Some (wal_head m),
     wal_head := (if wal_head m + 1 = length (wals m) then 0 else wal_head m + 1)\<rparr>"

lemma advance_wf: "ring_wf m \<Longrightarrow> ring_wf (advance m)"
  by (auto simp: ring_wf_def advance_def newest_def)

lemma in_use_advance: "ring_wf m \<Longrightarrow> wal_head m \<noteq> wal_tail m \<Longrightarrow> in_use (advance m) = insert (wal_head m) (in_use m)"
  by (auto simp: ring_wf_def advance_def in_use_def)

lemma head_not_in_use: "wal_head m \<noteq> wal_tail m \<Longrightarrow> wal_head m \<notin> in_use m"
  by (auto simp: in_use_def)

lemma NewWAL_spec:
  assumes wf: "ring_wf m" and n: "NewWAL L junk m = Some (s, m')"
  shows "s = Busy \<and> m' = m \<and> \<not> WALAvailable m \<or>
    s = OK \<and> wal_head m \<noteq> wal_tail m \<and> (\<exists>w. m' = advance (m\<lparr>wals := (wals m)[newest m := w]\<rparr>))"
proof (cases "WALAvailable m")
  case False
  then show ?thesis using n by (simp add: NewWAL_def)
next
  case True
  then obtain m1 where c: "close_current L junk m = Some m1" and rest: "s = OK" "m' = advance m1"
    using n by (auto simp: NewWAL_def bind_eq_Some_conv Let_def advance_def split: if_splits)
  then show ?thesis
    using close_current_spec [OF wf c] True by (auto simp: WALAvailable_def split: if_splits)
qed

lemma NewWAL_inv:
  assumes wf: "ring_wf m" and e: "unused_empty L m" and n: "NewWAL L junk m = Some (s, m')"
  shows "ring_wf m'" and "unused_empty L m'"
    and "s = OK \<Longrightarrow> current_wal m' = Some (wal_head m) \<and> wal_head m \<notin> in_use m \<and> szd_Empty L (wal_log (wals m' ! wal_head m))"
proof -
  have "ring_wf m' \<and> unused_empty L m' \<and> (s = OK \<longrightarrow> current_wal m' = Some (wal_head m) \<and> wal_head m \<notin> in_use m \<and>
      szd_Empty L (wal_log (wals m' ! wal_head m)))"
    using NewWAL_spec [OF wf n]
  proof (elim disjE conjE exE)
    fix w
    let ?m = "m\<lparr>wals := (wals m)[newest m := w]\<rparr>"
    assume ne: "wal_head m \<noteq> wal_tail m" and m': "m' = advance ?m"
    note out = head_not_in_use [OF ne]
    have wf1: "ring_wf ?m" and e1: "unused_empty L ?m"
      using wf e newest_in_use [OF wf] by (simp_all add: ring_wf_write unused_empty_write)
    have "szd_Empty L (wal_log (wals ?m ! wal_head m))"
      using e1 out wf by (simp add: unused_empty_def ring_wf_def in_use_write)
    moreover have "unused_empty L m'"
      using e1 in_use_advance [OF wf1] ne by (simp add: m' unused_empty_def) (simp add: advance_def)
    ultimately show ?thesis
      using advance_wf [OF wf1] out by (simp add: m') (simp add: advance_def)
  qed (use wf e in auto)
  then show "ring_wf m'" and "unused_empty L m'"
    and "s = OK \<Longrightarrow> current_wal m' = Some (wal_head m) \<and> wal_head m \<notin> in_use m \<and> szd_Empty L (wal_log (wals m' ! wal_head m))"
    by auto
qed

lemma GetCurrentWAL_inv:
  assumes wf: "ring_wf m" and e: "unused_empty L m" and g: "GetCurrentWAL L junk m = Some (c, m')"
  shows "ring_wf m' \<and> unused_empty L m'"
proof -
  have "ring_wf (m\<lparr>current_wal := Some (newest m)\<rparr>)" "unused_empty L (m\<lparr>current_wal := Some (newest m)\<rparr>)"
    using wf e by (auto simp: ring_wf_def newest_def unused_empty_def in_use_def)
  then show ?thesis
    using g wf e NewWAL_inv(1,2) [OF wf e]
    by (auto simp: GetCurrentWAL_def bind_eq_Some_conv Let_def newest_def split: if_splits)
qed

lemma walmgr_reach_inv:
  assumes "walmgr_reach L junk m0 m" and "reset_empties L" and "ring_wf m0" and "unused_empty L m0"
  shows "ring_wf m \<and> unused_empty L m"
  using assms(1)
proof induction
  case (reset m s m')
  then show ?case using ResetOldWALs_ok [of m L] assms(2) by (auto simp: reset_ok_def)
next
  case (client_write m c w)
  then have "c \<in> in_use m" using newest_in_use [of m] by (auto simp: ring_wf_def)
  then show ?case using client_write by (simp add: ring_wf_write unused_empty_write)
next
  case (client_refs m rs)
  then show ?case by (auto simp: ring_wf_def newest_def unused_empty_def in_use_def)
qed (use assms NewWAL_inv GetCurrentWAL_inv in blast)+

lemma walmgr_init_inv:
  assumes "0 < N" and "\<forall>i<N. szd_Empty L (logs i)"
  shows "ring_wf (TropoWALManager_init logs N lba junk0)" and "unused_empty L (TropoWALManager_init logs N lba junk0)"
  using assms by (auto simp: ring_wf_def unused_empty_def TropoWALManager_init_def TropoWAL_init_def)

section \<open>Recovery\<close>

lemma replay_indices_upper:
  "head \<le> i \<Longrightarrow> i - head < fuel \<Longrightarrow> replay_indices fuel N head i = Some (rev [head..<Suc i])"
proof (induction fuel arbitrary: i)
  case (Suc fuel)
  show ?case
  proof (cases "i = head")
    case False
    then obtain j where "i = Suc j" "head \<le> j" using Suc.prems(1) by (cases i) auto
    then show ?thesis using Suc.IH [of j] Suc.prems by simp
  qed simp
qed simp

lemma replay_indices_lower:
  "i < head \<Longrightarrow> head < N \<Longrightarrow> i + N - head < fuel \<Longrightarrow>
   replay_indices fuel N head i = Some (rev [0..<Suc i] @ rev [head..<N])"
proof (induction fuel arbitrary: i)
  case (Suc fuel)
  show ?case
  proof (cases i)
    case 0
    then show ?thesis using Suc.prems replay_indices_upper [of head "N - 1" fuel N] by simp
  next
    case (Suc j)
    then show ?thesis using Suc.IH [of j] Suc.prems by simp
  qed
qed simp

lemma replay_indices_all:
  assumes "head < N"
  shows "replay_indices N N head (if head = 0 then N - 1 else head - 1) = Some (rev [0..<head] @ rev [head..<N])"
  using assms replay_indices_lower [of "head - 1" head N N] replay_indices_upper [of 0 "N - 1" N N] by (cases "head = 0") auto

lemma recover_wals_length: "recover_wals L ws = (s, ws') \<Longrightarrow> length ws' = length ws"
  by (induction ws arbitrary: s ws') (auto split: prod.splits if_splits)

section \<open>Progress\<close>

lemma ResetOldWALs_settled:
  assumes wf: "ring_wf m" and ne: "wal_head m \<noteq> wal_tail m" and refs: "\<forall>i<length (wals m). wal_refs m ! i \<le> 1"
  shows "\<exists>m'. ResetOldWALs L m = Some (OK, m') \<and> wal_head m' = wal_head m \<and>
    (wal_tail m' < wal_head m' \<and> wal_head m' \<le> wal_tail m' + 2 \<or> wal_head m' = 0 \<and> wal_tail m' = length (wals m) - 1)"
proof -
  have lower: "\<exists>m'. reset_lower L m1 = Some m' \<and> wal_head m' = wal_head m1 \<and> wal_tail m' < wal_head m' \<and> wal_head m' \<le> wal_tail m' + 2"
    if "wal_tail m1 < wal_head m1" "wal_head m1 < length (wals m)" "length (wals m1) = length (wals m)" "wal_refs m1 = wal_refs m" for m1
  proof -
    have le: "wal_head m1 \<le> length (wals m1)" using that by simp
    obtain m' t where r: "reset_lower L m1 = Some m'" "reset_to L m1 t m'" "t = wal_tail m1 \<or> t + 2 \<le> wal_head m1"
      "wal_head m1 \<le> t + 2 \<or> wal_refs m1 ! t > 1"
      using reset_lower_spec [OF le, of L] by blast
    then have "t < length (wals m)" using that by auto
    with refs have "\<not> wal_refs m1 ! t > 1" using that(4) by (simp add: linorder_not_less)
    with r that show ?thesis by (auto simp: reset_to_def)
  qed
  have b: "wal_head m < length (wals m)" "wal_tail m < length (wals m)" using wf by (auto simp: ring_wf_def)
  show ?thesis
  proof (cases "wal_head m < wal_tail m")
    case False
    then show ?thesis using lower [of m] ne b by (auto simp: ResetOldWALs_def)
  next
    case True
    obtain r m1 where u: "reset_upper L m = (r, m1)" by force
    obtain t where t: "reset_to L m t m1" "t \<le> length (wals m)" "r \<longrightarrow> t < length (wals m) \<and> wal_refs m ! t > 1"
      "\<not> r \<longrightarrow> length (wals m) - 1 \<le> t" "wal_head m = 0 \<longrightarrow> t < length (wals m)" "\<not> r \<and> wal_head m > 0 \<longrightarrow> t = length (wals m)"
      using reset_upper_spec [OF u b(2)] by auto
    have r: "\<not> r" using t(3) refs by (auto simp: not_less [symmetric])
    have eq: "wal_head m1 = wal_head m" "wal_tail m1 = t" "length (wals m1) = length (wals m)" "wal_refs m1 = wal_refs m"
      using t(1) by (auto simp: reset_to_def)
    show ?thesis
    proof (cases "wal_head m = 0")
      case h: True
      have "reset_lower L m1 = Some m1" using h eq by (subst reset_lower.simps) simp
      then show ?thesis using u r True t eq h by (auto simp: ResetOldWALs_def)
    next
      case h: False
      obtain m' where "reset_lower L (m1\<lparr>wal_tail := 0\<rparr>) = Some m'" "wal_head m' = wal_head m" "wal_tail m' < wal_head m'"
        "wal_head m' \<le> wal_tail m' + 2"
        using lower [of "m1\<lparr>wal_tail := 0\<rparr>"] h eq b by auto
      then show ?thesis using u r True t eq h by (auto simp: ResetOldWALs_def)
    qed
  qed
qed

section \<open>Properties\<close>


text \<open>C10: Resetting old logs is total and touches no live log: it always succeeds without leaving the
  array, and each log it changes is neither the most recent one nor referenced by a client.\<close>

theorem reset_keeps_live_wals:
  assumes "reset_empties L" and "0 < N" and "\<forall>i<N. szd_Empty L (logs i)"
    and "walmgr_reach L junk (TropoWALManager_init logs N lba junk0) m"
  shows "\<exists>m'. ResetOldWALs L m = Some (OK, m') \<and>
    (\<forall>i<length (wals m). wals m' ! i \<noteq> wals m ! i \<longrightarrow> wal_refs m ! i \<le> 1 \<and> current_wal m \<noteq> Some i)"
proof -
  have wf: "ring_wf m"
    using walmgr_reach_inv [OF assms(4,1)] walmgr_init_inv [OF assms(2,3)] by blast
  obtain m' where "ResetOldWALs L m = Some (OK, m')" "reset_ok L m m'" using ResetOldWALs_ok [OF wf] by blast
  then show ?thesis using wf by (auto simp: reset_ok_def ring_wf_def)
qed




text \<open>Evaluation on the in-memory log.\<close>

definition demo_wal :: "bytes list TropoWAL" where
  "demo_wal = TropoWAL_init [] 512 wal_buffered_pages wal_allow_buffering wal_allow_group_commit wal_unordered 0"

definition demo_ring :: "nat \<Rightarrow> nat \<Rightarrow> nat \<Rightarrow> nat option \<Rightarrow> bytes list TropoWALManager" where
  "demo_ring N head tail cur =
     \<lparr>wals = replicate N demo_wal, wal_refs = replicate N 1, wal_head = head, wal_tail = tail, current_wal = cur\<rparr>"

lemma demo_wal_simps:
  "wal_Close piece_log demo_wal 0 = Some (OK, demo_wal)" "wal_Reset piece_log demo_wal = (OK, demo_wal)"
  "wal_Recover piece_log demo_wal = (OK, demo_wal)" "szd_Empty piece_log (wal_log demo_wal)"
  by (simp_all add: demo_wal_def TropoWAL_init_def wal_Close_def wal_Sync_def DataSync_def wal_MarkInactive_def
      wal_Reset_def wal_Recover_def piece_log_def FromStatus_def)

lemma demo_ring_init: "TropoWALManager_init (\<lambda>i. []) N 512 0 = demo_ring N 0 (N - 1) None"
  by (simp add: TropoWALManager_init_def demo_ring_def demo_wal_def Ref_def map_replicate_const)

lemma demo_ring_fields [simp]:
  "wals (demo_ring N h t c) = replicate N demo_wal" "wal_refs (demo_ring N h t c) = replicate N 1"
  "wal_head (demo_ring N h t c) = h" "wal_tail (demo_ring N h t c) = t" "current_wal (demo_ring N h t c) = c"
  by (simp_all add: demo_ring_def)

lemma demo_update: "(replicate N demo_wal)[c := demo_wal] = replicate N demo_wal"
  by (cases "c < N") (auto simp: list_eq_iff_nth_eq nth_list_update)

lemma demo_close: "c < N \<Longrightarrow> close_current piece_log 0 (demo_ring N h t (Some c)) = Some (demo_ring N h t (Some c))"
  by (simp add: close_current_def wal_at_def demo_wal_simps) (simp add: demo_ring_def demo_update)

lemma demo_new:
  assumes "WALAvailable (demo_ring N h t c)" and "h < N" and "c = None \<or> c = Some j \<and> j < N"
  shows "NewWAL piece_log 0 (demo_ring N h t c) = Some (OK, demo_ring N (if h + 1 = N then 0 else h + 1) t (Some h))"
proof -
  have "close_current piece_log 0 (demo_ring N h t c) = Some (demo_ring N h t c)"
    using assms(3) demo_close by (auto simp: close_current_def)
  then show ?thesis
    using assms(1,2) by (simp add: NewWAL_def wal_at_def demo_ring_def)
qed

lemma demo_reset_tail: "t < N \<Longrightarrow> reset_tail piece_log (demo_ring N h t c) = demo_ring N h (Suc t) c"
  by (simp add: reset_tail_def demo_ring_def demo_wal_simps demo_update)

lemma reset_empties_piece: "reset_empties piece_log"
  by (simp add: reset_empties_def piece_log_def)


theorem reset_keeps_live_wals_witness:
  "\<exists>m'. ResetOldWALs piece_log (TropoWALManager_init (\<lambda>i. []) 4 512 0) = Some (OK, m')"
proof -
  have e: "\<forall>i<(4 :: nat). szd_Empty piece_log []" by (simp add: piece_log_def)
  from reset_keeps_live_wals [OF reset_empties_piece _ e walmgr_reach.start [of piece_log 0], of 512 0] show ?thesis by auto
qed




end
