(* ===== verification/Manifest.thy ===== *)
theory Manifest
  imports Committer Config
begin

text \<open>
  The manifest (\<open>persistence/tropodb_manifest.cc\<close>): a circular log that holds snapshots of the metadata and,
  behind each installed snapshot, a \<open>CURRENT\<close> record that points to it. \<open>NewManifest\<close> writes a snapshot,
  \<open>SetCurrent\<close> installs it, \<open>Recover\<close> looks backwards from the write head for the last valid \<open>CURRENT\<close>,
  \<open>ReadManifest\<close> reads the snapshot it names. Block addresses and counts are natural numbers; they are
  64-bit words where they are stored. Assertions are compiled out.

  The lemmas show that an installed snapshot is found and read back after a restart, and that a
  snapshot that was written but not installed is passed over.
\<close>

section \<open>State\<close>

record 'l TropoManifest =
  manifest_start :: nat
  manifest_blocks :: nat
  manifest_start_new :: nat
  manifest_blocks_new :: nat
  deleted_range_begin :: nat
  deleted_range_blocks :: nat
  man_log :: 'l
  man_committer :: TropoCommitter
  min_zone_head :: nat
  max_zone_head :: nat
  man_zone_cap :: nat

text \<open>The committer keeps its buffers and has one reader.\<close>

definition TropoManifest_init :: "'l \<Rightarrow> nat \<Rightarrow> nat \<Rightarrow> nat \<Rightarrow> nat \<Rightarrow> 'l TropoManifest" where
  "TropoManifest_init l lba zone_cap min_zone_nr max_zone_nr =
     \<lparr>manifest_start = max_zone_nr * zone_cap, manifest_blocks = 0, manifest_start_new = 0, manifest_blocks_new = 0,
      deleted_range_begin = 0, deleted_range_blocks = 0, man_log = l, man_committer = TropoCommitter_init lba 1 True,
      min_zone_head = min_zone_nr * zone_cap, max_zone_head = max_zone_nr * zone_cap, man_zone_cap = zone_cap\<rparr>"

text \<open>\<open>"CURRENT:"\<close>\<close>

definition current_preamble :: bytes where
  "current_preamble = [0x43, 0x55, 0x52, 0x52, 0x45, 0x4e, 0x54, 0x3a]"

section \<open>Writing\<close>

definition NewManifest ::
  "'l szd_log \<Rightarrow> szd_buffer \<Rightarrow> 'l TropoManifest \<Rightarrow> bytes \<Rightarrow> (status \<times> 'l TropoManifest) option" where
  "NewManifest L B m record =
     (if \<not> SpaceEnough L (man_committer m) (man_log m) (length record) then Some (NoSpace, m)
      else do {
        let m = m\<lparr>manifest_start_new := szd_GetWriteHead L (man_log m)\<rparr>;
        (s, blocks, c, l) \<leftarrow> SafeCommit L B (man_committer m) (man_log m) (manifest_blocks_new m) record;
        Some (s, m\<lparr>manifest_blocks_new := blocks, man_committer := c, man_log := l\<rparr>)
      })"

text \<open>The text of a \<open>CURRENT\<close> record.\<close>

definition current_record :: "nat \<Rightarrow> nat \<Rightarrow> nat \<Rightarrow> nat \<Rightarrow> bytes" where
  "current_record a b c d =
     PutFixed64 (PutFixed64 (PutFixed64 (PutFixed64 current_preamble (word_of_nat a)) (word_of_nat b))
       (word_of_nat c)) (word_of_nat d)"

text \<open>Reclaiming whole zones of the deleted range; a failure is logged and otherwise ignored.\<close>

definition reclaim :: "'l szd_log \<Rightarrow> 'l TropoManifest \<Rightarrow> 'l TropoManifest" where
  "reclaim L m =
     (let delete_blocks = (deleted_range_blocks m div man_zone_cap m) * man_zone_cap m in
      if delete_blocks \<noteq> 0 then
        let (_, l) = szd_ConsumeTail L (man_log m) (deleted_range_begin m) (deleted_range_begin m + delete_blocks)
        in m\<lparr>man_log := l, deleted_range_blocks := deleted_range_blocks m - delete_blocks\<rparr>
      else m)"

definition SetCurrent :: "'l szd_log \<Rightarrow> szd_buffer \<Rightarrow> 'l TropoManifest \<Rightarrow> (status \<times> 'l TropoManifest) option" where
  "SetCurrent L B m = do {
     let m = reclaim L m;
     let m = m\<lparr>deleted_range_begin := szd_GetWriteTail L (man_log m),
               deleted_range_blocks := deleted_range_blocks m + (manifest_blocks m + 1)\<rparr>;
     let current_name = current_record (manifest_start_new m) (manifest_blocks_new m)
                          (deleted_range_begin m) (deleted_range_blocks m);
     (s, _, c, l) \<leftarrow> SafeCommit L B (man_committer m) (man_log m) 0 current_name;
     let m = m\<lparr>man_committer := c, man_log := l\<rparr>;
     if \<not> ok s then Some (s, m)
     else Some (s, m\<lparr>manifest_start := manifest_start_new m, manifest_blocks := manifest_blocks_new m\<rparr>)
   }"

section \<open>Recovery\<close>

text \<open>\<open>TryParseCurrent\<close> on one block. Its four results are fields of the manifest, which it also sets when
  the pointers turn out to be invalid. The slice it decodes is declared 33 bytes long, whatever the
  length of the record: the four reads of 8 bytes never find it too short.\<close>

definition TryParseCurrent ::
  "'l szd_log \<Rightarrow> szd_buffer \<Rightarrow> 'l TropoManifest \<Rightarrow> nat \<Rightarrow> TropoCommitReader \<Rightarrow>
   (status \<times> 'l TropoManifest \<times> TropoCommitReader) option" where
  "TryParseCurrent L B m slba reader = do {
     let (_, c, reader) = GetCommitReader B (man_committer m) deadbeef 0 slba (slba + 1) reader;
     (c, reader, found, potential) \<leftarrow> SeekCommitReader L B (man_log m) c reader;
     let m = m\<lparr>man_committer := c\<rparr>;
     if \<not> found then Some (Corruption, m, reader)
     else if length potential < length current_preamble then Some (Corruption, m, reader)
     else if take (length current_preamble) potential \<noteq> current_preamble then Some (Corruption, m, reader)
     else do {
       let header = drop (length current_preamble) potential;
       start \<leftarrow> DecodeFixed64 header;
       blocks \<leftarrow> DecodeFixed64 (drop 8 header);
       start_delete \<leftarrow> DecodeFixed64 (drop 16 header);
       blocks_delete \<leftarrow> DecodeFixed64 (drop 24 header);
       let m = m\<lparr>manifest_start := unat start, manifest_blocks := unat blocks,
                 deleted_range_begin := unat start_delete, deleted_range_blocks := unat blocks_delete\<rparr>;
       if manifest_start m < min_zone_head m \<or> manifest_start m > max_zone_head m \<or>
          manifest_blocks m > usub64 (max_zone_head m) (min_zone_head m)
       then Some (Corruption, m, reader) else Some (OK, m, reader)
     }
   }"

text \<open>The backward search. The fuel is the number of blocks of the log and one more; \<open>None\<close> if it does not
  suffice. The flag tells whether a \<open>CURRENT\<close> was found.\<close>

definition block_before :: "'l TropoManifest \<Rightarrow> nat \<Rightarrow> nat" where
  "block_before m a = (if a = min_zone_head m then max_zone_head m - 1 else a - 1)"

fun find_current ::
  "nat \<Rightarrow> 'l szd_log \<Rightarrow> szd_buffer \<Rightarrow> 'l TropoManifest \<Rightarrow> nat \<Rightarrow> TropoCommitReader \<Rightarrow>
   (bool \<times> 'l TropoManifest \<times> TropoCommitReader) option" where
  "find_current 0 L B m slba reader = None"
| "find_current (Suc fuel) L B m slba reader =
     (if slba = szd_GetWriteTail L (man_log m) then Some (False, m, reader)
      else do {
        (s, m, reader) \<leftarrow> TryParseCurrent L B m slba reader;
        if ok s then Some (True, m, reader) else find_current fuel L B m (block_before m slba) reader
      })"

definition TryGetCurrent ::
  "'l szd_log \<Rightarrow> szd_buffer \<Rightarrow> TropoCommitReader \<Rightarrow> 'l TropoManifest \<Rightarrow> (status \<times> 'l TropoManifest) option" where
  "TryGetCurrent L B reader m =
     (if szd_Empty L (man_log m) then Some (NotFound, m\<lparr>manifest_start := 0, manifest_blocks := 0\<rparr>)
      else do {
        (found, m, reader) \<leftarrow>
          find_current (Suc (max_zone_head m - min_zone_head m)) L B m (block_before m (szd_GetWriteHead L (man_log m))) reader;
        let (_, c, _) = CloseCommit B (man_committer m) reader;
        let m = m\<lparr>man_committer := c\<rparr>;
        if \<not> found then Some (NotFound, m) else Some (OK, m)
      })"

definition RecoverLog :: "'l szd_log \<Rightarrow> 'l TropoManifest \<Rightarrow> status \<times> 'l TropoManifest" where
  "RecoverLog L m = (let (s, l) = szd_RecoverPointers L (man_log m) in (FromStatus s, m\<lparr>man_log := l\<rparr>))"

definition man_Recover ::
  "'l szd_log \<Rightarrow> szd_buffer \<Rightarrow> TropoCommitReader \<Rightarrow> 'l TropoManifest \<Rightarrow> (status \<times> 'l TropoManifest) option" where
  "man_Recover L B reader m =
     (let (s, m) = RecoverLog L m in if \<not> ok s then Some (s, m) else TryGetCurrent L B reader m)"

definition man_Reset :: "'l szd_log \<Rightarrow> 'l TropoManifest \<Rightarrow> status \<times> 'l TropoManifest" where
  "man_Reset L m =
     (let (s, l) = szd_ResetAll L (man_log m)
      in (FromStatus s, m\<lparr>man_log := l, deleted_range_begin := min_zone_head m, deleted_range_blocks := 0\<rparr>))"

section \<open>Reading\<close>

definition ValidateManifestPointers :: "'l szd_log \<Rightarrow> 'l TropoManifest \<Rightarrow> status" where
  "ValidateManifestPointers L m =
     (let head = szd_GetWriteHead L (man_log m); tail = szd_GetWriteTail L (man_log m);
          start = manifest_start m; end' = manifest_start m + manifest_blocks m
      in if head > tail then
           if start > head \<or> end' > head \<or> start < tail \<or> end' < tail then Corruption else OK
         else
           if start > head \<and> start < tail \<or> end' > head \<and> end' < tail then Corruption else OK)"

text \<open>The loop over the records; it may not end, since the reader does not move over an empty record.\<close>

partial_function (option) read_manifest_loop ::
  "'l szd_log \<Rightarrow> szd_buffer \<Rightarrow> 'l \<Rightarrow> TropoCommitter \<Rightarrow> TropoCommitReader \<Rightarrow> bytes \<Rightarrow>
   (TropoCommitter \<times> TropoCommitReader \<times> bytes) option" where
  "read_manifest_loop L B l c reader manifest = do {
     (c, reader, found, record) \<leftarrow> SeekCommitReader L B l c reader;
     if found then read_manifest_loop L B l c reader (manifest @ record) else Some (c, reader, manifest)
   }"

definition ReadManifest ::
  "'l szd_log \<Rightarrow> szd_buffer \<Rightarrow> TropoCommitReader \<Rightarrow> 'l TropoManifest \<Rightarrow> bytes \<Rightarrow> (status \<times> bytes \<times> 'l TropoManifest) option" where
  "ReadManifest L B reader m manifest =
     (let s = ValidateManifestPointers L m in
      if \<not> ok s then Some (s, manifest, m)
      else if manifest_blocks m = 0 then Some (IOError, manifest, m)
      else
        let (s, c, reader) = GetCommitReader B (man_committer m) deadbeef 0 (manifest_start m)
                               (manifest_start m + manifest_blocks m) reader;
            m = m\<lparr>man_committer := c\<rparr>
        in if \<not> ok s then Some (s, manifest, m)
           else do {
             (c, reader, manifest) \<leftarrow> read_manifest_loop L B (man_log m) c reader manifest;
             let (_, c, _) = CloseCommit B c reader;
             Some (s, manifest, m\<lparr>man_committer := c\<rparr>)
           })"

section \<open>What the code relies on\<close>

definition alloc_ok :: "szd_buffer \<Rightarrow> bool" where
  "alloc_ok B \<longleftrightarrow> buffer_laws B \<and> (\<forall>b n. fst (buf_Realloc B b n) = SZD_Success)"

text \<open>A successful append puts the blocks at the write head, keeps the blocks in front of the write head
  and the write tail, and leaves a log that is not empty.\<close>

definition keep_laws :: "nat \<Rightarrow> 'l szd_log \<Rightarrow> bool" where
  "keep_laws lba L \<longleftrightarrow> append_laws lba L \<and>
     (\<forall>l data n l'. data \<noteq> [] \<and> szd_Append L l data = (SZD_Success, n, l') \<longrightarrow>
        \<not> szd_Empty L l' \<and> szd_GetWriteTail L l' = szd_GetWriteTail L l \<and>
        (\<forall>base d. holds_at lba L l base d \<and> base + length d div lba \<le> szd_GetWriteHead L l \<longrightarrow> holds_at lba L l' base d))"

definition man_wf :: "nat \<Rightarrow> TropoCommitter \<Rightarrow> bool" where
  "man_wf lba c \<longleftrightarrow> committer_wf c \<and> lba_size c = lba \<and> keep_buffer c \<and> number_of_readers c = 1 \<and>
     length (read_buffer c) = 1 \<and> 48 \<le> lba"

lemma man_wf_same: "man_wf lba c \<Longrightarrow> same_but_read c c' 0 \<Longrightarrow> man_wf lba c'"
  by (auto simp: man_wf_def same_but_read_def committer_wf_def)

section \<open>Blocks of a record\<close>

text \<open>Every block of a record is a non-empty fragment, and only a record of one block is a full fragment.\<close>

lemma frags_block:
  assumes "kTropoHeaderSize < lba" and "data \<noteq> []" and "i < nfrags lba (length data)"
  shows "\<exists>t d. take lba (drop (i * lba) (frags lba first data)) = frag_bytes lba t d \<and> d \<noteq> [] \<and>
    length d \<le> lba - kTropoHeaderSize \<and> t \<noteq> kInvalid \<and> (t = kFullType \<longrightarrow> first \<and> d = data)"
  using assms
proof (induction "length data" arbitrary: data i first rule: less_induct)
  case less
  let ?n = "lba - kTropoHeaderSize"
  have n: "0 < ?n" using less.prems(1) by simp
  show ?case
  proof (cases "length data \<le> ?n")
    case True
    then have "nfrags lba (length data) = 1" using ceil_div_eq_1 [of "length data" ?n] less.prems(2) by (simp add: nfrags_def)
    then have "i = 0" using less.prems(3) by simp
    moreover have "frags lba first data = frag_bytes lba (fragment_type first True) data"
      using True less.prems(1) by (simp add: frags.simps [of lba first data])
    ultimately show ?thesis
      using True less.prems length_frag_bytes [OF True less.prems(1)]
      by (intro exI [of _ "fragment_type first True"] exI [of _ data]) (auto simp: fragment_type_def)
  next
    case False
    let ?f = "frag_bytes lba (fragment_type first False) (take ?n data)"
    have f: "frags lba first data = ?f @ frags lba False (drop ?n data)"
      using False less.prems(1) by (simp add: frags.simps [of lba first data])
    have lf: "length ?f = lba" using less.prems(1) by (intro length_frag_bytes) auto
    have nf: "nfrags lba (length data) = Suc (nfrags lba (length (drop ?n data)))"
      using False n ceil_div_step [OF n, of "length data"] ceil_div_le_iff [OF n, of "length data - ?n" 0]
      by (auto simp: nfrags_def max_def not_less_eq_eq)
    show ?thesis
    proof (cases i)
      case 0
      then show ?thesis
        using f lf less.prems n by (intro exI [of _ "fragment_type first False"] exI [of _ "take ?n data"])
          (auto simp: fragment_type_def)
    next
      case (Suc j)
      have "\<exists>t d. take lba (drop (j * lba) (frags lba False (drop ?n data))) = frag_bytes lba t d \<and> d \<noteq> [] \<and>
          length d \<le> ?n \<and> t \<noteq> kInvalid \<and> (t = kFullType \<longrightarrow> False \<and> d = drop ?n data)"
        using False n less.prems(1,3) nf Suc by (intro less.hyps) auto
      moreover have "drop (i * lba) (frags lba first data) = drop (j * lba) (frags lba False (drop ?n data))"
        using f lf Suc by simp
      ultimately show ?thesis by auto
    qed
  qed
qed

text \<open>A fragment in the middle or at the end of a record is passed over when no record has begun.\<close>

lemma SeekCommit_loop_skip:
  assumes hold: "holds_at (lba_size c) L l (commit_ptr r) (frag_bytes (lba_size c) t data)"
    and r: "commit_ptr r < commit_end r" "commit_start r \<le> commit_ptr r" "reader_nr r < length (read_buffer c)"
    and data: "length data \<le> lba_size c - kTropoHeaderSize" "data \<noteq> []"
    and lba: "kTropoHeaderSize < lba_size c" "lba_size c \<le> 2 ^ 24"
    and t: "t \<in> {kMiddleType, kLastType}"
  shows "\<exists>c'. same_but_read c c' (reader_nr r) \<and>
    SeekCommit_loop L B l c r False = SeekCommit_loop L B l c' (r\<lparr>commit_ptr := commit_ptr r + 1\<rparr>) False"
proof -
  let ?lba = "lba_size c"
  let ?f = "frag_bytes ?lba t data"
  have lf: "length ?f = ?lba" using data lba by (simp add: length_frag_bytes)
  have read: "szd_Read L l (commit_ptr r) buf ?lba = (SZD_Success, ?f)" for buf
    using holds_at_append(1) [OF _ lf, of L l "commit_ptr r" "[]"] hold lba by simp
  have tr: "(if (commit_end r - commit_ptr r) * ?lba > ?lba then ?lba else (commit_end r - commit_ptr r) * ?lba) = ?lba"
    using r(1) by (cases "commit_end r - commit_ptr r") auto
  have le: "kTropoHeaderSize + length data \<le> ?lba" using data lba by simp
  note p = frag_bytes_parts [OF data(1) lba le, of t "[]", unfolded append_Nil2]
  obtain h4 h5 h6 h7 where h: "byte_at ?f 4 = Some h4" "byte_at ?f 5 = Some h5" "byte_at ?f 6 = Some h6"
    "byte_at ?f 7 = Some h7" and len: "unat (header_length h4 h5 h6) = length data"
    using p(1) unfolding parse_fragment_def by (auto simp: Let_def split: Option.bind_splits)
  have adv: "(length data + ?lba - 1) div ?lba = 1"
    using ceil_div_eq_1 [of "length data" ?lba] data by (simp add: ceil_div_def)
  have big: "\<not> length data > ?lba" using data lba by simp
  have ne: "?f \<noteq> []" using lf lba by (metis less_nat_zero_code list.size(3))
  let ?c = "c\<lparr>read_buffer := (read_buffer c)[reader_nr r := ?f]\<rparr>"
  have "same_but_read c ?c (reader_nr r)"
    using r(3) ne by (auto simp: same_but_read_def)
  moreover have "SeekCommit_loop L B l c r False = SeekCommit_loop L B l ?c (r\<lparr>commit_ptr := commit_ptr r + 1\<rparr>) False"
    unfolding SeekCommit_loop.simps [of L B l c r False] using r(1,2) t
    by (simp only: if_True if_False simp_thms Let_def tr read prod.case h Option.bind_lunit len big p adv)
      (cases t; simp)
  ultimately show ?thesis by blast
qed

text \<open>Reading one block that holds a fragment: a record is found in a full fragment only.\<close>

lemma read_one_block:
  assumes wf: "man_wf lba c" and B: "alloc_ok B"
    and hold: "holds_at lba L l a (frag_bytes lba t d)" and d: "d \<noteq> []" "length d \<le> lba - kTropoHeaderSize" and t: "t \<noteq> kInvalid"
  shows "\<exists>c1 r1 c2 r2 recd. GetCommitReader B c deadbeef 0 a (a + 1) r = (OK, c1, r1) \<and>
    SeekCommitReader L B l c1 r1 = Some (c2, r2, t = kFullType, recd) \<and> (t = kFullType \<longrightarrow> recd = d) \<and>
    same_but_read c c2 0"
proof -
  have c: "lba_size c = lba" "number_of_readers c = 1" "length (read_buffer c) = 1" "kTropoHeaderSize < lba" "lba \<le> 2 ^ 24"
    using wf by (auto simp: man_wf_def committer_wf_def kTropoHeaderSize_def)
  obtain rb where rb: "buf_Realloc B (read_buffer c ! 0) lba = (SZD_Success, rb)"
    using B unfolding alloc_ok_def by (metis prod.collapse)
  then have "length rb = lba" using B by (auto simp: buffer_laws_def alloc_ok_def)
  then have ne: "rb \<noteq> []" using c(4) by auto
  let ?c1 = "c\<lparr>read_buffer := (read_buffer c)[0 := rb]\<rparr>"
  let ?r1 = "\<lparr>commit_start = a, commit_end = a + 1, commit_ptr = a, reader_nr = 0, scratch = deadbeef\<rparr>"
  let ?r = "?r1\<lparr>scratch := []\<rparr>"
  have g: "GetCommitReader B c deadbeef 0 a (a + 1) r = (OK, ?c1, ?r1)"
    using rb c by (simp add: GetCommitReader_def)
  have same: "same_but_read c ?c1 0" using ne c by (auto simp: same_but_read_def)
  have s: "SeekCommitReader L B l ?c1 ?r1 = SeekCommit_loop L B l ?c1 ?r False"
    using ne c by (simp add: SeekCommitReader_def)
  have stop: "SeekCommit_loop L B l c' r' b = Some (c', r', False, [])" if "commit_ptr r' = commit_end r'" for c' r' b
    using that by (subst SeekCommit_loop.simps) simp
  show ?thesis
  proof (cases "t \<in> {kFullType, kFirstType}")
    case True
    obtain c' where c': "same_but_read ?c1 c' 0" and
      "SeekCommit_loop L B l ?c1 ?r False = (let r' = ?r\<lparr>commit_ptr := a + 1, scratch := d\<rparr>
         in if t \<in> {kFullType, kLastType} then Some (c', r', True, d) else SeekCommit_loop L B l c' r' True)"
      using SeekCommit_loop_fragment [of ?c1 L l ?r t d "[]" False B] hold c d t True by (auto simp: Let_def)
    then show ?thesis
      using g s True stop same_but_read_trans [OF same c'] by (cases t) (auto simp: Let_def)
  next
    case False
    then have m: "t \<in> {kMiddleType, kLastType}" using t by (cases t) auto
    obtain c' where c': "same_but_read ?c1 c' 0" and
      "SeekCommit_loop L B l ?c1 ?r False = SeekCommit_loop L B l c' (?r\<lparr>commit_ptr := a + 1\<rparr>) False"
      using SeekCommit_loop_skip [of ?c1 L l ?r t d B] hold c d m by auto
    then show ?thesis
      using g s False stop same_but_read_trans [OF same c'] by auto
  qed
qed

definition not_current :: "bytes \<Rightarrow> bool" where
  "not_current d \<longleftrightarrow> take (length current_preamble) d \<noteq> current_preamble"

lemma TryParseCurrent_skip:
  assumes wf: "man_wf lba (man_committer m)" and B: "alloc_ok B"
    and hold: "holds_at lba L (man_log m) a (frag_bytes lba t d)" and d: "d \<noteq> []" "length d \<le> lba - kTropoHeaderSize"
    and t: "t \<noteq> kInvalid" "t = kFullType \<longrightarrow> not_current d"
  shows "\<exists>c r'. TryParseCurrent L B m a r = Some (Corruption, m\<lparr>man_committer := c\<rparr>, r') \<and> man_wf lba c"
proof -
  obtain c1 r1 c2 r2 recd where "GetCommitReader B (man_committer m) deadbeef 0 a (a + 1) r = (OK, c1, r1)"
    "SeekCommitReader L B (man_log m) c1 r1 = Some (c2, r2, t = kFullType, recd)" "t = kFullType \<longrightarrow> recd = d"
    "same_but_read (man_committer m) c2 0"
    using read_one_block [OF wf B hold d t(1)] by blast
  then show ?thesis
    using t(2) man_wf_same [OF wf] by (auto simp: TryParseCurrent_def Let_def not_current_def)
qed

lemma length_current_record: "length (current_record a b x y) = 40"
  by (simp add: current_record_def PutFixed_eq current_preamble_def)

lemma TryParseCurrent_ok:
  assumes wf: "man_wf lba (man_committer m)" and B: "alloc_ok B"
    and hold: "holds_at lba L (man_log m) p (frags lba True (current_record a b x y))"
    and lt: "a < 2 ^ 64" "b < 2 ^ 64" "x < 2 ^ 64" "y < 2 ^ 64"
    and ptr: "min_zone_head m \<le> a" "a \<le> max_zone_head m" "b \<le> max_zone_head m - min_zone_head m"
  shows "\<exists>c r'. TryParseCurrent L B m p r =
      Some (OK, m\<lparr>man_committer := c, manifest_start := a, manifest_blocks := b, deleted_range_begin := x,
                 deleted_range_blocks := y\<rparr>, r') \<and> man_wf lba c"
proof -
  let ?d = "current_record a b x y"
  have h: "length ?d \<le> lba - kTropoHeaderSize" "?d \<noteq> []"
    using wf length_current_record [of a b x y] by (auto simp: man_wf_def kTropoHeaderSize_def simp flip: length_greater_0_conv)
  have "frags lba True ?d = frag_bytes lba kFullType ?d"
    using h by (simp add: frags.simps [of lba True ?d] fragment_type_def)
  then obtain c1 r1 c2 r2 where seek: "GetCommitReader B (man_committer m) deadbeef 0 p (p + 1) r = (OK, c1, r1)"
    "SeekCommitReader L B (man_log m) c1 r1 = Some (c2, r2, True, ?d)" "same_but_read (man_committer m) c2 0"
    using read_one_block [OF wf B, of L "man_log m" p kFullType ?d r] hold h by auto
  have u: "unat (word_of_nat a :: u64) = a" "unat (word_of_nat b :: u64) = b" "unat (word_of_nat x :: u64) = x"
    "unat (word_of_nat y :: u64) = y"
    using lt by (simp_all add: unsigned_of_nat take_bit_nat_eq_self)
  have pre: "take 8 ?d = current_preamble" "length current_preamble = 8"
    by (simp_all add: current_record_def PutFixed_eq current_preamble_def)
  have dec: "DecodeFixed64 (drop 8 ?d) = Some (word_of_nat a)" "DecodeFixed64 (drop 16 ?d) = Some (word_of_nat b)"
    "DecodeFixed64 (drop 24 ?d) = Some (word_of_nat x)" "DecodeFixed64 (drop 32 ?d) = Some (word_of_nat y)"
    using DecodeFixed_EncodeFixed(4) [of _ "_"] DecodeFixed_EncodeFixed(4) [of "word_of_nat y" "[]"]
    by (simp_all add: current_record_def PutFixed_eq pre(2))
  show ?thesis
    using seek man_wf_same [OF wf seek(3)] pre dec u ptr length_current_record [of a b x y]
    by (simp add: TryParseCurrent_def Let_def usub64_def) blast
qed

text \<open>A block that is not a valid \<open>CURRENT\<close>: a fragment of another record.\<close>

definition other_block :: "nat \<Rightarrow> 'l szd_log \<Rightarrow> 'l \<Rightarrow> nat \<Rightarrow> bool" where
  "other_block lba L l a \<longleftrightarrow> (\<exists>t d. holds_at lba L l a (frag_bytes lba t d) \<and> d \<noteq> [] \<and>
     length d \<le> lba - kTropoHeaderSize \<and> t \<noteq> kInvalid \<and> (t = kFullType \<longrightarrow> not_current d))"

lemma find_current_skip:
  assumes "man_wf lba (man_committer m)" and B: "alloc_ok B"
    and "szd_GetWriteTail L (man_log m) \<le> cur" and "min_zone_head m \<le> cur"
    and "\<forall>i<k. other_block lba L (man_log m) (cur + 1 + i)"
  shows "\<exists>c r'. find_current (fuel + k) L B m (cur + k) r = find_current fuel L B (m\<lparr>man_committer := c\<rparr>) cur r' \<and> man_wf lba c"
  using assms(1,3,4,5)
proof (induction k arbitrary: m r)
  case 0
  then show ?case by (intro exI [of _ "man_committer m"] exI [of _ r]) simp
next
  case (Suc k)
  obtain t d where o: "holds_at lba L (man_log m) (cur + Suc k) (frag_bytes lba t d)" "d \<noteq> []"
    "length d \<le> lba - kTropoHeaderSize" "t \<noteq> kInvalid" "t = kFullType \<longrightarrow> not_current d"
    using Suc.prems(4) [rule_format, of k] unfolding other_block_def by auto
  obtain c r1 where p: "TryParseCurrent L B m (cur + Suc k) r = Some (Corruption, m\<lparr>man_committer := c\<rparr>, r1)" "man_wf lba c"
    using TryParseCurrent_skip [OF Suc.prems(1) B o] by blast
  have "block_before (m\<lparr>man_committer := c\<rparr>) (cur + Suc k) = cur + k"
    using Suc.prems(3) by (simp add: block_before_def)
  then have "find_current (fuel + Suc k) L B m (cur + Suc k) r = find_current (fuel + k) L B (m\<lparr>man_committer := c\<rparr>) (cur + k) r1"
    using p(1) Suc.prems(2) by simp
  moreover obtain c' r' where "find_current (fuel + k) L B (m\<lparr>man_committer := c\<rparr>) (cur + k) r1 =
      find_current fuel L B (m\<lparr>man_committer := c\<rparr>\<lparr>man_committer := c'\<rparr>) cur r'" "man_wf lba c'"
    using Suc.IH [of "m\<lparr>man_committer := c\<rparr>" r1] Suc.prems p(2) by auto
  ultimately show ?case by (intro exI [of _ c'] exI [of _ r']) simp
qed

text \<open>Recovery finds the last \<open>CURRENT\<close>, behind which there are only blocks of other records.\<close>

lemma man_Recover_current:
  assumes wf: "man_wf lba (man_committer m)" and B: "alloc_ok B"
    and log: "szd_RecoverPointers L (man_log m) = (SZD_Success, man_log m)" "\<not> szd_Empty L (man_log m)"
    and pos: "szd_GetWriteHead L (man_log m) = cur + 1 + k" "szd_GetWriteTail L (man_log m) < cur" "min_zone_head m \<le> cur"
      "cur + 1 + k \<le> max_zone_head m"
    and others: "\<forall>i<k. other_block lba L (man_log m) (cur + 1 + i)"
    and hold: "holds_at lba L (man_log m) cur (frags lba True (current_record a b x y))"
    and lt: "a < 2 ^ 64" "b < 2 ^ 64" "x < 2 ^ 64" "y < 2 ^ 64"
    and ptr: "min_zone_head m \<le> a" "a \<le> max_zone_head m" "b \<le> max_zone_head m - min_zone_head m"
  shows "\<exists>m'. man_Recover L B r m = Some (OK, m') \<and> manifest_start m' = a \<and> manifest_blocks m' = b \<and>
    man_log m' = man_log m \<and> man_wf lba (man_committer m')"
proof -
  have bb: "block_before m (szd_GetWriteHead L (man_log m)) = cur + k" using pos by (simp add: block_before_def)
  obtain fuel where fuel: "Suc (max_zone_head m - min_zone_head m) = Suc fuel + k"
    using pos by (intro that [of "max_zone_head m - min_zone_head m - k"]) linarith
  obtain c r1 where f: "find_current (Suc fuel + k) L B m (cur + k) r = find_current (Suc fuel) L B (m\<lparr>man_committer := c\<rparr>) cur r1"
    and c: "man_wf lba c"
    using find_current_skip [OF wf B less_imp_le [OF pos(2)] pos(3) others] by blast
  obtain c' r' where "TryParseCurrent L B (m\<lparr>man_committer := c\<rparr>) cur r1 =
      Some (OK, m\<lparr>man_committer := c', manifest_start := a, manifest_blocks := b, deleted_range_begin := x,
                 deleted_range_blocks := y\<rparr>, r')" "man_wf lba c'"
    using TryParseCurrent_ok [of lba "m\<lparr>man_committer := c\<rparr>" B L cur a b x y r1] c B hold lt ptr by auto
  then have "find_current (Suc (max_zone_head m - min_zone_head m)) L B m (cur + k) r =
      Some (True, m\<lparr>man_committer := c', manifest_start := a, manifest_blocks := b, deleted_range_begin := x,
                 deleted_range_blocks := y\<rparr>, r')" and c': "man_wf lba c'"
    using fuel f pos(2) by auto
  moreover have "keep_buffer c'" using c' by (simp add: man_wf_def)
  ultimately show ?thesis
    using log bb by (simp add: man_Recover_def RecoverLog_def TryGetCurrent_def CloseCommit_def Let_def FromStatus_def)
qed

lemma ReadManifest_record:
  assumes wf: "man_wf lba (man_committer m)" and B: "alloc_ok B" and ne: "rcd \<noteq> []"
    and hold: "holds_at lba L (man_log m) (manifest_start m) (frags lba True rcd)"
    and blocks: "manifest_blocks m = nfrags lba (length rcd)"
    and pos: "szd_GetWriteTail L (man_log m) \<le> manifest_start m"
      "manifest_start m + manifest_blocks m \<le> szd_GetWriteHead L (man_log m)"
  shows "\<exists>m'. ReadManifest L B r m [] = Some (OK, rcd, m')"
proof -
  have c: "committer_wf (man_committer m)" "lba_size (man_committer m) = lba" "number_of_readers (man_committer m) = 1"
    "length (read_buffer (man_committer m)) = number_of_readers (man_committer m)"
    using wf by (auto simp: man_wf_def)
  have bp: "0 < manifest_blocks m" using blocks nfrags_pos by simp
  obtain c1 r1 c2 r2 where g: "GetCommitReader B (man_committer m) deadbeef 0 (manifest_start m) (manifest_start m + manifest_blocks m) r = (OK, c1, r1)"
    and k: "SeekCommitReader L B (man_log m) c1 r1 = Some (c2, r2, True, rcd)" and e: "commit_ptr r2 = commit_end r2"
    using SeekCommitReader_frags [of "man_committer m" B L "man_log m" "manifest_start m" rcd 0 "manifest_start m + manifest_blocks m" deadbeef r]
      B hold ne c blocks by (auto simp: alloc_ok_def)
  have "SeekCommitReader L B (man_log m) c2 r2 = Some (c2, r2, False, [])"
    using e by (simp add: SeekCommitReader_def)
  then have "read_manifest_loop L B (man_log m) c1 r1 [] = Some (c2, r2, rcd)"
    using k by (simp add: read_manifest_loop.simps [of L B "man_log m" c1] read_manifest_loop.simps [of L B "man_log m" c2])
  moreover have "ValidateManifestPointers L m = OK"
    using pos bp by (auto simp: ValidateManifestPointers_def Let_def)
  ultimately show ?thesis
    using g bp by (auto simp: ReadManifest_def Let_def split: prod.splits)
qed

lemma SafeCommit_stored:
  assumes L: "keep_laws lba L" and B: "alloc_ok B" and wf: "man_wf lba c" and ne: "data \<noteq> []" and safe: "safe_size lba (length data)"
    and s: "SafeCommit L B c l k data = Some (OK, n, c', l')"
  shows "n = nfrags lba (length data)" "man_wf lba c'" "holds_at lba L l' (szd_GetWriteHead L l) (frags lba True data)"
    "szd_GetWriteHead L l' = szd_GetWriteHead L l + n" "szd_GetWriteTail L l' = szd_GetWriteTail L l" "\<not> szd_Empty L l'"
    "\<And>base d. holds_at lba L l base d \<Longrightarrow> base + length d div lba \<le> szd_GetWriteHead L l \<Longrightarrow> holds_at lba L l' base d"
proof -
  let ?f = "frags lba True data"
  have c: "committer_wf c" "lba_size c = lba" "keep_buffer c" and lba: "kTropoHeaderSize < lba"
    using wf by (auto simp: man_wf_def committer_wf_def)
  have B': "buffer_laws B" "fst (buf_Realloc B (write_buffer c) (SpaceNeeded lba (length data))) = SZD_Success"
    using B by (auto simp: alloc_ok_def)
  obtain st m l1 where a: "szd_Append L l ?f = (st, m, l1)" by (metis prod_cases3)
  have "Commit L B c l data = Some (FromStatus st, m, c\<lparr>write_buffer := ?f\<rparr>, l1)"
    using Commit_ok [OF c(1) B'(1), of data L l st m l1] safe_size_nfrags [OF lba safe] B'(2) a c by auto
  then have "FromStatus st = OK" and st': "n = m" "l' = l1" "c' = c\<lparr>write_buffer := ?f\<rparr>"
    using s by (auto simp: SafeCommit_def eq_commute [of OK "FromStatus st"] split: if_splits)
  then have st: "st = SZD_Success" "n = m" "l' = l1" "c' = c\<lparr>write_buffer := ?f\<rparr>" by simp_all
  have len: "length ?f = nfrags lba (length data) * lba" by (rule length_frags [OF lba])
  then have f: "?f \<noteq> []" "length ?f mod lba = 0" using nfrags_pos [of lba "length data"] lba by auto
  have al: "append_laws lba L" using L by (simp add: keep_laws_def)
  from al [unfolded append_laws_def, rule_format, of ?f l m l1] a st(1) f(2)
  have 1: "m = length ?f div lba" "holds_at lba L l1 (szd_GetWriteHead L l) ?f" "szd_GetWriteHead L l1 = szd_GetWriteHead L l + m"
    by auto
  have 2: "\<not> szd_Empty L l1 \<and> szd_GetWriteTail L l1 = szd_GetWriteTail L l \<and>
        (\<forall>base d. holds_at lba L l base d \<and> base + length d div lba \<le> szd_GetWriteHead L l \<longrightarrow> holds_at lba L l1 base d)"
    using L a f(1) st(1) unfolding keep_laws_def by blast
  show "n = nfrags lba (length data)" "man_wf lba c'" "holds_at lba L l' (szd_GetWriteHead L l) ?f"
    "szd_GetWriteHead L l' = szd_GetWriteHead L l + n" "szd_GetWriteTail L l' = szd_GetWriteTail L l" "\<not> szd_Empty L l'"
    using 1 2 st len lba wf by (auto simp: man_wf_def committer_wf_def)
  show "holds_at lba L l' base d" if "holds_at lba L l base d" "base + length d div lba \<le> szd_GetWriteHead L l" for base d
    using 2 st that by blast
qed

text \<open>A log in which a snapshot is installed: the snapshot, the \<open>CURRENT\<close> that names it, and behind it only
  blocks of records that are not installed.\<close>

definition installed :: "nat \<Rightarrow> 'l szd_log \<Rightarrow> 'l \<Rightarrow> nat \<Rightarrow> bytes \<Rightarrow> bool" where
  "installed lba L l lo rcd \<longleftrightarrow>
     (\<exists>start k x y. let n = nfrags lba (length rcd); cur = start + n in
        holds_at lba L l start (frags lba True rcd) \<and> holds_at lba L l cur (frags lba True (current_record start n x y)) \<and>
        lo \<le> szd_GetWriteTail L l \<and> szd_GetWriteTail L l \<le> start \<and> \<not> szd_Empty L l \<and> x < 2 ^ 64 \<and> y < 2 ^ 64 \<and>
        szd_GetWriteHead L l = cur + 1 + k \<and> (\<forall>i<k. other_block lba L l (cur + 1 + i)))"

lemma installed_read:
  assumes i: "installed lba L l (minz * zone_cap) rcd" and B: "alloc_ok B" and ne: "rcd \<noteq> []"
    and lba: "48 \<le> lba" "lba \<le> 2 ^ 24" and rp: "szd_RecoverPointers L l = (SZD_Success, l)"
    and hi: "szd_GetWriteHead L l \<le> maxz * zone_cap" "maxz * zone_cap < 2 ^ 64"
  shows "\<exists>m1 m2. man_Recover L B r (TropoManifest_init l lba zone_cap minz maxz) = Some (OK, m1) \<and>
    ReadManifest L B r m1 [] = Some (OK, rcd, m2)"
proof -
  let ?m = "TropoManifest_init l lba zone_cap minz maxz" and ?n = "nfrags lba (length rcd)"
  obtain start k x y where h: "holds_at lba L l start (frags lba True rcd)"
    "holds_at lba L l (start + ?n) (frags lba True (current_record start ?n x y))"
    "minz * zone_cap \<le> szd_GetWriteTail L l" "szd_GetWriteTail L l \<le> start" "\<not> szd_Empty L l" "x < 2 ^ 64" "y < 2 ^ 64"
    "szd_GetWriteHead L l = start + ?n + 1 + k" "\<forall>i<k. other_block lba L l (start + ?n + 1 + i)"
    using i unfolding installed_def Let_def by auto
  have wf: "man_wf lba (man_committer ?m)"
    using lba committer_wf_init [of lba 1 True] by (simp add: man_wf_def TropoManifest_init_def TropoCommitter_init_def kTropoHeaderSize_def)
  have n: "0 < ?n" by (rule nfrags_pos)
  have fit: "?n \<le> maxz * zone_cap - minz * zone_cap" using h(3,4,8) hi(1) by linarith
  obtain m1 where m1: "man_Recover L B r ?m = Some (OK, m1)" "manifest_start m1 = start" "manifest_blocks m1 = ?n"
    "man_log m1 = l" "man_wf lba (man_committer m1)"
    using man_Recover_current [OF wf B, of L "start + ?n" k start ?n x y r] h hi rp n fit
    by (auto simp: TropoManifest_init_def)
  with ReadManifest_record [OF m1(5) B ne, of L r] h n show ?thesis by simp
qed

lemma set_current_installed:
  assumes L: "keep_laws lba L" and B: "alloc_ok B" and wf: "man_wf lba (man_committer m)"
    and del: "deleted_range_blocks m < man_zone_cap m" "deleted_range_blocks m + manifest_blocks m + 1 < 2 ^ 64"
    and rcd: "rcd \<noteq> []" "safe_size lba (length rcd)"
    and pos: "lo \<le> szd_GetWriteTail L (man_log m)" "szd_GetWriteTail L (man_log m) \<le> szd_GetWriteHead L (man_log m)"
      "szd_GetWriteHead L (man_log m) < 2 ^ 64"
    and n: "NewManifest L B m rcd = Some (OK, m1)" and c: "SetCurrent L B m1 = Some (OK, m2)"
  shows "installed lba L (man_log m2) lo rcd" and "man_wf lba (man_committer m2)"
proof -
  let ?n = "nfrags lba (length rcd)" and ?h = "szd_GetWriteHead L (man_log m)"
  obtain b c1 l1 where s1: "SafeCommit L B (man_committer m) (man_log m) (manifest_blocks_new m) rcd = Some (OK, b, c1, l1)"
    and m1: "m1 = m\<lparr>manifest_start_new := ?h, manifest_blocks_new := b, man_committer := c1, man_log := l1\<rparr>"
    using n by (auto simp: NewManifest_def bind_eq_Some_conv Let_def split: if_splits)
  note a1 = SafeCommit_stored [OF L B wf rcd s1]
  have r: "reclaim L m1 = m1" using del(1) by (simp add: reclaim_def m1)
  let ?rec = "current_record ?h b (szd_GetWriteTail L l1) (deleted_range_blocks m + (manifest_blocks m + 1))"
  obtain b2 c2 l2 where s2: "SafeCommit L B c1 l1 0 ?rec = Some (OK, b2, c2, l2)"
    and m2: "man_log m2 = l2" "man_committer m2 = c2"
    using c r by (auto simp: SetCurrent_def bind_eq_Some_conv Let_def m1 split: if_splits)
  have lba: "48 \<le> lba" using wf by (simp add: man_wf_def)
  have rne: "?rec \<noteq> []" using length_current_record [of ?h b] by (metis list.size(3) zero_neq_numeral)
  have fits: "40 \<le> lba - kTropoHeaderSize" using lba by (simp add: kTropoHeaderSize_def)
  then have rs: "safe_size lba (length ?rec)" by (simp add: safe_size_def length_current_record)
  note a2 = SafeCommit_stored [OF L B a1(2) rne rs s2]
  have n2: "b2 = 1" using a2(1) fits ceil_div_eq_1 [of 40 "lba - kTropoHeaderSize"] by (simp add: length_current_record nfrags_def)
  have "holds_at lba L l2 ?h (frags lba True rcd)"
    using a2(7) [OF a1(3)] a1(1,4) lba by (simp add: length_frags kTropoHeaderSize_def)
  moreover have "szd_GetWriteTail L l1 < 2 ^ 64" using a1(5) pos by linarith
  ultimately show "installed lba L (man_log m2) lo rcd"
    unfolding installed_def Let_def m2 using a1 a2 n2 pos del(2)
    by (intro exI [of _ ?h] exI [of _ 0] exI [of _ "szd_GetWriteTail L l1"]
        exI [of _ "deleted_range_blocks m + (manifest_blocks m + 1)"]) auto
  show "man_wf lba (man_committer m2)" using a2(2) m2 by simp
qed

lemma other_block_kept:
  assumes "other_block lba L l a" and "a + 1 \<le> szd_GetWriteHead L l" and "kTropoHeaderSize < lba"
    and "\<And>base d. holds_at lba L l base d \<Longrightarrow> base + length d div lba \<le> szd_GetWriteHead L l \<Longrightarrow> holds_at lba L l' base d"
  shows "other_block lba L l' a"
proof -
  obtain t d where o: "holds_at lba L l a (frag_bytes lba t d)" "d \<noteq> []"
    "length d \<le> lba - kTropoHeaderSize" "t \<noteq> kInvalid" "t = kFullType \<longrightarrow> not_current d"
    using assms(1) unfolding other_block_def by blast
  then have "holds_at lba L l' a (frag_bytes lba t d)"
    using assms(2,3) by (intro assms(4)) (simp_all add: length_frag_bytes)
  with o show ?thesis unfolding other_block_def by blast
qed

lemma holds_at_block:
  assumes "holds_at lba L l base d" and "(i + 1) * lba \<le> length d" and "0 < lba"
  shows "holds_at lba L l (base + i) (take lba (drop (i * lba) d))"
  unfolding holds_at_def
proof (intro allI impI)
  fix j buf
  assume j: "(j + 1) * lba \<le> length (take lba (drop (i * lba) d))"
  have "j = 0"
  proof (rule ccontr)
    assume "j \<noteq> 0"
    then have "2 * lba \<le> (j + 1) * lba" by (intro mult_right_mono) auto
    then show False using j assms(3) by simp
  qed
  then show "szd_Read L l (base + i + j) buf lba = (SZD_Success, take lba (drop (j * lba) (take lba (drop (i * lba) d))))"
    using assms(1) [unfolded holds_at_def, rule_format, OF assms(2), of buf] by simp
qed

lemma new_manifest_not_installed:
  assumes L: "keep_laws lba L" and B: "alloc_ok B" and wf: "man_wf lba (man_committer m)"
    and i: "installed lba L (man_log m) lo rcd" and new: "rcd2 \<noteq> []" "safe_size lba (length rcd2)" "not_current rcd2"
    and n: "NewManifest L B m rcd2 = Some (OK, m1)"
  shows "installed lba L (man_log m1) lo rcd"
proof -
  let ?n = "nfrags lba (length rcd)" and ?l = "man_log m" and ?n2 = "nfrags lba (length rcd2)"
  obtain start k x y where h: "holds_at lba L ?l start (frags lba True rcd)"
    "holds_at lba L ?l (start + ?n) (frags lba True (current_record start ?n x y))"
    "lo \<le> szd_GetWriteTail L ?l" "szd_GetWriteTail L ?l \<le> start" "\<not> szd_Empty L ?l" "x < 2 ^ 64" "y < 2 ^ 64"
    "szd_GetWriteHead L ?l = start + ?n + 1 + k" "\<forall>i<k. other_block lba L ?l (start + ?n + 1 + i)"
    using i unfolding installed_def Let_def by auto
  obtain b c1 l1 where s1: "SafeCommit L B (man_committer m) ?l (manifest_blocks_new m) rcd2 = Some (OK, b, c1, l1)"
    and m1: "man_log m1 = l1"
    using n by (auto simp: NewManifest_def bind_eq_Some_conv Let_def split: if_splits)
  note a = SafeCommit_stored [OF L B wf new(1,2) s1]
  have lba: "48 \<le> lba" "kTropoHeaderSize < lba" using wf by (simp_all add: man_wf_def kTropoHeaderSize_def)
  have one: "nfrags lba (length (current_record start ?n x y)) = 1"
    using ceil_div_eq_1 [of 40 "lba - kTropoHeaderSize"] lba by (simp add: length_current_record nfrags_def kTropoHeaderSize_def)
  have "other_block lba L l1 (start + ?n + 1 + i)" if "i < k + ?n2" for i
  proof (cases "i < k")
    case True
    then show ?thesis using h(8,9) lba by (intro other_block_kept [OF _ _ _ a(7)]) auto
  next
    case False
    define j where "j = i - k"
    have j: "j < ?n2" "start + ?n + 1 + i = szd_GetWriteHead L ?l + j" using that False h(8) by (simp_all add: j_def)
    obtain t d where "take lba (drop (j * lba) (frags lba True rcd2)) = frag_bytes lba t d" "d \<noteq> []"
      "length d \<le> lba - kTropoHeaderSize" "t \<noteq> kInvalid" "t = kFullType \<longrightarrow> d = rcd2"
      using frags_block [OF lba(2) new(1) j(1), of True] by blast
    moreover have "holds_at lba L l1 (szd_GetWriteHead L ?l + j) (take lba (drop (j * lba) (frags lba True rcd2)))"
    proof (rule holds_at_block [OF a(3)])
      have "(j + 1) * lba \<le> ?n2 * lba" using j(1) by (intro mult_right_mono) auto
      then show "(j + 1) * lba \<le> length (frags lba True rcd2)" by (simp add: length_frags [OF lba(2)])
    qed (use lba in simp)
    ultimately show ?thesis unfolding other_block_def j(2) using new(3) by auto
  qed
  moreover have "holds_at lba L l1 start (frags lba True rcd)"
    using h(8) lba by (intro a(7) [OF h(1)]) (simp add: length_frags)
  moreover have "holds_at lba L l1 (start + ?n) (frags lba True (current_record start ?n x y))"
    using h(8) lba one by (intro a(7) [OF h(2)]) (simp add: length_frags)
  ultimately show ?thesis
    unfolding installed_def Let_def m1 using h a
    by (intro exI [of _ start] exI [of _ "k + ?n2"] exI [of _ x] exI [of _ y]) auto
qed

section \<open>Properties\<close>

text \<open>C3: An installed manifest survives a restart. When a snapshot of safe size was written with
  \<open>NewManifest\<close> and installed with \<open>SetCurrent\<close>, both successfully, then a new manifest object on the same
  zones recovers and reads exactly that snapshot. This holds while the log does not wrap around
  and less than a zone waits to be reclaimed.\<close>

theorem manifest_restart:
  assumes "keep_laws lba L" and "alloc_ok B" and "man_wf lba (man_committer m)"
    and "deleted_range_blocks m < man_zone_cap m" and "deleted_range_blocks m + manifest_blocks m + 1 < 2 ^ 64"
    and "rcd \<noteq> []" and "safe_size lba (length rcd)"
    and "minz * zone_cap \<le> szd_GetWriteTail L (man_log m)"
    and "szd_GetWriteTail L (man_log m) \<le> szd_GetWriteHead L (man_log m)" and "szd_GetWriteHead L (man_log m) < 2 ^ 64"
    and "NewManifest L B m rcd = Some (OK, m1)" and "SetCurrent L B m1 = Some (OK, m2)"
    and "szd_RecoverPointers L (man_log m2) = (SZD_Success, man_log m2)"
    and "szd_GetWriteHead L (man_log m2) \<le> maxz * zone_cap" and "maxz * zone_cap < 2 ^ 64"
  shows "\<exists>m3 m4. man_Recover L B r (TropoManifest_init (man_log m2) lba zone_cap minz maxz) = Some (OK, m3) \<and>
    ReadManifest L B r m3 [] = Some (OK, rcd, m4)"
proof -
  have "48 \<le> lba" "lba \<le> 2 ^ 24" using assms(3) by (auto simp: man_wf_def committer_wf_def)
  from installed_read [OF set_current_installed(1) [OF assms(1-12)] assms(2,6) this assms(13-15)] show ?thesis .
qed

text \<open>C4: Installing is atomic. A second snapshot that was written behind an installed one, but not yet
  installed when the system stopped, is passed over: the new manifest object recovers the
  snapshot that was installed last.\<close>

theorem manifest_uninstalled_ignored:
  assumes "keep_laws lba L" and "alloc_ok B" and "man_wf lba (man_committer m)"
    and "deleted_range_blocks m < man_zone_cap m" and "deleted_range_blocks m + manifest_blocks m + 1 < 2 ^ 64"
    and "rcd \<noteq> []" and "safe_size lba (length rcd)"
    and "minz * zone_cap \<le> szd_GetWriteTail L (man_log m)"
    and "szd_GetWriteTail L (man_log m) \<le> szd_GetWriteHead L (man_log m)" and "szd_GetWriteHead L (man_log m) < 2 ^ 64"
    and "NewManifest L B m rcd = Some (OK, m1)" and "SetCurrent L B m1 = Some (OK, m2)"
    and "rcd2 \<noteq> []" and "safe_size lba (length rcd2)" and "not_current rcd2"
    and "NewManifest L B m2 rcd2 = Some (OK, m2')"
    and "szd_RecoverPointers L (man_log m2') = (SZD_Success, man_log m2')"
    and "szd_GetWriteHead L (man_log m2') \<le> maxz * zone_cap" and "maxz * zone_cap < 2 ^ 64"
  shows "\<exists>m3 m4. man_Recover L B r (TropoManifest_init (man_log m2') lba zone_cap minz maxz) = Some (OK, m3) \<and>
    ReadManifest L B r m3 [] = Some (OK, rcd, m4)"
proof -
  have lba: "48 \<le> lba" "lba \<le> 2 ^ 24" using assms(3) by (auto simp: man_wf_def committer_wf_def)
  note s = set_current_installed [OF assms(1-12)]
  from installed_read [OF new_manifest_not_installed [OF assms(1,2) s(2,1) assms(13-16)] assms(2,6) lba assms(17-19)]
  show ?thesis .
qed

text \<open>The in-memory log.\<close>

lemma keep_laws_mem: "0 < lba \<Longrightarrow> keep_laws lba (mem_log lba cap)"
proof -
  assume lba: "0 < lba"
  have "holds_at lba (mem_log lba cap) (l @ data) base d" if "holds_at lba (mem_log lba cap) l base d" for l data base d
    unfolding holds_at_def
  proof (intro allI impI)
    fix i buf
    assume "(i + 1) * lba \<le> length d"
    with that have "szd_Read (mem_log lba cap) l (base + i) buf lba = (SZD_Success, take lba (drop (i * lba) d))"
      by (simp add: holds_at_def)
    then show "szd_Read (mem_log lba cap) (l @ data) (base + i) buf lba = (SZD_Success, take lba (drop (i * lba) d))"
      by (auto simp: mem_log_def split: if_splits)
  qed
  then show ?thesis
    using append_laws_mem [OF lba, of cap] unfolding keep_laws_def by (auto simp: mem_log_def split: if_splits)
qed

lemma alloc_ok_mem: "alloc_ok mem_buffer"
  by (simp add: alloc_ok_def buffer_laws_mem)

lemma SafeCommit_mem:
  assumes wf: "man_wf lba c" and safe: "safe_size lba (length data)" and l: "length l mod lba = 0"
    and cap: "length l + nfrags lba (length data) * lba \<le> cap"
  shows "\<exists>c'. SafeCommit (mem_log lba cap) mem_buffer c l k data =
      Some (OK, nfrags lba (length data), c', l @ frags lba True data) \<and> man_wf lba c'"
proof -
  have c: "committer_wf c" "lba_size c = lba" "keep_buffer c" and lba: "kTropoHeaderSize < lba"
    using wf by (auto simp: man_wf_def committer_wf_def)
  note small = safe_size_nfrags [OF lba safe]
  have "szd_Append (mem_log lba cap) l (frags lba True data) = (SZD_Success, nfrags lba (length data), l @ frags lba True data)"
    using l cap lba by (simp add: length_frags)
  then have "Commit (mem_log lba cap) mem_buffer c l data =
      Some (OK, nfrags lba (length data), c\<lparr>write_buffer := frags lba True data\<rparr>, l @ frags lba True data)"
    using Commit_ok [OF c(1) buffer_laws_mem, of data "mem_log lba cap" l] small c by (fastforce simp: FromStatus_def)
  moreover have "SpaceEnough (mem_log lba cap) c l (length data)"
    using cap SpaceNeeded_exact [OF lba small] by (simp add: SpaceEnough_def c)
  ultimately show ?thesis using wf by (auto simp: SafeCommit_def man_wf_def committer_wf_def)
qed

text \<open>A snapshot that is written and installed on an empty log.\<close>

lemma demo_manifest:
  defines "m \<equiv> TropoManifest_init [] 64 100 0 1"
  shows "\<exists>m1 m2. NewManifest (mem_log 64 6400) mem_buffer m [1, 2, 3] = Some (OK, m1) \<and>
    SetCurrent (mem_log 64 6400) mem_buffer m1 = Some (OK, m2) \<and> length (man_log m2) = 128 \<and> man_wf 64 (man_committer m2)"
proof -
  have n: "nfrags 64 (length [1, 2, 3 :: byte]) = 1" "nfrags 64 40 = 1"
    by (simp_all add: nfrags_def ceil_div_def kTropoHeaderSize_def)
  have safe: "safe_size 64 (length [1, 2, 3 :: byte])" "safe_size 64 40" by (simp_all add: safe_size_def kTropoHeaderSize_def)
  have wf: "man_wf 64 (man_committer m)"
    using committer_wf_init [of 64 1 True] by (simp add: m_def man_wf_def TropoManifest_init_def TropoCommitter_init_def kTropoHeaderSize_def)
  have l0: "man_log m = []" by (simp add: m_def TropoManifest_init_def)
  let ?f = "frags 64 True [1, 2, 3]"
  have lf: "length ?f = 64" using n by (simp add: length_frags kTropoHeaderSize_def)
  obtain c1 where c1: "SafeCommit (mem_log 64 6400) mem_buffer (man_committer m) [] (manifest_blocks_new m) [1, 2, 3] = Some (OK, 1, c1, ?f)"
    "man_wf 64 c1"
    using SafeCommit_mem [OF wf safe(1), of "[]" 6400] n by auto
  define m1 where "m1 = m\<lparr>manifest_start_new := 0, manifest_blocks_new := 1, man_committer := c1, man_log := ?f\<rparr>"
  have "SpaceEnough (mem_log 64 6400) (man_committer m) [] 3"
    using c1(1) by (simp add: SafeCommit_def numeral_3_eq_3 split: if_splits)
  then have new: "NewManifest (mem_log 64 6400) mem_buffer m [1, 2, 3] = Some (OK, m1)"
    using c1 l0 by (simp add: NewManifest_def m1_def numeral_3_eq_3)
  let ?r = "current_record 0 1 0 1"
  obtain c2 where c2: "SafeCommit (mem_log 64 6400) mem_buffer c1 ?f 0 ?r = Some (OK, 1, c2, ?f @ frags 64 True ?r)" "man_wf 64 c2"
    using SafeCommit_mem [OF c1(2), of ?r ?f 6400 0] safe(2) n(2) lf by (auto simp: length_current_record)
  have "SetCurrent (mem_log 64 6400) mem_buffer m1 =
      Some (OK, m1\<lparr>deleted_range_begin := 0, deleted_range_blocks := 1, man_committer := c2, man_log := ?f @ frags 64 True ?r,
                   manifest_start := 0, manifest_blocks := 1\<rparr>)"
    using c2(1) by (simp add: SetCurrent_def reclaim_def m1_def m_def TropoManifest_init_def)
  then show ?thesis
    using new c2(2) lf n(2) by (simp add: length_frags kTropoHeaderSize_def length_current_record)
qed

theorem manifest_restart_witness:
  "\<exists>m1 m2 m3 m4. NewManifest (mem_log 64 6400) mem_buffer (TropoManifest_init [] 64 100 0 1) [1, 2, 3] = Some (OK, m1) \<and>
     SetCurrent (mem_log 64 6400) mem_buffer m1 = Some (OK, m2) \<and>
     man_Recover (mem_log 64 6400) mem_buffer undefined (TropoManifest_init (man_log m2) 64 100 0 1) = Some (OK, m3) \<and>
     ReadManifest (mem_log 64 6400) mem_buffer undefined m3 [] = Some (OK, [1, 2, 3], m4)"
proof -
  let ?m = "TropoManifest_init [] 64 100 0 1"
  obtain m1 m2 where m: "NewManifest (mem_log 64 6400) mem_buffer ?m [1, 2, 3] = Some (OK, m1)"
    "SetCurrent (mem_log 64 6400) mem_buffer m1 = Some (OK, m2)" "length (man_log m2) = 128"
    using demo_manifest by blast
  have wf: "man_wf 64 (man_committer ?m)"
    using committer_wf_init [of 64 1 True] by (simp add: man_wf_def TropoManifest_init_def TropoCommitter_init_def kTropoHeaderSize_def)
  show ?thesis
    using manifest_restart [OF keep_laws_mem alloc_ok_mem wf _ _ _ _ _ _ _ m(1,2), where minz = 0 and maxz = 1 and zone_cap = 100 and r = undefined]
      m by (simp add: TropoManifest_init_def safe_size_def kTropoHeaderSize_def)
qed

theorem manifest_uninstalled_ignored_witness:
  "\<exists>m1 m2 m2' m3 m4. NewManifest (mem_log 64 6400) mem_buffer (TropoManifest_init [] 64 100 0 1) [1, 2, 3] = Some (OK, m1) \<and>
     SetCurrent (mem_log 64 6400) mem_buffer m1 = Some (OK, m2) \<and>
     NewManifest (mem_log 64 6400) mem_buffer m2 [4, 5] = Some (OK, m2') \<and>
     man_Recover (mem_log 64 6400) mem_buffer undefined (TropoManifest_init (man_log m2') 64 100 0 1) = Some (OK, m3) \<and>
     ReadManifest (mem_log 64 6400) mem_buffer undefined m3 [] = Some (OK, [1, 2, 3], m4)"
proof -
  let ?m = "TropoManifest_init [] 64 100 0 1" and ?d = "[4, 5] :: bytes"
  obtain m1 m2 where m: "NewManifest (mem_log 64 6400) mem_buffer ?m [1, 2, 3] = Some (OK, m1)"
    "SetCurrent (mem_log 64 6400) mem_buffer m1 = Some (OK, m2)" "length (man_log m2) = 128" "man_wf 64 (man_committer m2)"
    using demo_manifest by blast
  have n: "nfrags 64 (length ?d) = 1" by (simp add: nfrags_def ceil_div_def kTropoHeaderSize_def)
  have safe: "safe_size 64 (length ?d)" by (simp add: safe_size_def kTropoHeaderSize_def)
  obtain c where c: "SafeCommit (mem_log 64 6400) mem_buffer (man_committer m2) (man_log m2) (manifest_blocks_new m2) ?d =
      Some (OK, 1, c, man_log m2 @ frags 64 True ?d)"
    using SafeCommit_mem [OF m(4) safe, of "man_log m2" 6400] n m(3) by auto
  have "SpaceEnough (mem_log 64 6400) (man_committer m2) (man_log m2) (length ?d)"
    using c by (simp add: SafeCommit_def split: if_splits)
  then obtain m2' where m2': "NewManifest (mem_log 64 6400) mem_buffer m2 ?d = Some (OK, m2')"
    "man_log m2' = man_log m2 @ frags 64 True ?d"
    using c by (auto simp: NewManifest_def)
  have len: "length (man_log m2') = 192" using m2'(2) m(3) n by (simp add: length_frags kTropoHeaderSize_def)
  have wf: "man_wf 64 (man_committer ?m)"
    using committer_wf_init [of 64 1 True] by (simp add: man_wf_def TropoManifest_init_def TropoCommitter_init_def kTropoHeaderSize_def)
  have nc: "not_current ?d" by (simp add: not_current_def current_preamble_def)
  show ?thesis
    using manifest_uninstalled_ignored [OF keep_laws_mem alloc_ok_mem wf _ _ _ _ _ _ _ m(1,2) _ safe nc m2'(1),
        where minz = 0 and maxz = 1 and zone_cap = 100 and r = undefined]
      m m2'(1) len by (simp add: TropoManifest_init_def safe_size_def kTropoHeaderSize_def)
qed

end
