(* ===== verification/VersionEdit.thy ===== *)
theory VersionEdit
  imports Coding Config
begin

text \<open>
  The metadata of an SSTable (\<open>table/tropodb_zonemetadata.h\<close>) and the edits of the index, with their
  serialisation (\<open>index/tropodb_version_edit.cc\<close>, the tags of \<open>index/tropodb_version.h\<close>). Internal keys are
  their encoded bytes. Memory the constructors leave uninitialised is an argument; a read outside an
  array is \<open>None\<close>.

  The lemmas show that decoding an encoded edit gives it back, less the new tables that it
  deletes itself.
\<close>

section \<open>Data\<close>

record SSZoneMetaData =
  sz_refs :: int
  allowed_seeks :: int
  sz_number :: u64
  L0_lba :: u64
  L0_log_number :: u8
  L0_number :: u64
  lba_regions :: u8
  lbas :: "u64 list"
  lba_region_sizes :: "u64 list"
  sz_numbers :: u64
  lba_count :: u64
  smallest :: bytes
  largest :: bytes

definition SSZoneMetaData_init :: "u64 \<Rightarrow> SSZoneMetaData" where
  "SSZoneMetaData_init uninit =
     \<lparr>sz_refs = 0, allowed_seeks = 2 ^ 30, sz_number = 0, L0_lba = 0, L0_log_number = 0, L0_number = uninit,
      lba_regions = 0, lbas = replicate 8 uninit, lba_region_sizes = replicate 8 uninit, sz_numbers = 0, lba_count = 0,
      smallest = [], largest = []\<rparr>"

text \<open>Copying the first \<open>n\<close> elements of an array over another array.\<close>

definition copy_prefix :: "nat \<Rightarrow> 'a list \<Rightarrow> 'a list \<Rightarrow> 'a list option" where
  "copy_prefix n src dst = do { xs \<leftarrow> read_range src 0 n; write_range dst 0 xs }"

text \<open>\<open>SSZoneMetaData::copy\<close>: the aggregates it assigns leave the members it does not name zero.\<close>

definition SSZoneMetaData_copy :: "SSZoneMetaData \<Rightarrow> SSZoneMetaData option" where
  "SSZoneMetaData_copy m = do {
     ls \<leftarrow> copy_prefix (unat (lba_regions m)) (lbas m) (replicate 8 0);
     zs \<leftarrow> copy_prefix (unat (lba_regions m)) (lba_region_sizes m) (replicate 8 0);
     Some \<lparr>sz_refs = sz_refs m, allowed_seeks = allowed_seeks m, sz_number = sz_number m, L0_lba = L0_lba m,
           L0_log_number = L0_log_number m, L0_number = 0, lba_regions = lba_regions m, lbas = ls,
           lba_region_sizes = zs, sz_numbers = sz_numbers m, lba_count = lba_count m,
           smallest = smallest m, largest = largest m\<rparr>
   }"

datatype TropoVersionTag =
    kComparator
  | kLogNumber
  | kNextSSTableNumber
  | kLastSequence
  | kCompactPointer
  | kDeletedSSTable
  | kNewSSTable
  | kPrevLogNumber
  | kDeletedRange
  | kFragmentedData

definition version_tag :: "TropoVersionTag \<Rightarrow> u32" where
  "version_tag t = (case t of
       kComparator \<Rightarrow> 1
     | kLogNumber \<Rightarrow> 2
     | kNextSSTableNumber \<Rightarrow> 3
     | kLastSequence \<Rightarrow> 4
     | kCompactPointer \<Rightarrow> 5
     | kDeletedSSTable \<Rightarrow> 6
     | kNewSSTable \<Rightarrow> 7
     | kPrevLogNumber \<Rightarrow> 9
     | kDeletedRange \<Rightarrow> 0xa
     | kFragmentedData \<Rightarrow> 0xb)"

record TropoVersionEdit =
  new_ss :: "(u8 \<times> SSZoneMetaData) list"
  deleted_ss :: "(u8 \<times> u64) set"
  fragmented_data :: bytes
  has_fragmented_data :: bool
  deleted_range :: "u64 \<times> u64"
  has_deleted_range :: bool
  deleted_ss_pers :: "(u8 \<times> SSZoneMetaData) list"
  compact_pointers :: "(u8 \<times> bytes) list"
  edit_last_sequence :: u64
  has_last_sequence :: bool
  edit_comparator :: bytes
  has_comparator :: bool
  ss_number :: u64
  has_next_ss_number :: bool

definition edit_Clear :: TropoVersionEdit where
  "edit_Clear =
     \<lparr>new_ss = [], deleted_ss = {}, fragmented_data = [], has_fragmented_data = False, deleted_range = (0, 0),
      has_deleted_range = False, deleted_ss_pers = [], compact_pointers = [], edit_last_sequence = 0,
      has_last_sequence = False, edit_comparator = [], has_comparator = False, ss_number = 0, has_next_ss_number = False\<rparr>"

section \<open>Building an edit\<close>

definition AddSSDefinition ::
  "u64 \<Rightarrow> TropoVersionEdit \<Rightarrow> u8 \<Rightarrow> SSZoneMetaData \<Rightarrow> TropoVersionEdit option" where
  "AddSSDefinition uninit e level meta = do {
     let f = (SSZoneMetaData_init uninit)\<lparr>sz_number := sz_number meta\<rparr>;
     f \<leftarrow> (if level = 0 then
              Some (f\<lparr>L0_lba := L0_lba meta, L0_log_number := L0_log_number meta, L0_number := L0_number meta\<rparr>)
            else do {
              ls \<leftarrow> copy_prefix (unat (lba_regions meta)) (lbas meta) (lbas f);
              zs \<leftarrow> copy_prefix (unat (lba_regions meta)) (lba_region_sizes meta) (lba_region_sizes f);
              Some (f\<lparr>lba_regions := lba_regions meta, lbas := ls, lba_region_sizes := zs\<rparr>)
            });
     let f = f\<lparr>sz_numbers := sz_numbers meta, lba_count := lba_count meta, smallest := smallest meta,
               largest := largest meta\<rparr>;
     Some (e\<lparr>new_ss := new_ss e @ [(level, f)]\<rparr>)
   }"

definition RemoveSSDefinition :: "TropoVersionEdit \<Rightarrow> u8 \<Rightarrow> SSZoneMetaData \<Rightarrow> TropoVersionEdit" where
  "RemoveSSDefinition e level meta =
     e\<lparr>deleted_ss := insert (level, sz_number meta) (deleted_ss e), deleted_ss_pers := deleted_ss_pers e @ [(level, meta)]\<rparr>"

definition RemoveSSDefinitionOnlyMeta :: "TropoVersionEdit \<Rightarrow> u8 \<Rightarrow> SSZoneMetaData \<Rightarrow> TropoVersionEdit" where
  "RemoveSSDefinitionOnlyMeta e level meta = e\<lparr>deleted_ss := insert (level, sz_number meta) (deleted_ss e)\<rparr>"

definition SetLastSequence :: "TropoVersionEdit \<Rightarrow> u64 \<Rightarrow> TropoVersionEdit" where
  "SetLastSequence e seq = e\<lparr>has_last_sequence := True, edit_last_sequence := seq\<rparr>"

definition SetComparatorName :: "TropoVersionEdit \<Rightarrow> bytes \<Rightarrow> TropoVersionEdit" where
  "SetComparatorName e name = e\<lparr>has_comparator := True, edit_comparator := name\<rparr>"

definition SetSSNumber :: "TropoVersionEdit \<Rightarrow> u64 \<Rightarrow> TropoVersionEdit" where
  "SetSSNumber e num = e\<lparr>has_next_ss_number := True, ss_number := num\<rparr>"

definition SetCompactPointer :: "TropoVersionEdit \<Rightarrow> u8 \<Rightarrow> bytes \<Rightarrow> TropoVersionEdit" where
  "SetCompactPointer e level key = e\<lparr>compact_pointers := compact_pointers e @ [(level, key)]\<rparr>"

definition AddDeletedRange :: "TropoVersionEdit \<Rightarrow> u64 \<times> u64 \<Rightarrow> TropoVersionEdit" where
  "AddDeletedRange e rng = e\<lparr>deleted_range := rng, has_deleted_range := True\<rparr>"

definition AddFragmentedData :: "TropoVersionEdit \<Rightarrow> bytes \<Rightarrow> TropoVersionEdit" where
  "AddFragmentedData e data = e\<lparr>fragmented_data := data, has_fragmented_data := True\<rparr>"

definition AddDeletedSSTable :: "TropoVersionEdit \<Rightarrow> u8 \<Rightarrow> SSZoneMetaData \<Rightarrow> TropoVersionEdit" where
  "AddDeletedSSTable e level meta = e\<lparr>deleted_ss_pers := deleted_ss_pers e @ [(level, meta)]\<rparr>"

section \<open>Encoding\<close>

text \<open>The loop over the regions, from index \<open>j\<close>.\<close>

fun encode_regions :: "bytes \<Rightarrow> u64 list \<Rightarrow> u64 list \<Rightarrow> nat \<Rightarrow> bytes option" where
  "encode_regions dst ls zs 0 = Some dst"
| "encode_regions dst (l # ls) (z # zs) (Suc n) = encode_regions (PutVarint64 (PutVarint64 dst l) z) ls zs n"
| "encode_regions dst _ _ (Suc n) = None"

text \<open>What the loops over deleted and over new tables write for one table, behind the tag.\<close>

definition encode_meta :: "bytes \<Rightarrow> u8 \<Rightarrow> SSZoneMetaData \<Rightarrow> bytes option" where
  "encode_meta dst level m = do {
     let dst = PutFixed8 dst level;
     let dst = PutVarint64 dst (sz_number m);
     dst \<leftarrow> (if level = 0 then
                let dst = PutVarint64 dst (L0_lba m);
                    dst = PutFixed8 dst (L0_log_number m);
                    dst = PutVarint64 dst (L0_number m)
                in Some dst
              else encode_regions (PutFixed8 dst (lba_regions m)) (lbas m) (lba_region_sizes m) (unat (lba_regions m)));
     let dst = PutVarint64 dst (sz_numbers m);
     let dst = PutVarint64 dst (lba_count m);
     let dst = PutLengthPrefixedSlice dst (smallest m);
     Some (PutLengthPrefixedSlice dst (largest m))
   }"

fun encode_pointers :: "bytes \<Rightarrow> (u8 \<times> bytes) list \<Rightarrow> bytes" where
  "encode_pointers dst [] = dst"
| "encode_pointers dst ((level, key) # ps) =
     encode_pointers (PutLengthPrefixedSlice (PutFixed8 (PutVarint32 dst (version_tag kCompactPointer)) level) key) ps"

fun encode_deleted :: "bytes \<Rightarrow> (u8 \<times> SSZoneMetaData) list \<Rightarrow> bytes option" where
  "encode_deleted dst [] = Some dst"
| "encode_deleted dst ((level, m) # ms) = do {
     dst \<leftarrow> encode_meta (PutVarint32 dst (version_tag kDeletedSSTable)) level m;
     encode_deleted dst ms
   }"

fun encode_new :: "(u8 \<times> u64) set \<Rightarrow> bytes \<Rightarrow> (u8 \<times> SSZoneMetaData) list \<Rightarrow> bytes option" where
  "encode_new del dst [] = Some dst"
| "encode_new del dst ((level, m) # ms) =
     (if (level, sz_number m) \<in> del then encode_new del dst ms
      else do {
        dst \<leftarrow> encode_meta (PutVarint32 dst (version_tag kNewSSTable)) level m;
        encode_new del dst ms
      })"

definition EncodeTo :: "TropoVersionEdit \<Rightarrow> bytes \<Rightarrow> bytes option" where
  "EncodeTo e dst = do {
     let dst = (if has_comparator e
                then PutLengthPrefixedSlice (PutVarint32 dst (version_tag kComparator)) (edit_comparator e) else dst);
     let dst = (if has_last_sequence e
                then PutVarint64 (PutVarint32 dst (version_tag kLastSequence)) (edit_last_sequence e) else dst);
     let dst = (if has_next_ss_number e
                then PutVarint64 (PutVarint32 dst (version_tag kNextSSTableNumber)) (ss_number e) else dst);
     let dst = encode_pointers dst (compact_pointers e);
     let dst = (if has_deleted_range e
                then PutVarint64 (PutVarint64 (PutVarint32 dst (version_tag kDeletedRange)) (fst (deleted_range e)))
                       (snd (deleted_range e))
                else dst);
     dst \<leftarrow> encode_deleted dst (deleted_ss_pers e);
     dst \<leftarrow> encode_new (deleted_ss e) dst (new_ss e);
     Some (if has_fragmented_data e
           then PutLengthPrefixedSlice (PutVarint32 dst (version_tag kFragmentedData)) (fragmented_data e) else dst)
   }"

section \<open>Decoding\<close>

definition GetInternalKey :: "bytes \<Rightarrow> (bytes \<times> bytes) option" where
  "GetInternalKey input = GetLengthPrefixedSlice input"

definition GetLevel :: "bytes \<Rightarrow> (u8 \<times> bytes) option" where
  "GetLevel input = do {
     (v, input) \<leftarrow> GetFixed8 input;
     if unat v < level_count then Some (v, input) else None
   }"

definition DecodeL0 :: "bytes \<Rightarrow> SSZoneMetaData \<Rightarrow> (SSZoneMetaData \<times> bytes) option" where
  "DecodeL0 input m = do {
     (number, input) \<leftarrow> GetVarint64 input;
     (lba, input) \<leftarrow> GetVarint64 input;
     (log_number, input) \<leftarrow> GetFixed8 input;
     (l0_number, input) \<leftarrow> GetVarint64 input;
     (numbers, input) \<leftarrow> GetVarint64 input;
     (count, input) \<leftarrow> GetVarint64 input;
     (small, input) \<leftarrow> GetInternalKey input;
     (large, input) \<leftarrow> GetInternalKey input;
     Some (m\<lparr>sz_number := number, L0_lba := lba, L0_log_number := log_number, L0_number := l0_number,
             sz_numbers := numbers, lba_count := count, smallest := small, largest := large\<rparr>, input)
   }"

text \<open>The loop over the regions, from index \<open>i\<close>; \<open>n\<close> regions are left.\<close>

fun decode_regions :: "nat \<Rightarrow> nat \<Rightarrow> bytes \<Rightarrow> SSZoneMetaData \<Rightarrow> (SSZoneMetaData \<times> bytes) option" where
  "decode_regions 0 i input m = Some (m, input)"
| "decode_regions (Suc n) i input m = do {
     (l, input) \<leftarrow> GetVarint64 input;
     (z, input) \<leftarrow> GetVarint64 input;
     decode_regions n (Suc i) input (m\<lparr>lbas := (lbas m)[i := l], lba_region_sizes := (lba_region_sizes m)[i := z]\<rparr>)
   }"

definition DecodeLN :: "bytes \<Rightarrow> SSZoneMetaData \<Rightarrow> (SSZoneMetaData \<times> bytes) option" where
  "DecodeLN input m = do {
     (number, input) \<leftarrow> GetVarint64 input;
     (regions, input) \<leftarrow> GetFixed8 input;
     if \<not> unat regions \<le> 8 then None
     else do {
       (m, input) \<leftarrow> decode_regions (unat regions) 0 input (m\<lparr>sz_number := number, lba_regions := regions\<rparr>);
       (numbers, input) \<leftarrow> GetVarint64 input;
       (count, input) \<leftarrow> GetVarint64 input;
       (small, input) \<leftarrow> GetInternalKey input;
       (large, input) \<leftarrow> GetInternalKey input;
       Some (m\<lparr>sz_numbers := numbers, lba_count := count, smallest := small, largest := large\<rparr>, input)
     }
   }"

definition DecodeLevel :: "bytes \<Rightarrow> u8 \<Rightarrow> SSZoneMetaData \<Rightarrow> (SSZoneMetaData \<times> bytes) option" where
  "DecodeLevel input level m = (if level = 0 then DecodeL0 input m else DecodeLN input m)"

text \<open>The \<open>switch\<close> of \<open>DecodeFrom\<close> on one tag; \<open>None\<close> when it sets an error message. The metadata \<open>m\<close> is a
  variable of the whole loop, so that members that an entry does not have keep their last value.\<close>

definition decode_tag ::
  "u32 \<Rightarrow> TropoVersionEdit \<Rightarrow> SSZoneMetaData \<Rightarrow> bytes \<Rightarrow> (TropoVersionEdit \<times> SSZoneMetaData \<times> bytes) option" where
  "decode_tag tag e m input =
     (if tag = version_tag kComparator then do {
        (str, input) \<leftarrow> GetLengthPrefixedSlice input;
        Some (e\<lparr>edit_comparator := str, has_comparator := True\<rparr>, m, input)
      } else if tag = version_tag kLastSequence then do {
        (v, input) \<leftarrow> GetVarint64 input;
        Some (e\<lparr>edit_last_sequence := v, has_last_sequence := True\<rparr>, m, input)
      } else if tag = version_tag kNextSSTableNumber then do {
        (v, input) \<leftarrow> GetVarint64 input;
        Some (e\<lparr>ss_number := v, has_next_ss_number := True\<rparr>, m, input)
      } else if tag = version_tag kDeletedRange then do {
        (number, input) \<leftarrow> GetVarint64 input;
        (number_second, input) \<leftarrow> GetVarint64 input;
        Some (e\<lparr>deleted_range := (number, number_second), has_deleted_range := True\<rparr>, m, input)
      } else if tag = version_tag kDeletedSSTable then do {
        (level, input) \<leftarrow> GetLevel input;
        (m, input) \<leftarrow> DecodeLevel input level m;
        Some (e\<lparr>deleted_ss_pers := deleted_ss_pers e @ [(level, m)]\<rparr>, m, input)
      } else if tag = version_tag kNewSSTable then do {
        (level, input) \<leftarrow> GetLevel input;
        (m, input) \<leftarrow> DecodeLevel input level m;
        Some (e\<lparr>new_ss := new_ss e @ [(level, m)]\<rparr>, m, input)
      } else if tag = version_tag kCompactPointer then do {
        (level, input) \<leftarrow> GetLevel input;
        (key, input) \<leftarrow> GetInternalKey input;
        Some (e\<lparr>compact_pointers := compact_pointers e @ [(level, key)]\<rparr>, m, input)
      } else if tag = version_tag kFragmentedData then do {
        (frag, input) \<leftarrow> GetLengthPrefixedSlice input;
        Some (e\<lparr>fragmented_data := frag, has_fragmented_data := True\<rparr>, m, input)
      } else None)"

lemma GetLevel_shrinks: "GetLevel input = Some (v, rest) \<Longrightarrow> length rest < length input"
  by (auto simp: GetLevel_def bind_eq_Some_conv split: if_splits dest!: fixed8.get_shrinks)

lemma decode_regions_shrinks: "decode_regions n i input m = Some (m', rest) \<Longrightarrow> length rest \<le> length input"
proof (induction n arbitrary: i input m)
  case (Suc n)
  then obtain l i1 z i2 m1 where g: "GetVarint64 input = Some (l, i1)" "GetVarint64 i1 = Some (z, i2)"
    "decode_regions n (Suc i) i2 m1 = Some (m', rest)"
    by (auto simp: bind_eq_Some_conv)
  then show ?case using Suc.IH [OF g(3)] varint64.get_shrinks [OF g(1)] varint64.get_shrinks [OF g(2)] by simp
qed simp

lemma DecodeLevel_shrinks: "DecodeLevel input level m = Some (m', rest) \<Longrightarrow> length rest < length input"
  by (fastforce simp: DecodeLevel_def DecodeL0_def DecodeLN_def GetInternalKey_def bind_eq_Some_conv split: if_splits
      dest!: varint64.get_shrinks fixed8.get_shrinks slice.get_shrinks decode_regions_shrinks)

lemma decode_tag_shrinks: "decode_tag tag e m input = Some (e', m', rest) \<Longrightarrow> length rest < length input"
  by (fastforce simp: decode_tag_def GetInternalKey_def bind_eq_Some_conv split: if_splits
      dest!: varint64.get_shrinks slice.get_shrinks GetLevel_shrinks DecodeLevel_shrinks)

function decode_edit_loop :: "TropoVersionEdit \<Rightarrow> SSZoneMetaData \<Rightarrow> bytes \<Rightarrow> status \<times> TropoVersionEdit" where
  "decode_edit_loop e m input =
     (case GetVarint32 input of
        None \<Rightarrow> (if input \<noteq> [] then Corruption else OK, e)
      | Some (tag, input') \<Rightarrow>
          (case decode_tag tag e m input' of
             None \<Rightarrow> (Corruption, e)
           | Some (e', m', input'') \<Rightarrow> decode_edit_loop e' m' input''))"
  by pat_completeness auto
termination
  by (relation "measure (\<lambda>(e, m, input). length input)")
    (auto dest!: varint32.get_shrinks decode_tag_shrinks)

declare decode_edit_loop.simps [simp del]

definition edit_DecodeFrom :: "u64 \<Rightarrow> TropoVersionEdit \<Rightarrow> bytes \<Rightarrow> status \<times> TropoVersionEdit" where
  "edit_DecodeFrom uninit e src = decode_edit_loop e (SSZoneMetaData_init uninit) src"

section \<open>Reference encoding of a table\<close>

definition array_ok :: "SSZoneMetaData \<Rightarrow> bool" where
  "array_ok m \<longleftrightarrow> length (lbas m) = 8 \<and> length (lba_region_sizes m) = 8"

definition meta_ok :: "u8 \<times> SSZoneMetaData \<Rightarrow> bool" where
  "meta_ok lm \<longleftrightarrow> unat (fst lm) < level_count \<and> array_ok (snd lm) \<and> unat (lba_regions (snd lm)) \<le> 8 \<and>
     length (smallest (snd lm)) < 2 ^ 32 \<and> length (largest (snd lm)) < 2 ^ 32"

text \<open>The regions of a table, and what of the metadata of a table is stored.\<close>

definition regions :: "SSZoneMetaData \<Rightarrow> (u64 \<times> u64) list" where
  "regions m = take (unat (lba_regions m)) (zip (lbas m) (lba_region_sizes m))"

definition meta_view :: "u8 \<times> SSZoneMetaData \<Rightarrow>
    u8 \<times> u64 \<times> (u64 \<times> u8 \<times> u64 + (u64 \<times> u64) list) \<times> u64 \<times> u64 \<times> bytes \<times> bytes" where
  "meta_view lm = (let (level, m) = lm in
     (level, sz_number m,
      if level = 0 then Inl (L0_lba m, L0_log_number m, L0_number m) else Inr (regions m),
      sz_numbers m, lba_count m, smallest m, largest m))"

definition enc_regions :: "(u64 \<times> u64) list \<Rightarrow> bytes" where
  "enc_regions rs = concat (map (\<lambda>(l, z). EncodeVarint64 l @ EncodeVarint64 z) rs)"

definition enc_place :: "u8 \<Rightarrow> SSZoneMetaData \<Rightarrow> bytes" where
  "enc_place level m =
     (if level = 0 then EncodeVarint64 (L0_lba m) @ EncodeFixed8 (L0_log_number m) @ EncodeVarint64 (L0_number m)
      else EncodeFixed8 (lba_regions m) @ enc_regions (regions m))"

definition enc_table :: "u8 \<times> SSZoneMetaData \<Rightarrow> bytes" where
  "enc_table lm = (let (level, m) = lm in
     EncodeFixed8 level @ EncodeVarint64 (sz_number m) @ enc_place level m @ EncodeVarint64 (sz_numbers m) @
     EncodeVarint64 (lba_count m) @ PutLengthPrefixedSlice [] (smallest m) @ PutLengthPrefixedSlice [] (largest m))"

lemmas put_simps = PutVarint32_def PutVarint64_def PutFixed_eq(1) slice.put_appends [of "_ @ _"]

lemma encode_regions_eq:
  "n \<le> length ls \<Longrightarrow> n \<le> length zs \<Longrightarrow> encode_regions dst ls zs n = Some (dst @ enc_regions (take n (zip ls zs)))"
proof (induction dst ls zs n rule: encode_regions.induct)
  case (2 dst l ls z zs n)
  then show ?case by (simp add: put_simps enc_regions_def)
qed (auto simp: enc_regions_def)

lemma encode_meta_eq:
  assumes "meta_ok lm"
  shows "encode_meta dst (fst lm) (snd lm) = Some (dst @ enc_table lm)"
  using assms
  by (cases lm) (simp add: encode_meta_def enc_table_def enc_place_def put_simps Let_def meta_ok_def array_ok_def
      encode_regions_eq regions_def)

lemma encode_pointers_eq:
  "encode_pointers dst ps = dst @ concat (map (\<lambda>(level, key).
     EncodeVarint32 (version_tag kCompactPointer) @ EncodeFixed8 level @ PutLengthPrefixedSlice [] key) ps)"
  by (induction dst ps rule: encode_pointers.induct) (simp_all add: put_simps)

lemma encode_deleted_eq:
  "\<forall>lm\<in>set ms. meta_ok lm \<Longrightarrow>
   encode_deleted dst ms = Some (dst @ concat (map (\<lambda>lm. EncodeVarint32 (version_tag kDeletedSSTable) @ enc_table lm) ms))"
proof (induction dst ms rule: encode_deleted.induct)
  case (2 dst level m ms)
  then show ?case using encode_meta_eq [of "(level, m)"] by (simp add: put_simps)
qed simp

lemma encode_new_eq:
  "\<forall>lm\<in>set ms. meta_ok lm \<Longrightarrow>
   encode_new del dst ms = Some (dst @ concat (map (\<lambda>lm. EncodeVarint32 (version_tag kNewSSTable) @ enc_table lm)
     (filter (\<lambda>(level, m). (level, sz_number m) \<notin> del) ms)))"
proof (induction del dst ms rule: encode_new.induct)
  case (2 del dst level m ms)
  then show ?case using encode_meta_eq [of "(level, m)"] by (simp add: put_simps)
qed simp

section \<open>Decoding an encoded table\<close>

lemma decode_regions_eq:
  assumes "i + length rs \<le> length (lbas m)" and "length (lba_region_sizes m) = length (lbas m)"
  shows "decode_regions (length rs) i (enc_regions rs @ rest) m =
    Some (m\<lparr>lbas := take i (lbas m) @ map fst rs @ drop (i + length rs) (lbas m),
            lba_region_sizes := take i (lba_region_sizes m) @ map snd rs @ drop (i + length rs) (lba_region_sizes m)\<rparr>, rest)"
  using assms
proof (induction rs arbitrary: i m)
  case Nil
  then show ?case by (simp add: enc_regions_def)
next
  case (Cons r rs)
  obtain l z where r: "r = (l, z)" by force
  let ?m = "m\<lparr>lbas := (lbas m)[i := l], lba_region_sizes := (lba_region_sizes m)[i := z]\<rparr>"
  have "decode_regions (length (r # rs)) i (enc_regions (r # rs) @ rest) m = decode_regions (length rs) (Suc i) (enc_regions rs @ rest) ?m"
    by (simp add: r enc_regions_def coding_simps)
  moreover have "take (Suc i) (xs[i := x]) = take i xs @ [x]" if "i < length xs" for xs :: "u64 list" and x
    using that by (simp add: take_Suc_conv_app_nth)
  ultimately show ?case using Cons.IH [of "Suc i" ?m] Cons.prems by (simp add: r)
qed

lemma GetFixed8_Cons: "GetFixed8 (v # rest) = Some (v, rest)"
  using GetFixed_EncodeFixed(1) [of v rest] by simp

lemmas get_simps = GetFixed8_Cons GetVarint64_EncodeVarint64 GetVarint32_EncodeVarint32 GetFixed_EncodeFixed(1)
  GetLengthPrefixedSlice_Put

lemma DecodeLevel_table:
  assumes ok: "meta_ok (level, m)" and m0: "array_ok m0"
  shows "\<exists>m1. DecodeLevel (EncodeVarint64 (sz_number m) @ enc_place level m @ EncodeVarint64 (sz_numbers m) @
     EncodeVarint64 (lba_count m) @ PutLengthPrefixedSlice [] (smallest m) @ PutLengthPrefixedSlice [] (largest m) @ rest) level m0 =
    Some (m1, rest) \<and> meta_view (level, m1) = meta_view (level, m) \<and> array_ok m1"
proof (cases "level = 0")
  case True
  then show ?thesis
    using ok m0 by (simp add: DecodeLevel_def DecodeL0_def GetInternalKey_def enc_place_def get_simps meta_ok_def meta_view_def array_ok_def
        del: EncodeFixed8_def)
next
  case False
  have n: "length (regions m) = unat (lba_regions m)" "unat (lba_regions m) \<le> 8"
    using ok by (auto simp: regions_def meta_ok_def array_ok_def)
  let ?m = "m0\<lparr>sz_number := sz_number m, lba_regions := lba_regions m\<rparr>"
  have "decode_regions (unat (lba_regions m)) 0 (enc_regions (regions m) @ post) ?m = Some
      (?m\<lparr>lbas := map fst (regions m) @ drop (unat (lba_regions m)) (lbas m0),
          lba_region_sizes := map snd (regions m) @ drop (unat (lba_regions m)) (lba_region_sizes m0)\<rparr>, post)" for post
    using decode_regions_eq [of 0 "regions m" ?m post] n m0 by (simp add: array_ok_def)
  moreover have "take (unat (lba_regions m)) (zip (map fst (regions m) @ a) (map snd (regions m) @ b)) = regions m" for a b
    using n(1) by (simp add: zip_append zip_map_fst_snd)
  ultimately show ?thesis
    using ok m0 n False
    by (simp add: DecodeLevel_def DecodeLN_def GetInternalKey_def enc_place_def get_simps meta_ok_def meta_view_def array_ok_def
        regions_def [of "_\<lparr>largest := _\<rparr>"])
qed

section \<open>Reference encoding of an edit\<close>

definition enc_tag :: "TropoVersionTag \<Rightarrow> bytes" where
  "enc_tag t = EncodeVarint32 (version_tag t)"

definition enc_pointer :: "u8 \<times> bytes \<Rightarrow> bytes" where
  "enc_pointer p = enc_tag kCompactPointer @ EncodeFixed8 (fst p) @ PutLengthPrefixedSlice [] (snd p)"

definition kept_tables :: "TropoVersionEdit \<Rightarrow> (u8 \<times> SSZoneMetaData) list" where
  "kept_tables e = filter (\<lambda>(level, m). (level, sz_number m) \<notin> deleted_ss e) (new_ss e)"

definition edit_ok :: "TropoVersionEdit \<Rightarrow> bool" where
  "edit_ok e \<longleftrightarrow> length (edit_comparator e) < 2 ^ 32 \<and> length (fragmented_data e) < 2 ^ 32 \<and>
     (\<forall>(level, key)\<in>set (compact_pointers e). unat level < level_count \<and> length key < 2 ^ 32) \<and>
     (\<forall>lm\<in>set (deleted_ss_pers e). meta_ok lm) \<and> (\<forall>lm\<in>set (new_ss e). meta_ok lm)"

definition enc_edit :: "TropoVersionEdit \<Rightarrow> bytes" where
  "enc_edit e =
     (if has_comparator e then enc_tag kComparator @ PutLengthPrefixedSlice [] (edit_comparator e) else []) @
     (if has_last_sequence e then enc_tag kLastSequence @ EncodeVarint64 (edit_last_sequence e) else []) @
     (if has_next_ss_number e then enc_tag kNextSSTableNumber @ EncodeVarint64 (ss_number e) else []) @
     concat (map enc_pointer (compact_pointers e)) @
     (if has_deleted_range e then enc_tag kDeletedRange @ EncodeVarint64 (fst (deleted_range e)) @
        EncodeVarint64 (snd (deleted_range e)) else []) @
     concat (map (\<lambda>lm. enc_tag kDeletedSSTable @ enc_table lm) (deleted_ss_pers e)) @
     concat (map (\<lambda>lm. enc_tag kNewSSTable @ enc_table lm) (kept_tables e)) @
     (if has_fragmented_data e then enc_tag kFragmentedData @ PutLengthPrefixedSlice [] (fragmented_data e) else [])"

lemma EncodeTo_eq:
  assumes "edit_ok e"
  shows "EncodeTo e dst = Some (dst @ enc_edit e)"
proof -
  have p: "encode_pointers d (compact_pointers e) = d @ concat (map enc_pointer (compact_pointers e))" for d
  proof -
    have "enc_pointer = (\<lambda>(level, key). EncodeVarint32 (version_tag kCompactPointer) @ EncodeFixed8 level @ PutLengthPrefixedSlice [] key)"
      by (auto simp: fun_eq_iff enc_pointer_def enc_tag_def)
    then show ?thesis by (simp only: encode_pointers_eq)
  qed
  have d: "encode_deleted d (deleted_ss_pers e) = Some (d @ concat (map (\<lambda>lm. enc_tag kDeletedSSTable @ enc_table lm) (deleted_ss_pers e)))" for d
    using encode_deleted_eq assms by (simp add: enc_tag_def edit_ok_def)
  have n: "encode_new (deleted_ss e) d (new_ss e) = Some (d @ concat (map (\<lambda>lm. enc_tag kNewSSTable @ enc_table lm) (kept_tables e)))" for d
    using encode_new_eq assms by (simp add: enc_tag_def edit_ok_def kept_tables_def)
  show ?thesis
    unfolding EncodeTo_def Let_def p d n Option.bind_lunit
    by (simp add: enc_edit_def enc_tag_def put_simps)
qed

section \<open>Decoding an encoded edit\<close>

lemma decode_edit_loop_tag:
  "decode_edit_loop e m (enc_tag t @ body) =
     (case decode_tag (version_tag t) e m body of
        None \<Rightarrow> (Corruption, e) | Some (e', m', input) \<Rightarrow> decode_edit_loop e' m' input)"
  by (subst decode_edit_loop.simps) (simp add: enc_tag_def get_simps)

lemma decode_pointers:
  assumes "\<forall>(level, key)\<in>set ps. unat level < level_count \<and> length key < 2 ^ 32"
  shows "decode_edit_loop e m (concat (map enc_pointer ps) @ rest) =
    decode_edit_loop (e\<lparr>compact_pointers := compact_pointers e @ ps\<rparr>) m rest"
  using assms
proof (induction ps arbitrary: e)
  case (Cons p ps)
  obtain level key where p: "p = (level, key)" by force
  have "decode_edit_loop e m (enc_pointer p @ post) = decode_edit_loop (e\<lparr>compact_pointers := compact_pointers e @ [p]\<rparr>) m post" for post
    using Cons.prems
    by (simp add: enc_pointer_def decode_edit_loop_tag decode_tag_def version_tag_def p GetLevel_def GetInternalKey_def get_simps)
  then show ?case using Cons by simp
qed simp

text \<open>The tables of an edit, for either tag: \<open>upd\<close> appends to the field that belongs to the tag.\<close>

lemma decode_tables:
  assumes tag: "\<And>e m input. decode_tag (version_tag t) e m input = do {
      (level, input) \<leftarrow> GetLevel input; (m, input) \<leftarrow> DecodeLevel input level m; Some (upd e [(level, m)], m, input) }"
    and upd: "\<And>e. upd e [] = e" "\<And>e xs ys. upd (upd e xs) ys = upd e (xs @ ys)"
    and ok: "\<forall>lm\<in>set ms. meta_ok lm" "array_ok m"
  shows "\<exists>ns m'. decode_edit_loop e m (concat (map (\<lambda>lm. enc_tag t @ enc_table lm) ms) @ rest) =
    decode_edit_loop (upd e ns) m' rest \<and> map meta_view ns = map meta_view ms \<and> array_ok m'"
  using ok
proof (induction ms arbitrary: e m)
  case Nil
  then show ?case by (intro exI [of _ "[]"] exI [of _ m]) (simp add: upd)
next
  case (Cons lm ms)
  obtain level x where lm: "lm = (level, x)" by force
  let ?rest = "concat (map (\<lambda>lm. enc_tag t @ enc_table lm) ms) @ rest"
  have ok: "meta_ok (level, x)" "unat level < level_count" using Cons.prems lm by (auto simp: meta_ok_def)
  obtain m1 where m1: "DecodeLevel (EncodeVarint64 (sz_number x) @ enc_place level x @ EncodeVarint64 (sz_numbers x) @
     EncodeVarint64 (lba_count x) @ PutLengthPrefixedSlice [] (smallest x) @ PutLengthPrefixedSlice [] (largest x) @ ?rest) level m =
    Some (m1, ?rest)" "meta_view (level, m1) = meta_view lm" "array_ok m1"
    using DecodeLevel_table [OF ok(1) Cons.prems(2)] lm by blast
  have "decode_edit_loop e m (enc_tag t @ enc_table lm @ ?rest) = decode_edit_loop (upd e [(level, m1)]) m1 ?rest"
    using m1(1) ok(2) by (simp add: decode_edit_loop_tag tag lm enc_table_def GetLevel_def get_simps)
  moreover obtain ns m' where "decode_edit_loop (upd e [(level, m1)]) m1 ?rest = decode_edit_loop (upd e ((level, m1) # ns)) m' rest"
    "map meta_view ns = map meta_view ms" "array_ok m'"
    using Cons.IH [OF _ m1(3), of "upd e [(level, m1)]"] Cons.prems(1) by (auto simp: upd)
  ultimately show ?case
    using m1(2) by (intro exI [of _ "(level, m1) # ns"] exI [of _ m']) simp
qed

lemmas decode_deleted = decode_tables [of kDeletedSSTable "\<lambda>e ns. e\<lparr>deleted_ss_pers := deleted_ss_pers e @ ns\<rparr>",
    simplified decode_tag_def version_tag_def, simplified]
lemmas decode_new = decode_tables [of kNewSSTable "\<lambda>e ns. e\<lparr>new_ss := new_ss e @ ns\<rparr>",
    simplified decode_tag_def version_tag_def, simplified]

text \<open>The fields that are there or not.\<close>

lemma decode_optional:
  "length (edit_comparator x) < 2 ^ 32 \<Longrightarrow>
   decode_edit_loop e m ((if has_comparator x then enc_tag kComparator @ PutLengthPrefixedSlice [] (edit_comparator x) else []) @ rest) =
     decode_edit_loop (if has_comparator x then e\<lparr>edit_comparator := edit_comparator x, has_comparator := True\<rparr> else e) m rest"
  "decode_edit_loop e m ((if has_last_sequence x then enc_tag kLastSequence @ EncodeVarint64 (edit_last_sequence x) else []) @ rest) =
     decode_edit_loop (if has_last_sequence x then e\<lparr>edit_last_sequence := edit_last_sequence x, has_last_sequence := True\<rparr> else e) m rest"
  "decode_edit_loop e m ((if has_next_ss_number x then enc_tag kNextSSTableNumber @ EncodeVarint64 (ss_number x) else []) @ rest) =
     decode_edit_loop (if has_next_ss_number x then e\<lparr>ss_number := ss_number x, has_next_ss_number := True\<rparr> else e) m rest"
  "decode_edit_loop e m ((if has_deleted_range x then enc_tag kDeletedRange @ EncodeVarint64 (fst (deleted_range x)) @
       EncodeVarint64 (snd (deleted_range x)) else []) @ rest) =
     decode_edit_loop (if has_deleted_range x then e\<lparr>deleted_range := deleted_range x, has_deleted_range := True\<rparr> else e) m rest"
  "length (fragmented_data x) < 2 ^ 32 \<Longrightarrow>
   decode_edit_loop e m (if has_fragmented_data x then enc_tag kFragmentedData @ PutLengthPrefixedSlice [] (fragmented_data x) else []) =
     decode_edit_loop (if has_fragmented_data x then e\<lparr>fragmented_data := fragmented_data x, has_fragmented_data := True\<rparr> else e) m []"
  using GetLengthPrefixedSlice_Put [of "fragmented_data x" "[]"]
  by (simp_all add: decode_edit_loop_tag decode_tag_def version_tag_def get_simps)

lemma decode_edit_loop_end: "decode_edit_loop e m [] = (OK, e)"
  by (subst decode_edit_loop.simps) (simp add: GetVarint32_def GetVarint32Ptr_def GetVarint32PtrFallback_def)

section \<open>Properties\<close>

text \<open>C5: Decoding an encoded edit gives it back. For every edit with valid levels, at most eight regions per
  table and names and keys below 4 GiB, encoding succeeds, and decoding the result into a cleared
  edit succeeds with the same comparator, sequence number, table number, compaction pointers,
  deleted range and fragmented data, the same deleted tables, and those new tables that the edit
  does not delete itself, in order. Of a table it is the stored members that agree.\<close>

theorem version_edit_roundtrip:
  assumes "edit_ok e"
  shows "\<exists>bs d. EncodeTo e [] = Some bs \<and> edit_DecodeFrom uninit edit_Clear bs = (OK, d) \<and>
    has_comparator d = has_comparator e \<and> (has_comparator e \<longrightarrow> edit_comparator d = edit_comparator e) \<and>
    has_last_sequence d = has_last_sequence e \<and> (has_last_sequence e \<longrightarrow> edit_last_sequence d = edit_last_sequence e) \<and>
    has_next_ss_number d = has_next_ss_number e \<and> (has_next_ss_number e \<longrightarrow> ss_number d = ss_number e) \<and>
    has_deleted_range d = has_deleted_range e \<and> (has_deleted_range e \<longrightarrow> deleted_range d = deleted_range e) \<and>
    has_fragmented_data d = has_fragmented_data e \<and> (has_fragmented_data e \<longrightarrow> fragmented_data d = fragmented_data e) \<and>
    compact_pointers d = compact_pointers e \<and>
    map meta_view (deleted_ss_pers d) = map meta_view (deleted_ss_pers e) \<and>
    map meta_view (new_ss d) = map meta_view (filter (\<lambda>(level, m). (level, sz_number m) \<notin> deleted_ss e) (new_ss e))"
proof -
  define e1 where "e1 = (if has_comparator e then edit_Clear\<lparr>edit_comparator := edit_comparator e, has_comparator := True\<rparr> else edit_Clear)"
  define e2 where "e2 = (if has_last_sequence e then e1\<lparr>edit_last_sequence := edit_last_sequence e, has_last_sequence := True\<rparr> else e1)"
  define e3 where "e3 = (if has_next_ss_number e then e2\<lparr>ss_number := ss_number e, has_next_ss_number := True\<rparr> else e2)"
  define e4 where "e4 = e3\<lparr>compact_pointers := compact_pointers e3 @ compact_pointers e\<rparr>"
  define e5 where "e5 = (if has_deleted_range e then e4\<lparr>deleted_range := deleted_range e, has_deleted_range := True\<rparr> else e4)"
  have a0: "array_ok (SSZoneMetaData_init uninit)" by (simp add: array_ok_def SSZoneMetaData_init_def)
  have kept: "\<forall>lm\<in>set (kept_tables e). meta_ok lm" using assms by (auto simp: edit_ok_def kept_tables_def)
  have ptrs: "\<forall>(level, key)\<in>set (compact_pointers e). unat level < level_count \<and> length key < 2 ^ 32"
    using assms unfolding edit_ok_def by blast
  have small: "length (edit_comparator e) < 2 ^ 32" "length (fragmented_data e) < 2 ^ 32" using assms by (auto simp: edit_ok_def)
  let ?frag = "if has_fragmented_data e then enc_tag kFragmentedData @ PutLengthPrefixedSlice [] (fragmented_data e) else []"
  let ?new = "concat (map (\<lambda>lm. enc_tag kNewSSTable @ enc_table lm) (kept_tables e))"
  obtain ds m1 where 1: "decode_edit_loop e5 (SSZoneMetaData_init uninit)
      (concat (map (\<lambda>lm. enc_tag kDeletedSSTable @ enc_table lm) (deleted_ss_pers e)) @ ?new @ ?frag) =
      decode_edit_loop (e5\<lparr>deleted_ss_pers := deleted_ss_pers e5 @ ds\<rparr>) m1 (?new @ ?frag)"
    "map meta_view ds = map meta_view (deleted_ss_pers e)" "array_ok m1"
    using decode_deleted [OF _ a0, of "deleted_ss_pers e"] assms unfolding edit_ok_def by blast
  obtain ns m2 where 2: "decode_edit_loop (e5\<lparr>deleted_ss_pers := deleted_ss_pers e5 @ ds\<rparr>) m1 (?new @ ?frag) =
      decode_edit_loop (e5\<lparr>deleted_ss_pers := deleted_ss_pers e5 @ ds, new_ss := new_ss e5 @ ns\<rparr>) m2 ?frag"
    "map meta_view ns = map meta_view (kept_tables e)" "array_ok m2"
    using decode_new [OF kept 1(3), of "e5\<lparr>deleted_ss_pers := deleted_ss_pers e5 @ ds\<rparr>" ?frag] by auto
  define d where "d = (let e6 = e5\<lparr>deleted_ss_pers := deleted_ss_pers e5 @ ds, new_ss := new_ss e5 @ ns\<rparr> in
      if has_fragmented_data e then e6\<lparr>fragmented_data := fragmented_data e, has_fragmented_data := True\<rparr> else e6)"
  have "edit_DecodeFrom uninit edit_Clear (enc_edit e) = (OK, d)"
    unfolding edit_DecodeFrom_def enc_edit_def d_def Let_def
    by (simp only: decode_optional small decode_pointers [OF ptrs] decode_edit_loop_end 1(1) 2(1)
        flip: e1_def e2_def e3_def e4_def e5_def)
  then show ?thesis
    using EncodeTo_eq [OF assms, of "[]"] 1(2) 2(2)
    by (simp add: d_def e5_def e4_def e3_def e2_def e1_def edit_Clear_def kept_tables_def Let_def)
qed

theorem version_edit_roundtrip_witness:
  "let m = (SSZoneMetaData_init 0)\<lparr>lba_regions := 1, sz_number := 7, smallest := [1], largest := [2]\<rparr>;
       e = edit_Clear\<lparr>edit_last_sequence := 300, has_last_sequence := True, new_ss := [(1, m)]\<rparr>
   in \<exists>bs d. EncodeTo e [] = Some bs \<and> edit_DecodeFrom 5 edit_Clear bs = (OK, d) \<and> edit_last_sequence d = 300 \<and>
        map meta_view (new_ss d) = [meta_view (1, m)]"
proof -
  let ?m = "(SSZoneMetaData_init 0)\<lparr>lba_regions := 1, sz_number := 7, smallest := [1], largest := [2]\<rparr>"
  let ?e = "edit_Clear\<lparr>edit_last_sequence := 300, has_last_sequence := True, new_ss := [(1, ?m)]\<rparr>"
  have "edit_ok ?e"
    by (simp add: edit_ok_def edit_Clear_def meta_ok_def array_ok_def SSZoneMetaData_init_def level_count_def)
  from version_edit_roundtrip [OF this, of 5] show ?thesis
    by (auto simp: Let_def edit_Clear_def)
qed



text \<open>C36: \<open>SSZoneMetaData::copy\<close> is not a copy: for every table with at most eight regions it succeeds, and in the
  result the number that orders the tables of level 0 is zero.\<close>

theorem meta_copy_drops_L0_number:
  assumes "array_ok m" and "unat (lba_regions m) \<le> 8"
  shows "\<exists>c. SSZoneMetaData_copy m = Some c \<and> L0_number c = 0 \<and> (\<forall>level. level \<noteq> 0 \<longrightarrow> meta_view (level, c) = meta_view (level, m)) \<and>
    (meta_view (0, c) = meta_view (0, m) \<longleftrightarrow> L0_number m = 0)"
proof -
  let ?n = "unat (lba_regions m)"
  have cp: "copy_prefix ?n xs (replicate 8 0) = Some (take ?n xs @ replicate (8 - ?n) 0)" if "length xs = 8" for xs :: "u64 list"
    using that assms(2) by (simp add: copy_prefix_def read_range_def write_range_def)
  have "min 8 ?n = ?n" using assms(2) by simp
  then show ?thesis
    using assms by (auto simp: SSZoneMetaData_copy_def cp array_ok_def meta_view_def regions_def take_zip)
qed

theorem meta_copy_drops_L0_number_witness:
  "\<exists>c. SSZoneMetaData_copy (SSZoneMetaData_init 3) = Some c \<and> L0_number c = 0 \<and>
     meta_view (0, c) \<noteq> meta_view (0, SSZoneMetaData_init 3)"
  using meta_copy_drops_L0_number [of "SSZoneMetaData_init 3"] by (auto simp: array_ok_def SSZoneMetaData_init_def)

end
