(* ===== verification/SSTable.thy ===== *)
theory SSTable
  imports InternalKey VersionEdit
begin

text \<open>
  The format of sorted tables: the builder (\<open>table/tropodb_sstable_builder.cc\<close>), the entry decoder
  (\<open>table/tropodb_sstable_reader.cc\<close>), the iterator over prefix-compressed tables
  (\<open>table/iterators/sstable_iterator_compressed.cc\<close>) and the lookup of a key in one table (\<open>Get\<close> of
  \<open>table/tropodb_l0_sstable.cc\<close> and \<open>table/tropodb_ln_sstable.cc\<close>). Positions in the table are natural numbers;
  the iterator's \<open>value_\<close> is a position and a length in the table, \<open>None\<close> when it was cleared. Reading
  outside the table is \<open>None\<close>. Assertions are compiled out.

  The lemmas show that an iterator over a built table visits the entries that were added, in
  order, that seeking finds the first entry of a user key, and how the backward operations behave.
\<close>

section \<open>Builder\<close>

record TropoSSTableBuilder =
  started :: bool
  bl_buffer :: bytes
  kv_pair_offsets :: "u32 list"
  kv_numbers :: u32
  bl_counter :: u32
  use_encoding :: bool
  last_key :: bytes
  bl_meta :: SSZoneMetaData
  writer :: int

definition TropoSSTableBuilder_init :: "SSZoneMetaData \<Rightarrow> bool \<Rightarrow> int \<Rightarrow> TropoSSTableBuilder" where
  "TropoSSTableBuilder_init meta enc wr =
     \<lparr>started = False, bl_buffer = [], kv_pair_offsets = (if enc then [0] else []), kv_numbers = 0, bl_counter = 0,
      use_encoding = enc, last_key = [], bl_meta = meta\<lparr>lba_count := 0\<rparr>, writer = wr\<rparr>"

definition EstimateSizeImpact :: "bytes \<Rightarrow> bytes \<Rightarrow> nat" where
  "EstimateSizeImpact key value = length key + length value + 5 * 4"

text \<open>The loop that counts the bytes two keys have in common.\<close>

fun shared_len :: "bytes \<Rightarrow> bytes \<Rightarrow> nat" where
  "shared_len (x # xs) (y # ys) = (if x = y then Suc (shared_len xs ys) else 0)"
| "shared_len _ _ = 0"

definition sst_Apply :: "TropoSSTableBuilder \<Rightarrow> bytes \<Rightarrow> bytes \<Rightarrow> status \<times> TropoSSTableBuilder" where
  "sst_Apply b key value =
     (let b = (if \<not> started b then b\<lparr>bl_meta := (bl_meta b)\<lparr>smallest := key\<rparr>, started := True\<rparr> else b);
          b = (if use_encoding b then
                 let (shared, b) =
                       (if unat (bl_counter b) < max_sstable_encoding then (shared_len (last_key b) key, b)
                        else (0, b\<lparr>kv_pair_offsets := kv_pair_offsets b @ [word_of_nat (length (bl_buffer b))],
                                   bl_counter := 0\<rparr>));
                     non_shared = length key - shared;
                     buf = PutVarint32 (bl_buffer b) (word_of_nat shared);
                     buf = PutVarint32 buf (word_of_nat non_shared);
                     buf = PutVarint32 buf (word_of_nat (length value));
                     buf = buf @ drop shared key;
                     buf = buf @ value
                 in b\<lparr>bl_buffer := buf, last_key := take shared (last_key b) @ drop shared key,
                      bl_counter := bl_counter b + 1\<rparr>
               else
                 let buf = PutVarint32 (bl_buffer b) (word_of_nat (length key));
                     buf = PutVarint32 buf (word_of_nat (length value));
                     buf = buf @ key;
                     buf = buf @ value
                 in b\<lparr>bl_buffer := buf, kv_pair_offsets := kv_pair_offsets b @ [word_of_nat (length buf)]\<rparr>);
          b = b\<lparr>bl_meta := (bl_meta b)\<lparr>largest := key\<rparr>, kv_numbers := kv_numbers b + 1\<rparr>
      in (OK, b))"

definition sst_Finalise :: "TropoSSTableBuilder \<Rightarrow> status \<times> TropoSSTableBuilder" where
  "sst_Finalise b =
     (let b = b\<lparr>bl_meta := (bl_meta b)\<lparr>sz_numbers := ucast (kv_numbers b)\<rparr>\<rparr>;
          expect_size = length (bl_buffer b) + (length (kv_pair_offsets b) + 2) * 8;
          preamble = (if use_encoding b then PutFixed64 [] (word_of_nat expect_size) else []);
          preamble = PutFixed64 preamble (word_of_nat (length (kv_pair_offsets b)));
          preamble = foldl (\<lambda>p off. PutFixed64 p (ucast off)) preamble (kv_pair_offsets b)
      in (OK, b\<lparr>bl_buffer := preamble @ bl_buffer b\<rparr>))"

text \<open>Writing the table is up to the level: \<open>write_ln\<close> with a writer, \<open>write\<close> without.\<close>

definition sst_Flush ::
  "(bytes \<Rightarrow> SSZoneMetaData \<Rightarrow> int \<Rightarrow> 'r) \<Rightarrow> (bytes \<Rightarrow> SSZoneMetaData \<Rightarrow> 'r) \<Rightarrow> TropoSSTableBuilder \<Rightarrow> 'r" where
  "sst_Flush write_ln write' b =
     (if writer b \<noteq> -1 then write_ln (bl_buffer b) (bl_meta b) (writer b) else write' (bl_buffer b) (bl_meta b))"

section \<open>Decoding an entry\<close>

text \<open>The argument is the memory from the entry to the limit; the result has the three lengths and the
  position behind them. The lengths are 32-bit words, also in the check against the limit.\<close>

definition DecodeEncodedEntry :: "bytes \<Rightarrow> (u32 \<times> u32 \<times> u32 \<times> nat) option" where
  "DecodeEncodedEntry p =
     (case p of
        b0 # b1 # b2 # rest \<Rightarrow> do {
          let shared = (ucast b0 :: u32);
          let non_shared = (ucast b1 :: u32);
          let value_length = (ucast b2 :: u32);
          (shared, non_shared, value_length, q) \<leftarrow>
            (if shared OR non_shared OR value_length < 128 then Some (shared, non_shared, value_length, rest)
             else do {
               (shared, q) \<leftarrow> GetVarint32Ptr p;
               (non_shared, q) \<leftarrow> GetVarint32Ptr q;
               (value_length, q) \<leftarrow> GetVarint32Ptr q;
               Some (shared, non_shared, value_length, q)
             });
          if (word_of_nat (length q) :: u32) < non_shared + value_length then None
          else Some (shared, non_shared, value_length, length p - length q)
        }
      | _ \<Rightarrow> None)"

text \<open>An entry of a table without compression: key, value and the rest. The varints are read with a limit
  of five bytes; the key and the value are not checked against the end of the table.\<close>

definition ParseNextNonEncoded :: "bytes \<Rightarrow> (bytes \<times> bytes \<times> bytes) option" where
  "ParseNextNonEncoded src = do {
     (keysize, q) \<leftarrow> GetVarint32Ptr (take 5 src);
     let src = drop (length (take 5 src) - length q) src;
     (valuesize, q) \<leftarrow> GetVarint32Ptr (take 5 src);
     let src = drop (length (take 5 src) - length q) src;
     key \<leftarrow> read_range src 0 (unat keysize);
     value \<leftarrow> read_range src (unat keysize) (unat valuesize);
     Some (key, value, drop (unat keysize + unat valuesize) src)
   }"

section \<open>Iterator\<close>

record SSTableIteratorCompressed =
  it_data :: bytes
  num_restarts :: nat
  kv_pairs_offset :: nat
  it_current :: nat
  restart_index :: nat
  data_size :: nat
  it_key :: bytes
  it_value :: "(nat \<times> nat) option"
  it_status :: status

definition SSTableIteratorCompressed_init :: "bytes \<Rightarrow> nat \<Rightarrow> nat \<Rightarrow> SSTableIteratorCompressed" where
  "SSTableIteratorCompressed_init data n restarts =
     \<lparr>it_data = data, num_restarts = restarts, kv_pairs_offset = 8 * (restarts + 2), it_current = 0,
      restart_index = 0, data_size = n, it_key = [], it_value = None, it_status = OK\<rparr>"

definition it_Valid :: "SSTableIteratorCompressed \<Rightarrow> bool" where
  "it_Valid it \<longleftrightarrow>
     it_current it < data_size it \<and> it_current it \<ge> kv_pairs_offset it \<and> restart_index it \<le> num_restarts it"

definition NextEntryOffset :: "SSTableIteratorCompressed \<Rightarrow> nat option" where
  "NextEntryOffset it = map_option (\<lambda>(pos, n). pos + n) (it_value it)"

definition GetRestartPoint :: "SSTableIteratorCompressed \<Rightarrow> nat \<Rightarrow> nat option" where
  "GetRestartPoint it index = do {
     v \<leftarrow> DecodeFixed64 (drop ((index + 2) * 8) (it_data it));
     Some (unat v + kv_pairs_offset it)
   }"

definition SeekToRestartPoint :: "SSTableIteratorCompressed \<Rightarrow> nat \<Rightarrow> SSTableIteratorCompressed option" where
  "SeekToRestartPoint it index = do {
     let it = it\<lparr>it_key := [], restart_index := index\<rparr>;
     offset \<leftarrow> GetRestartPoint it index;
     Some (it\<lparr>it_value := Some (offset, 0)\<rparr>)
   }"

definition CorruptionError :: "SSTableIteratorCompressed \<Rightarrow> SSTableIteratorCompressed" where
  "CorruptionError it =
     it\<lparr>it_current := data_size it, restart_index := num_restarts it, it_status := Corruption, it_key := [], it_value := None\<rparr>"

text \<open>The loop that moves the restart index behind the current entry.\<close>

function advance_restart :: "SSTableIteratorCompressed \<Rightarrow> SSTableIteratorCompressed option" where
  "advance_restart it =
     (if restart_index it + 1 < num_restarts it then do {
        p \<leftarrow> GetRestartPoint it (restart_index it + 1);
        if p < it_current it then advance_restart (it\<lparr>restart_index := restart_index it + 1\<rparr>) else Some it
      } else Some it)"
  by pat_completeness auto
termination
  by (relation "measure (\<lambda>it. num_restarts it - restart_index it)") auto

declare advance_restart.simps [simp del]

definition ParseNextKey :: "SSTableIteratorCompressed \<Rightarrow> (bool \<times> SSTableIteratorCompressed) option" where
  "ParseNextKey it = do {
     cur \<leftarrow> NextEntryOffset it;
     let it = it\<lparr>it_current := cur\<rparr>;
     if cur \<ge> data_size it then Some (False, it\<lparr>it_current := data_size it, restart_index := 0\<rparr>)
     else do {
       p \<leftarrow> read_range (it_data it) cur (data_size it - cur);
       (case DecodeEncodedEntry p of
          None \<Rightarrow> Some (False, CorruptionError it)
        | Some (shared, non_shared, value_length, n) \<Rightarrow>
            if length (it_key it) < unat shared then Some (False, CorruptionError it)
            else do {
              delta \<leftarrow> read_range (it_data it) (cur + n) (unat non_shared);
              let it = it\<lparr>it_key := take (unat shared) (it_key it) @ delta,
                          it_value := Some (cur + n + unat non_shared, unat value_length)\<rparr>;
              it \<leftarrow> advance_restart it;
              Some (True, it)
            })
     }
   }"

definition it_Next :: "SSTableIteratorCompressed \<Rightarrow> SSTableIteratorCompressed option" where
  "it_Next it = map_option snd (ParseNextKey it)"

definition it_SeekToFirst :: "SSTableIteratorCompressed \<Rightarrow> SSTableIteratorCompressed option" where
  "it_SeekToFirst it = do { it \<leftarrow> SeekToRestartPoint it 0; (_, it) \<leftarrow> ParseNextKey it; Some it }"

partial_function (option) last_loop :: "SSTableIteratorCompressed \<Rightarrow> SSTableIteratorCompressed option" where
  "last_loop it = do {
     (more, it) \<leftarrow> ParseNextKey it;
     if \<not> more then Some it
     else do { next \<leftarrow> NextEntryOffset it; if next \<le> data_size it then last_loop it else Some it }
   }"

definition it_SeekToLast :: "SSTableIteratorCompressed \<Rightarrow> SSTableIteratorCompressed option" where
  "it_SeekToLast it = do { it \<leftarrow> SeekToRestartPoint it (usub64 (num_restarts it) 1); last_loop it }"

text \<open>The backward scan over the restart points from index \<open>i\<close>: the index found, or \<open>None\<close> inside when there
  are no more entries.\<close>

fun prev_restart :: "SSTableIteratorCompressed \<Rightarrow> nat \<Rightarrow> nat \<Rightarrow> nat option option" where
  "prev_restart it original i = do {
     p \<leftarrow> GetRestartPoint it i;
     if p \<ge> original then (case i of 0 \<Rightarrow> Some None | Suc j \<Rightarrow> prev_restart it original j) else Some (Some i)
   }"

declare prev_restart.simps [simp del]

partial_function (option) prev_loop :: "nat \<Rightarrow> SSTableIteratorCompressed \<Rightarrow> SSTableIteratorCompressed option" where
  "prev_loop original it = do {
     (more, it) \<leftarrow> ParseNextKey it;
     if \<not> more then Some it
     else do { next \<leftarrow> NextEntryOffset it; if next < original then prev_loop original it else Some it }
   }"

definition it_Prev :: "SSTableIteratorCompressed \<Rightarrow> SSTableIteratorCompressed option" where
  "it_Prev it = do {
     let original = it_current it;
     found \<leftarrow> prev_restart it original (restart_index it);
     (case found of
        None \<Rightarrow> Some (it\<lparr>it_current := kv_pairs_offset it, restart_index := 0\<rparr>)
      | Some i \<Rightarrow> do { it \<leftarrow> SeekToRestartPoint it i; prev_loop original it })
   }"

text \<open>The binary search over the restart points; \<open>None\<close> inside for a corrupt entry.\<close>

function seek_search ::
  "(bytes \<Rightarrow> bytes \<Rightarrow> int) \<Rightarrow> SSTableIteratorCompressed \<Rightarrow> bytes \<Rightarrow> nat \<Rightarrow> nat \<Rightarrow> nat option option" where
  "seek_search ucmp it target left right =
     (if left < right then do {
        let mid = (left + right + 1) div 2;
        region_offset \<leftarrow> GetRestartPoint it mid;
        p \<leftarrow> read_range (it_data it) region_offset (data_size it - region_offset);
        (case DecodeEncodedEntry p of
           None \<Rightarrow> Some None
         | Some (shared, non_shared, value_length, n) \<Rightarrow>
             if shared \<noteq> 0 then Some None
             else do {
               mid_key \<leftarrow> read_range (it_data it) (region_offset + n) (unat non_shared);
               if ucmp (ExtractUserKey mid_key) target < 0 then seek_search ucmp it target mid right
               else seek_search ucmp it target left (mid - 1)
             })
      } else Some (Some left))"
  by pat_completeness auto
termination
  by (relation "measure (\<lambda>(ucmp, it, target, left, right). right - left)") auto

declare seek_search.simps [simp del]

partial_function (option) seek_scan ::
  "(bytes \<Rightarrow> bytes \<Rightarrow> int) \<Rightarrow> bytes \<Rightarrow> SSTableIteratorCompressed \<Rightarrow> SSTableIteratorCompressed option" where
  "seek_scan ucmp target it = do {
     (more, it) \<leftarrow> ParseNextKey it;
     if \<not> more then Some it
     else
       let c = ucmp (ExtractUserKey (it_key it)) target in
       if c \<ge> 0 then
         Some (if c \<noteq> 0 then it\<lparr>it_current := data_size it, restart_index := num_restarts it, it_key := [], it_value := None\<rparr>
               else it)
       else seek_scan ucmp target it
   }"

definition it_Seek ::
  "(bytes \<Rightarrow> bytes \<Rightarrow> int) \<Rightarrow> SSTableIteratorCompressed \<Rightarrow> bytes \<Rightarrow> SSTableIteratorCompressed option" where
  "it_Seek ucmp it target =
     (let target = ExtractUserKey target;
          left = 0; right = usub64 (num_restarts it) 1;
          current_key_compare = (if it_Valid it then ucmp (ExtractUserKey (it_key it)) target else 0);
          (left, right) = (if current_key_compare < 0 then (restart_index it, right)
                           else if current_key_compare > 0 then (left, restart_index it)
                           else (left, right))
      in if it_Valid it \<and> current_key_compare = 0 then Some it
         else do {
           found \<leftarrow> seek_search ucmp it target left right;
           (case found of
              None \<Rightarrow> Some (CorruptionError it)
            | Some left \<Rightarrow> do {
                let skip_seek = (left = restart_index it \<and> current_key_compare < 0);
                it \<leftarrow> (if \<not> skip_seek then SeekToRestartPoint it left else Some it);
                seek_scan ucmp target it
              })
         })"

definition it_SeekForPrev ::
  "(bytes \<Rightarrow> bytes \<Rightarrow> int) \<Rightarrow> SSTableIteratorCompressed \<Rightarrow> bytes \<Rightarrow> SSTableIteratorCompressed option" where
  "it_SeekForPrev ucmp it target = do { it \<leftarrow> it_Seek ucmp it target; it_Prev it }"

section \<open>Looking up a key in a table\<close>

text \<open>The iterator that \<open>NewIterator\<close> makes of the contents of a table, with \<open>use_sstable_encoding\<close>.\<close>

definition sst_NewIterator :: "bytes \<Rightarrow> SSTableIteratorCompressed option" where
  "sst_NewIterator data = do {
     n \<leftarrow> DecodeFixed64 data;
     count \<leftarrow> DecodeFixed64 (drop 8 data);
     Some (SSTableIteratorCompressed_init data (unat n) (unat count))
   }"

datatype EntryStatus = es_found | es_deleted | es_notfound

text \<open>\<open>Get\<close> of both kinds of tables; the table was read. The old contents of the value are kept by the one of
  the lower levels when nothing is found, and cleared by the one of level 0. When the key cannot be
  parsed that is logged, and the type is read from whatever the parse left.\<close>

definition sst_Get ::
  "(bytes \<Rightarrow> bytes \<Rightarrow> int) \<Rightarrow> bool \<Rightarrow> bytes \<Rightarrow> bytes \<Rightarrow> bytes \<Rightarrow> (status \<times> EntryStatus \<times> bytes) option" where
  "sst_Get ucmp level0 data key old = do {
     it \<leftarrow> sst_NewIterator data;
     it \<leftarrow> it_Seek ucmp it key;
     if it_Valid it then
       do {
         parsed_key \<leftarrow> snd (ParseInternalKey (it_key it));
         if vtype parsed_key = kTypeDeletion then Some (OK, es_deleted, [])
         else do {
           (pos, n) \<leftarrow> it_value it;
           v \<leftarrow> read_range (it_data it) pos n;
           Some (OK, es_found, v)
         }
       }
     else Some (OK, es_notfound, if level0 then [] else old)
   }"

section \<open>Layout of a table\<close>

text \<open>The number of bytes that the entry with index \<open>i\<close> shares with the previous key, and the entries of a
  table, from index \<open>i\<close> on, with the previous key.\<close>

definition sharing :: "nat \<Rightarrow> bytes \<Rightarrow> bytes \<Rightarrow> nat" where
  "sharing i prev key = (if i mod max_sstable_encoding = 0 then 0 else shared_len prev key)"

definition entry_head :: "nat \<Rightarrow> nat \<Rightarrow> nat \<Rightarrow> bytes" where
  "entry_head shared non_shared n =
     EncodeVarint32 (word_of_nat shared) @ EncodeVarint32 (word_of_nat non_shared) @ EncodeVarint32 (word_of_nat n)"

definition entry_bytes :: "nat \<Rightarrow> bytes \<Rightarrow> bytes \<times> bytes \<Rightarrow> bytes" where
  "entry_bytes i prev kv =
     entry_head (sharing i prev (fst kv)) (length (fst kv) - sharing i prev (fst kv)) (length (snd kv)) @
     drop (sharing i prev (fst kv)) (fst kv) @ snd kv"

fun layout :: "nat \<Rightarrow> bytes \<Rightarrow> (bytes \<times> bytes) list \<Rightarrow> bytes list" where
  "layout i prev [] = []"
| "layout i prev (kv # kvs) = entry_bytes i prev kv # layout (Suc i) (fst kv) kvs"

definition key_before :: "(bytes \<times> bytes) list \<Rightarrow> nat \<Rightarrow> bytes" where
  "key_before es i = (case i of 0 \<Rightarrow> [] | Suc j \<Rightarrow> fst (es ! j))"

definition offset :: "(bytes \<times> bytes) list \<Rightarrow> nat \<Rightarrow> nat" where
  "offset es i = length (concat (take i (layout 0 [] es)))"

lemma shared_len_le: "shared_len a b \<le> length a" "shared_len a b \<le> length b"
  by (induction a b rule: shared_len.induct) auto

lemma shared_len_take: "take (shared_len a b) a = take (shared_len a b) b"
  by (induction a b rule: shared_len.induct) auto

lemma sharing_le: "sharing i a b \<le> length a" "sharing i a b \<le> length b"
  by (simp_all add: sharing_def shared_len_le)

lemma sharing_take: "take (sharing i a b) a @ drop (sharing i a b) b = b"
  using shared_len_take [of a b] by (simp add: sharing_def)

lemma length_layout [simp]: "length (layout i prev es) = length es"
  by (induction i prev es rule: layout.induct) simp_all

lemma layout_snoc:
  "layout i prev (es @ [kv]) = layout i prev es @ [entry_bytes (i + length es) (if es = [] then prev else fst (last es)) kv]"
  by (induction i prev es rule: layout.induct) auto

lemma layout_nth:
  "j < length es \<Longrightarrow> layout i prev es ! j = entry_bytes (i + j) (case j of 0 \<Rightarrow> prev | Suc k \<Rightarrow> fst (es ! k)) (es ! j)"
proof (induction i prev es arbitrary: j rule: layout.induct)
  case (2 i prev kv kvs)
  then show ?case by (cases j) (auto split: nat.splits)
qed simp

lemma layout_at: "j < length es \<Longrightarrow> layout 0 [] es ! j = entry_bytes j (key_before es j) (es ! j)"
  by (simp add: layout_nth key_before_def)

lemma offset_0 [simp]: "offset es 0 = 0"
  by (simp add: offset_def)

lemma offset_Suc: "i < length es \<Longrightarrow> offset es (Suc i) = offset es i + length (entry_bytes i (key_before es i) (es ! i))"
  by (simp add: offset_def take_Suc_conv_app_nth layout_at)

lemma length_EncodeVarint32_pos: "0 < length (EncodeVarint32 v)"
  using varint32.put_nonempty [of v] by (simp add: PutVarint32_def)

lemma entry_bytes_pos: "3 \<le> length (entry_bytes i prev kv)"
proof -
  have "1 \<le> length (EncodeVarint32 v)" for v using length_EncodeVarint32_pos [of v] by linarith
  from this [of "word_of_nat (sharing i prev (fst kv))"] this [of "word_of_nat (length (fst kv) - sharing i prev (fst kv))"]
    this [of "word_of_nat (length (snd kv))"]
  show ?thesis by (simp add: entry_bytes_def entry_head_def)
qed

lemma offset_mono: "i \<le> j \<Longrightarrow> j \<le> length es \<Longrightarrow> offset es i \<le> offset es j"
proof (induction j)
  case (Suc j)
  then show ?case by (cases "i = Suc j") (auto simp: offset_Suc)
qed simp

lemma offset_less: "i < j \<Longrightarrow> j \<le> length es \<Longrightarrow> offset es i < offset es j"
  using offset_mono [of "Suc i" j es] offset_Suc [of i es] entry_bytes_pos [of i "key_before es i" "es ! i"] by simp

lemma offset_end: "offset es (length es) = length (concat (layout 0 [] es))"
  by (simp add: offset_def)

lemma layout_split:
  assumes "i < length es"
  shows "concat (layout 0 [] es) =
    concat (take i (layout 0 [] es)) @ entry_bytes i (key_before es i) (es ! i) @ concat (drop (Suc i) (layout 0 [] es))"
proof -
  have "layout 0 [] es = take i (layout 0 [] es) @ layout 0 [] es ! i # drop (Suc i) (layout 0 [] es)"
    using assms by (simp add: id_take_nth_drop)
  then have "concat (layout 0 [] es) = concat (take i (layout 0 [] es) @ layout 0 [] es ! i # drop (Suc i) (layout 0 [] es))"
    by (rule arg_cong)
  then show ?thesis using assms by (simp add: layout_at)
qed

section \<open>Decoding an entry\<close>

lemma EncodeVarint32_small: "v < 128 \<Longrightarrow> EncodeVarint32 v = [ucast v]"
  by (simp add: EncodeVarint32_def)

lemma bit_7_big: "bit (w :: u32) 7 \<Longrightarrow> \<not> w < 128"
proof
  assume b: "bit w 7" and "w < 128"
  then have "w = take_bit 7 w" by (simp add: word_less_128_bit)
  then have "bit (take_bit 7 w) 7" using b by simp
  then show False by (simp add: bit_take_bit_iff)
qed

lemma or_less_128:
  assumes "(a :: u32) < 128" and "b < 128"
  shows "a OR b < 128"
proof -
  have "a OR b = take_bit 7 (a OR b)" using assms by (simp add: word_less_128_bit)
  also have "\<dots> < 128"
    using take_bit_nat_less_exp [of 7 "unat (a OR b)"] by (simp only: word_less_nat_alt unsigned_take_bit_eq) simp
  finally show ?thesis .
qed

lemma ucast_byte_small:
  assumes "(x :: u32) < 128"
  shows "(ucast (ucast x :: byte) :: u32) = x"
proof (rule bit_word_eqI)
  fix k
  have "k < 7" if "bit x k" using that word_less_128_bit [OF assms] by (metis bit_take_bit_iff)
  then show "bit (ucast (ucast x :: byte) :: u32) k = bit x k" by (auto simp: bit_simps)
qed

lemma EncodeVarint32_big:
  assumes "\<not> v < 128"
  shows "\<exists>b bs. EncodeVarint32 v = b # bs \<and> bit (ucast b :: u32) 7"
proof -
  have "\<exists>bs. EncodeVarint32 v = ucast (v OR 128) # bs" using assms by (auto simp: EncodeVarint32_def)
  moreover have "bit (ucast (ucast (v OR 128) :: byte) :: u32) 7"
    using bit_128 [of 7] by (simp add: bit_simps)
  ultimately show ?thesis by blast
qed

lemma DecodeEncodedEntry_head:
  assumes lt: "s < 2 ^ 32" "n < 2 ^ 32" "v < 2 ^ 32" and len: "n + v \<le> length rest" "length rest < 2 ^ 32"
  shows "DecodeEncodedEntry (entry_head s n v @ rest) =
    Some (word_of_nat s, word_of_nat n, word_of_nat v, length (entry_head s n v))"
proof -
  let ?s = "word_of_nat s :: u32" and ?n = "word_of_nat n :: u32" and ?v = "word_of_nat v :: u32"
  have "n + v < 2 ^ 32" using len by simp
  then have "\<not> (word_of_nat (length rest) :: u32) < ?n + ?v"
    using len lt by (simp add: word_less_nat_alt unsigned_of_nat take_bit_nat_eq_self flip: of_nat_add)
  moreover have "DecodeEncodedEntry (entry_head s n v @ rest) =
      (if (word_of_nat (length rest) :: u32) < ?n + ?v then None else Some (?s, ?n, ?v, length (entry_head s n v)))"
  proof (cases "?s < 128 \<and> ?n < 128 \<and> ?v < 128")
    case True
    show ?thesis
      using True or_less_128 [of ?n ?v] or_less_128 [of ?s "?n OR ?v"]
      by (simp add: entry_head_def EncodeVarint32_small DecodeEncodedEntry_def ucast_byte_small)
  next
    case False
    have ne: "\<exists>b bs. EncodeVarint32 x = b # bs" for x using length_EncodeVarint32_pos [of x] by (cases "EncodeVarint32 x") auto
    obtain b0 b1 b2 r where p: "entry_head s n v @ rest = b0 # b1 # b2 # r"
      and big: "bit ((ucast b0 :: u32) OR ucast b1 OR ucast b2) 7"
    proof (cases "?s < 128")
      case s: True
      show thesis
      proof (cases "?n < 128")
        case n: True
        then show thesis
          using s False EncodeVarint32_big [of ?v] that
          by (auto simp: entry_head_def EncodeVarint32_small bit_or_iff)
      next
        case n: False
        obtain b1 bs where b1: "EncodeVarint32 ?n = b1 # bs" "bit (ucast b1 :: u32) 7" using EncodeVarint32_big [OF n] by blast
        obtain b2 r where "bs @ EncodeVarint32 ?v @ rest = b2 # r" using ne [of ?v] by (cases bs) auto
        then show thesis using s b1 that by (simp add: entry_head_def EncodeVarint32_small bit_or_iff)
      qed
    next
      case s: False
      obtain b0 bs where b0: "EncodeVarint32 ?s = b0 # bs" "bit (ucast b0 :: u32) 7" using EncodeVarint32_big [OF s] by blast
      obtain b1 cs where cs: "bs @ EncodeVarint32 ?n = b1 # cs" using ne [of ?n] by (cases bs) auto
      obtain b2 r where "cs @ EncodeVarint32 ?v @ rest = b2 # r" using ne [of ?v] by (cases cs) auto
      then have "bs @ EncodeVarint32 ?n @ EncodeVarint32 ?v @ rest = b1 # b2 # r" using cs by (metis append_assoc append_Cons)
      then show thesis using b0 that by (simp add: entry_head_def bit_or_iff)
    qed
    have g: "GetVarint32Ptr (entry_head s n v @ rest) = Some (?s, EncodeVarint32 ?n @ EncodeVarint32 ?v @ rest)"
      "GetVarint32Ptr (EncodeVarint32 ?n @ EncodeVarint32 ?v @ rest) = Some (?n, EncodeVarint32 ?v @ rest)"
      "GetVarint32Ptr (EncodeVarint32 ?v @ rest) = Some (?v, rest)"
      by (simp_all add: entry_head_def GetVarint32_EncodeVarint32 flip: GetVarint32_def)
    have len: "length (b0 # b1 # b2 # r) - length rest = length (entry_head s n v)"
      by (simp only: p [symmetric] length_append diff_add_inverse2)
    show ?thesis
      using bit_7_big [OF big] g(2,3) g(1) [unfolded p] len unfolding p
      by (simp add: DecodeEncodedEntry_def Let_def)
  qed
  ultimately show ?thesis by simp
qed

section \<open>Reading a table forwards\<close>

definition restarts :: "(bytes \<times> bytes) list \<Rightarrow> nat" where
  "restarts es = (length es - 1) div max_sstable_encoding + 1"

text \<open>The iterator runs over a table that holds the entries \<open>es\<close>.\<close>

definition laid_out :: "(bytes \<times> bytes) list \<Rightarrow> SSTableIteratorCompressed \<Rightarrow> bool" where
  "laid_out es it \<longleftrightarrow>
     num_restarts it = restarts es \<and> data_size it = kv_pairs_offset it + offset es (length es) \<and> data_size it < 2 ^ 32 \<and>
     (\<forall>kv\<in>set es. length (fst kv) < 2 ^ 32) \<and>
     (\<exists>hdr pad. it_data it = hdr @ concat (layout 0 [] es) @ pad \<and> length hdr = kv_pairs_offset it) \<and>
     (\<forall>j<restarts es. GetRestartPoint it j = Some (kv_pairs_offset it + offset es (max_sstable_encoding * j)))"

text \<open>The iterator stands in front of the entry with index \<open>i\<close>, and on it.\<close>

definition next_at :: "(bytes \<times> bytes) list \<Rightarrow> SSTableIteratorCompressed \<Rightarrow> nat \<Rightarrow> bool" where
  "next_at es it i \<longleftrightarrow>
     NextEntryOffset it = Some (kv_pairs_offset it + offset es i) \<and>
     (i mod max_sstable_encoding \<noteq> 0 \<longrightarrow> it_key it = key_before es i) \<and>
     max_sstable_encoding * restart_index it \<le> i \<and> restart_index it < num_restarts it"

definition at :: "(bytes \<times> bytes) list \<Rightarrow> SSTableIteratorCompressed \<Rightarrow> nat \<Rightarrow> bool" where
  "at es it i \<longleftrightarrow> i < length es \<and>
     it_current it = kv_pairs_offset it + offset es i \<and> it_key it = fst (es ! i) \<and>
     it_value it = Some (kv_pairs_offset it + offset es (Suc i) - length (snd (es ! i)), length (snd (es ! i))) \<and>
     (i - 1) div max_sstable_encoding \<le> restart_index it \<and> max_sstable_encoding * restart_index it \<le> i"

lemma GetRestartPoint_update [simp]:
  "GetRestartPoint (it\<lparr>it_current := a\<rparr>) j = GetRestartPoint it j" "GetRestartPoint (it\<lparr>it_key := k\<rparr>) j = GetRestartPoint it j"
  "GetRestartPoint (it\<lparr>it_value := v\<rparr>) j = GetRestartPoint it j"
  "GetRestartPoint (it\<lparr>restart_index := r\<rparr>) j = GetRestartPoint it j"
  by (simp_all add: GetRestartPoint_def)

lemma laid_out_update [simp]:
  "laid_out es (it\<lparr>it_current := a\<rparr>) = laid_out es it" "laid_out es (it\<lparr>it_key := k\<rparr>) = laid_out es it"
  "laid_out es (it\<lparr>it_value := v\<rparr>) = laid_out es it" "laid_out es (it\<lparr>restart_index := r\<rparr>) = laid_out es it"
  by (simp_all add: laid_out_def)

lemma enc_pos: "0 < max_sstable_encoding"
  by (simp add: max_sstable_encoding_def)

lemma restart_entry: "j < restarts es \<Longrightarrow> es \<noteq> [] \<Longrightarrow> max_sstable_encoding * j < length es"
proof -
  assume j: "j < restarts es" and es: "es \<noteq> []"
  have "max_sstable_encoding * j \<le> max_sstable_encoding * ((length es - 1) div max_sstable_encoding)"
    using j by (intro mult_left_mono) (auto simp: restarts_def)
  also have "\<dots> \<le> length es - 1" by (rule times_div_less_eq_dividend)
  finally show ?thesis using es by (cases es) auto
qed

lemma entry_restart: "i < length es \<Longrightarrow> i div max_sstable_encoding < restarts es"
  by (simp add: restarts_def div_le_mono less_Suc_eq_le)

lemma advance_restart_at:
  assumes "laid_out es it" and "it_current it = kv_pairs_offset it + offset es i" and "i < length es"
    and "restart_index it < num_restarts it"
  shows "advance_restart it = Some (it\<lparr>restart_index := max (restart_index it) ((i - 1) div max_sstable_encoding)\<rparr>)"
  using assms
proof (induction it rule: advance_restart.induct)
  case (1 it)
  let ?r = "restart_index it" and ?K = max_sstable_encoding
  have nr: "num_restarts it = restarts es" using "1.prems"(1) by (simp add: laid_out_def)
  show ?case
  proof (cases "?r + 1 < num_restarts it")
    case True
    then have p: "GetRestartPoint it (?r + 1) = Some (kv_pairs_offset it + offset es (?K * (?r + 1)))"
      using "1.prems"(1) by (auto simp: laid_out_def)
    have "es \<noteq> []" using "1.prems"(3) by auto
    with True nr have e: "?K * (?r + 1) < length es" by (intro restart_entry) simp_all
    show ?thesis
    proof (cases "?K * (?r + 1) < i")
      case lt: True
      have "offset es (?K * (?r + 1)) < offset es i" using lt "1.prems"(3) by (intro offset_less) auto
      then have "advance_restart it = advance_restart (it\<lparr>restart_index := ?r + 1\<rparr>)"
        using True p "1.prems"(2) by (subst advance_restart.simps) simp
      moreover have "?r + 1 \<le> (i - 1) div ?K"
        using lt enc_pos by (simp add: less_eq_div_iff_mult_less_eq mult.commute)
      ultimately show ?thesis
        using "1.IH" [OF True p] "1.prems" True \<open>offset es (?K * (?r + 1)) < offset es i\<close> by (simp add: max_def)
    next
      case False
      then have "offset es i \<le> offset es (?K * (?r + 1))" using e by (intro offset_mono) auto
      then have "advance_restart it = Some it"
        using True p "1.prems"(2) by (subst advance_restart.simps) simp
      moreover have "(i - 1) div ?K \<le> ?r"
        using False enc_pos by (metis (no_types, lifting) One_nat_def Suc_eq_plus1 Suc_pred diff_le_self div_less_iff_less_mult
            le_neq_implies_less less_Suc_eq_le linorder_not_less mult.commute not_gr_zero diff_is_0_eq' div_0 bot_nat_0.extremum)
      ultimately show ?thesis by (simp add: max_def)
    qed
  next
    case False
    then have "?r = (length es - 1) div ?K" using "1.prems"(4) nr by (simp add: restarts_def)
    then have "(i - 1) div ?K \<le> ?r" using "1.prems"(3) by (simp add: div_le_mono)
    then show ?thesis using False by (subst advance_restart.simps) (simp add: max_def)
  qed
qed

lemma laid_out_entry:
  assumes "laid_out es it" and "i < length es"
  obtains pre post where "it_data it = pre @ entry_bytes i (key_before es i) (es ! i) @ post"
    "length pre = kv_pairs_offset it + offset es i"
    "data_size it - length pre = length (entry_bytes i (key_before es i) (es ! i)) + length (concat (drop (Suc i) (layout 0 [] es)))"
    "take (length (concat (drop (Suc i) (layout 0 [] es)))) post = concat (drop (Suc i) (layout 0 [] es))"
proof -
  obtain hdr pad where d: "it_data it = hdr @ concat (layout 0 [] es) @ pad" "length hdr = kv_pairs_offset it"
    using assms(1) by (auto simp: laid_out_def)
  note split = layout_split [OF assms(2)]
  have "offset es (length es) = offset es i + length (entry_bytes i (key_before es i) (es ! i)) + length (concat (drop (Suc i) (layout 0 [] es)))"
    unfolding offset_end by (subst split) (simp add: offset_def)
  then show ?thesis
    using that [of "hdr @ concat (take i (layout 0 [] es))" "concat (drop (Suc i) (layout 0 [] es)) @ pad"] d assms(1)
    by (simp add: split laid_out_def offset_def)
qed

lemma unat_word_of_nat_32: "n < 2 ^ 32 \<Longrightarrow> unat (word_of_nat n :: u32) = n"
  by (simp add: unsigned_of_nat take_bit_nat_eq_self)

text \<open>Decoding the entry with index \<open>i\<close> where it starts.\<close>

lemma entry_at:
  fixes es :: "(bytes \<times> bytes) list" and i :: nat
  defines "sh \<equiv> sharing i (key_before es i) (fst (es ! i))"
  assumes lay: "laid_out es it" and i: "i < length es"
  obtains p n where "kv_pairs_offset it + offset es i < data_size it"
    and "read_range (it_data it) (kv_pairs_offset it + offset es i) (data_size it - (kv_pairs_offset it + offset es i)) = Some p"
    and "DecodeEncodedEntry p = Some (word_of_nat sh, word_of_nat (length (fst (es ! i)) - sh), word_of_nat (length (snd (es ! i))), n)"
    and "read_range (it_data it) (kv_pairs_offset it + offset es i + n) (length (fst (es ! i)) - sh) = Some (drop sh (fst (es ! i)))"
    and "n + (length (fst (es ! i)) - sh) + length (snd (es ! i)) = offset es (Suc i) - offset es i"
    and "unat (word_of_nat sh :: u32) = sh" and "unat (word_of_nat (length (fst (es ! i)) - sh) :: u32) = length (fst (es ! i)) - sh"
    and "unat (word_of_nat (length (snd (es ! i))) :: u32) = length (snd (es ! i))"
proof -
  let ?prev = "key_before es i" and ?k = "fst (es ! i)" and ?v = "snd (es ! i)"
  define E where "E = entry_bytes i ?prev (es ! i)"
  define rest where "rest = concat (drop (Suc i) (layout 0 [] es))"
  obtain pre post where d: "it_data it = pre @ E @ post" "length pre = kv_pairs_offset it + offset es i"
    "data_size it - length pre = length E + length rest" "take (length rest) post = rest"
    using laid_out_entry [OF lay i] unfolding E_def rest_def by blast
  let ?h = "entry_head sh (length ?k - sh) (length ?v)" and ?cur = "kv_pairs_offset it + offset es i"
  have E: "E = ?h @ drop sh ?k @ ?v" by (simp add: E_def entry_bytes_def sh_def)
  have sh: "sh \<le> length ?k" by (simp add: sh_def sharing_le)
  have small: "data_size it < 2 ^ 32" using lay by (simp add: laid_out_def)
  then have len: "length E + length rest < 2 ^ 32" using d(3) by simp
  have Epos: "0 < length E" unfolding E_def using entry_bytes_pos [of i ?prev "es ! i"] by linarith
  have cur: "?cur < data_size it" using d(2,3) Epos by linarith
  have lr: "length rest \<le> length post" using d(4) by (metis length_take min.absorb_iff2 min.cobounded1 nat_le_linear)
  have rd: "read_range (it_data it) ?cur (data_size it - ?cur) = Some (E @ rest)"
    using d lr by (simp add: read_range_def)
  have kl: "length ?k < 2 ^ 32" using lay i by (simp add: laid_out_def)
  have dec: "DecodeEncodedEntry (E @ rest) = Some (word_of_nat sh, word_of_nat (length ?k - sh), word_of_nat (length ?v), length ?h)"
    unfolding E append.assoc
    by (rule DecodeEncodedEntry_head) (use len sh kl in \<open>simp_all add: E\<close>)
  have u: "unat (word_of_nat sh :: u32) = sh" "unat (word_of_nat (length ?k - sh) :: u32) = length ?k - sh"
    "unat (word_of_nat (length ?v) :: u32) = length ?v"
    by (rule unat_word_of_nat_32, use sh kl len in \<open>simp add: E\<close>)+
  have delta: "read_range (it_data it) (?cur + length ?h) (length ?k - sh) = Some (drop sh ?k)"
    using read_range_append [of "pre @ ?h" "?cur + length ?h" "drop sh ?k" "length ?k - sh" "?v @ post"] d(1,2) by (simp add: E)
  have n: "length ?h + (length ?k - sh) + length ?v = offset es (Suc i) - offset es i"
    using offset_Suc [OF i] by (simp add: E flip: E_def)
  show thesis by (rule that [OF cur rd dec delta n u])
qed

lemma ParseNextKey_entry:
  assumes lay: "laid_out es it" and nx: "next_at es it i" and i: "i < length es"
  shows "\<exists>it'. ParseNextKey it = Some (True, it') \<and> laid_out es it' \<and> at es it' i"
proof -
  let ?prev = "key_before es i" and ?k = "fst (es ! i)" and ?v = "snd (es ! i)" and ?cur = "kv_pairs_offset it + offset es i"
  define sh where "sh = sharing i ?prev ?k"
  obtain p n where e: "?cur < data_size it" "read_range (it_data it) ?cur (data_size it - ?cur) = Some p"
    "DecodeEncodedEntry p = Some (word_of_nat sh, word_of_nat (length ?k - sh), word_of_nat (length ?v), n)"
    "read_range (it_data it) (?cur + n) (length ?k - sh) = Some (drop sh ?k)"
    and n: "n + (length ?k - sh) + length ?v = offset es (Suc i) - offset es i"
    and u: "unat (word_of_nat sh :: u32) = sh" "unat (word_of_nat (length ?k - sh) :: u32) = length ?k - sh"
      "unat (word_of_nat (length ?v) :: u32) = length ?v"
    using entry_at [OF lay i] unfolding sh_def by metis
  have key: "sh \<le> length (it_key it) \<and> take sh (it_key it) @ drop sh ?k = ?k"
  proof (cases "i mod max_sstable_encoding = 0")
    case False
    then have "it_key it = ?prev" using nx by (simp add: next_at_def)
    then show ?thesis using sharing_le(1) [of i ?prev ?k] sharing_take [of i ?prev ?k] by (simp add: sh_def)
  qed (simp add: sh_def sharing_def)
  let ?it = "it\<lparr>it_current := ?cur, it_key := ?k, it_value := Some (?cur + n + (length ?k - sh), length ?v)\<rparr>"
  let ?r = "max (restart_index it) ((i - 1) div max_sstable_encoding)"
  have adv: "advance_restart ?it = Some (?it\<lparr>restart_index := ?r\<rparr>)"
    using advance_restart_at [of es ?it i] lay i nx by (simp add: next_at_def)
  have "ParseNextKey it = Some (True, ?it\<lparr>restart_index := ?r\<rparr>)"
    using nx e u key adv by (simp add: ParseNextKey_def next_at_def Let_def)
  moreover have "at es (?it\<lparr>restart_index := ?r\<rparr>) i"
  proof -
    have "max_sstable_encoding * ((i - 1) div max_sstable_encoding) \<le> i"
      by (rule le_trans [OF times_div_less_eq_dividend]) simp
    moreover have "?cur + n + (length ?k - sh) = kv_pairs_offset it + offset es (Suc i) - length ?v"
      using offset_Suc [OF i] n by simp
    ultimately show ?thesis using i nx by (simp add: at_def next_at_def max_def)
  qed
  ultimately show ?thesis using lay by (intro exI [of _ "?it\<lparr>restart_index := ?r\<rparr>"]) simp
qed

lemma ParseNextKey_end:
  assumes "laid_out es it" and "NextEntryOffset it = Some (kv_pairs_offset it + offset es (length es))"
  shows "ParseNextKey it = Some (False, it\<lparr>it_current := data_size it, restart_index := 0\<rparr>)"
  using assms by (simp add: ParseNextKey_def laid_out_def)

lemma at_next:
  assumes "laid_out es it" and "at es it i"
  shows "NextEntryOffset it = Some (kv_pairs_offset it + offset es (Suc i))" and "Suc i < length es \<Longrightarrow> next_at es it (Suc i)"
proof -
  have "length (snd (es ! i)) \<le> offset es (Suc i)"
    using assms(2) offset_Suc [of i es] by (simp add: at_def entry_bytes_def)
  then show 1: "NextEntryOffset it = Some (kv_pairs_offset it + offset es (Suc i))"
    using assms(2) by (simp add: at_def NextEntryOffset_def)
  have "restart_index it < restarts es"
  proof -
    have "restart_index it \<le> i div max_sstable_encoding"
      using assms(2) enc_pos by (simp add: at_def less_eq_div_iff_mult_less_eq mult.commute)
    then show ?thesis using entry_restart [of i es] assms(2) by (simp add: at_def)
  qed
  then show "next_at es it (Suc i)" if "Suc i < length es"
    using 1 assms by (simp add: next_at_def at_def laid_out_def key_before_def)
qed

lemma at_Valid:
  assumes "laid_out es it" and "at es it i"
  shows "it_Valid it"
proof -
  have i: "i < length es" using assms(2) by (simp add: at_def)
  have "offset es i < offset es (length es)" using i by (intro offset_less) auto
  moreover have "restart_index it \<le> i div max_sstable_encoding"
    using assms(2) enc_pos by (simp add: at_def less_eq_div_iff_mult_less_eq mult.commute)
  ultimately show ?thesis
    using assms entry_restart [OF i] by (simp add: it_Valid_def at_def laid_out_def)
qed

lemma at_value:
  assumes "laid_out es it" and "at es it i"
  shows "\<exists>pos. it_value it = Some (pos, length (snd (es ! i))) \<and> read_range (it_data it) pos (length (snd (es ! i))) = Some (snd (es ! i))"
proof -
  have i: "i < length es" using assms(2) by (simp add: at_def)
  let ?e = "entry_bytes i (key_before es i) (es ! i)"
  obtain pre post where d: "it_data it = pre @ ?e @ post" "length pre = kv_pairs_offset it + offset es i"
    using laid_out_entry [OF assms(1) i] by blast
  have "\<exists>pe. ?e = pe @ snd (es ! i)" unfolding entry_bytes_def by (simp only: append.assoc [symmetric]) blast
  then obtain pe where e: "?e = pe @ snd (es ! i)" ..
  have "kv_pairs_offset it + offset es (Suc i) - length (snd (es ! i)) = length (pre @ pe)"
    using offset_Suc [OF i] d(2) by (simp add: e)
  then show ?thesis
    using assms(2) d(1) read_range_append [of "pre @ pe" "length (pre @ pe)" "snd (es ! i)" _ post]
    by (simp add: at_def e)
qed

lemma SeekToRestartPoint_at:
  assumes "laid_out es it" and "j < restarts es"
  shows "\<exists>it'. SeekToRestartPoint it j = Some it' \<and> laid_out es it' \<and> next_at es it' (max_sstable_encoding * j) \<and> restart_index it' = j"
  using assms by (simp add: SeekToRestartPoint_def laid_out_def next_at_def NextEntryOffset_def Let_def)

section \<open>The builder produces the layout\<close>

text \<open>A table built from a list of entries, in order.\<close>

definition sst_build :: "SSZoneMetaData \<Rightarrow> int \<Rightarrow> (bytes \<times> bytes) list \<Rightarrow> TropoSSTableBuilder" where
  "sst_build meta wr es = foldl (\<lambda>b kv. snd (sst_Apply b (fst kv) (snd kv))) (TropoSSTableBuilder_init meta use_sstable_encoding wr) es"

definition sst_table :: "SSZoneMetaData \<Rightarrow> int \<Rightarrow> (bytes \<times> bytes) list \<Rightarrow> bytes" where
  "sst_table meta wr es = bl_buffer (snd (sst_Finalise (sst_build meta wr es)))"

definition built :: "(bytes \<times> bytes) list \<Rightarrow> TropoSSTableBuilder \<Rightarrow> bool" where
  "built es b \<longleftrightarrow> use_encoding b \<and> bl_buffer b = concat (layout 0 [] es) \<and>
     kv_pair_offsets b = map (\<lambda>j. word_of_nat (offset es (max_sstable_encoding * j))) [0..<restarts es] \<and>
     last_key b = key_before es (length es) \<and>
     unat (bl_counter b) = (if es = [] then 0 else (length es - 1) mod max_sstable_encoding + 1)"

lemma offset_snoc: "i \<le> length es \<Longrightarrow> offset (es @ [kv]) i = offset es i"
  by (simp add: offset_def layout_snoc)

lemma key_before_snoc: "key_before (es @ [kv]) (Suc (length es)) = fst kv"
  by (simp add: key_before_def)

lemma key_before_end: "key_before es (length es) = (if es = [] then [] else fst (last es))"
  by (cases es rule: rev_cases) (auto simp: key_before_def)

lemma layout_snoc_entry: "layout 0 [] (es @ [kv]) = layout 0 [] es @ [entry_bytes (length es) (key_before es (length es)) kv]"
  by (simp add: layout_snoc key_before_end)

lemma restart_step:
  assumes "es \<noteq> []"
  shows "restarts (es @ [kv]) = (if length es mod max_sstable_encoding = 0 then Suc (restarts es) else restarts es)"
    and "length es mod max_sstable_encoding = 0 \<longleftrightarrow> (length es - 1) mod max_sstable_encoding + 1 = max_sstable_encoding"
    and "length es mod max_sstable_encoding = 0 \<Longrightarrow> max_sstable_encoding * restarts es = length es"
proof -
  obtain n where n: "length es = Suc n" using assms by (cases es) auto
  show "restarts (es @ [kv]) = (if length es mod max_sstable_encoding = 0 then Suc (restarts es) else restarts es)"
    using n by (simp add: restarts_def div_Suc)
  show "length es mod max_sstable_encoding = 0 \<longleftrightarrow> (length es - 1) mod max_sstable_encoding + 1 = max_sstable_encoding"
    using n enc_pos by (simp add: mod_Suc)
  show "length es mod max_sstable_encoding = 0 \<Longrightarrow> max_sstable_encoding * restarts es = length es"
    using n by (simp add: restarts_def mod_Suc max_sstable_encoding_def split: if_splits) presburger
qed

lemma restart_offsets_snoc:
  "map (\<lambda>j. word_of_nat (offset (es @ [kv]) (max_sstable_encoding * j)) :: u32) [0..<restarts es] =
   map (\<lambda>j. word_of_nat (offset es (max_sstable_encoding * j))) [0..<restarts es]"
proof -
  have "max_sstable_encoding * j \<le> length es" if "j < restarts es" for j
  proof (cases "es = []")
    case False
    then show ?thesis using restart_entry [OF that] by simp
  qed (use that in \<open>simp add: restarts_def\<close>)
  then show ?thesis by (simp add: offset_snoc)
qed

lemma key_length_offset: "i < length es \<Longrightarrow> length (fst (es ! i)) \<le> offset es (Suc i)"
proof (induction i)
  case (Suc i)
  have "sharing (Suc i) (fst (es ! i)) (fst (es ! Suc i)) \<le> offset es (Suc i)"
    using Suc sharing_le(1) [of "Suc i" "fst (es ! i)" "fst (es ! Suc i)"] by simp
  then show ?case
    using Suc(2) sharing_le(2) [of "Suc i" "fst (es ! i)" "fst (es ! Suc i)"] by (simp add: offset_Suc [of "Suc i"] entry_bytes_def key_before_def)
qed (simp add: offset_Suc entry_bytes_def sharing_def)

lemma built_init: "built [] (TropoSSTableBuilder_init meta use_sstable_encoding wr)"
  by (simp add: built_def TropoSSTableBuilder_init_def restarts_def key_before_def use_sstable_encoding_def)

lemma built_Apply:
  assumes b: "built es b"
  shows "built (es @ [kv]) (snd (sst_Apply b (fst kv) (snd kv)))"
proof (cases "es = [] \<or> length es mod max_sstable_encoding \<noteq> 0")
  case True
  then have lt: "unat (bl_counter b) < max_sstable_encoding" and rs: "restarts (es @ [kv]) = restarts es"
    using b restart_step(1) [of es kv] restart_step(2) [of es] enc_pos mod_less_divisor [OF enc_pos, of "length es - 1"]
    by (cases "es = []"; auto simp: built_def restarts_def)+
  have sh: "sharing (length es) (key_before es (length es)) (fst kv) = shared_len (key_before es (length es)) (fst kv)"
    using True by (auto simp: sharing_def key_before_def)
  have u: "unat (bl_counter b + 1) = Suc (unat (bl_counter b))"
    using lt by (simp add: unat_word_ariths max_sstable_encoding_def)
  have "Suc (unat (bl_counter b)) = length es mod max_sstable_encoding + 1"
    using True b enc_pos by (cases es) (auto simp: built_def mod_Suc max_sstable_encoding_def)
  then show ?thesis
    using b lt u by (simp add: sst_Apply_def built_def Let_def rs restart_offsets_snoc layout_snoc_entry key_before_snoc
      entry_bytes_def sh PutVarint32_def entry_head_def shared_len_take)
next
  case False
  then have ge: "\<not> unat (bl_counter b) < max_sstable_encoding" and rs: "restarts (es @ [kv]) = Suc (restarts es)"
    and len: "max_sstable_encoding * restarts es = length es" and es: "es \<noteq> []"
    using b restart_step(1) [of es kv] restart_step(2,3) [of es] by (auto simp: built_def)
  have sh: "sharing (length es) p k = 0" for p k using False by (simp add: sharing_def)
  have "length es mod max_sstable_encoding = 0" using False by simp
  then show ?thesis
    using b ge offset_end [of es] by (simp add: sst_Apply_def built_def Let_def rs restart_offsets_snoc layout_snoc_entry key_before_snoc
      entry_bytes_def sh PutVarint32_def entry_head_def offset_snoc len)
qed

lemma built_build: "built es (sst_build meta wr es)"
proof (induction es rule: rev_induct)
  case Nil
  then show ?case by (simp add: sst_build_def built_init)
next
  case (snoc kv es)
  then show ?case using built_Apply [of es _ kv] by (simp add: sst_build_def)
qed

lemma PutFixed64_fold: "foldl (\<lambda>p off. p @ le_bytes 8 (f off)) pre os = pre @ concat (map (\<lambda>off. le_bytes 8 (f off)) os)"
  by (induction os arbitrary: pre) simp_all

lemma decode_le_bytes: "DecodeFixed64 (le_bytes 8 v @ rest) = Some v"
  using DecodeFixed_EncodeFixed(4) [of v rest] by simp

lemma length_concat_fixed64 [simp]: "length (concat (map (\<lambda>x. le_bytes 8 (f x)) vs)) = 8 * length vs"
  by (induction vs) simp_all

lemma decode_concat_fixed64:
  "j < length vs \<Longrightarrow> DecodeFixed64 (drop (8 * j) (concat (map (\<lambda>x. le_bytes 8 (f x)) vs) @ rest)) = Some (f (vs ! j))"
proof (induction vs arbitrary: j)
  case (Cons v vs)
  then show ?case by (cases j) (simp_all add: decode_le_bytes)
qed simp

abbreviation restart_points :: "(bytes \<times> bytes) list \<Rightarrow> nat \<Rightarrow> u64" where
  "restart_points es j \<equiv> ucast (word_of_nat (offset es (max_sstable_encoding * j)) :: u32)"

lemma sst_table_eq:
  "sst_table meta wr es = le_bytes 8 (word_of_nat (offset es (length es) + (restarts es + 2) * 8) :: u64) @
     le_bytes 8 (word_of_nat (restarts es) :: u64) @
     concat (map (\<lambda>j. le_bytes 8 (restart_points es j)) [0..<restarts es]) @ concat (layout 0 [] es)"
proof -
  have b: "use_encoding (sst_build meta wr es)" "bl_buffer (sst_build meta wr es) = concat (layout 0 [] es)"
    "kv_pair_offsets (sst_build meta wr es) = map (\<lambda>j. word_of_nat (offset es (max_sstable_encoding * j))) [0..<restarts es]"
    using built_build [of es meta wr] by (simp_all add: built_def)
  show ?thesis
    by (simp add: sst_table_def sst_Finalise_def Let_def b PutFixed64_fold PutFixed_eq offset_end o_def del: le_bytes.simps of_nat_add of_nat_mult)
qed

lemma length_sst_table: "length (sst_table meta wr es) = 8 * (restarts es + 2) + offset es (length es)"
  by (simp add: sst_table_eq offset_end)

lemma restarts_pos: "0 < restarts es"
  by (simp add: restarts_def)

text \<open>A table that was built is opened as an iterator over its entries.\<close>

lemma sst_NewIterator_table:
  assumes "length (sst_table meta wr es) < 2 ^ 32"
  shows "\<exists>it. sst_NewIterator (sst_table meta wr es @ pad) = Some it \<and> laid_out es it \<and> \<not> it_Valid it \<and> restart_index it = 0"
proof -
  let ?n = "length (sst_table meta wr es)" and ?t = "sst_table meta wr es @ pad"
  let ?it = "SSTableIteratorCompressed_init ?t ?n (restarts es)"
  have lt: "?n < 2 ^ 64" "restarts es < 2 ^ 64" using assms by (simp_all add: length_sst_table)
  have n: "unat (word_of_nat ?n :: u64) = ?n" "unat (word_of_nat (restarts es) :: u64) = restarts es"
    using lt by (simp_all only: unsigned_of_nat) (simp_all add: take_bit_nat_eq_self)
  have "?n = offset es (length es) + (restarts es + 2) * 8" by (simp add: length_sst_table)
  then have "DecodeFixed64 ?t = Some (word_of_nat ?n)"
    by (simp only: sst_table_eq append.assoc decode_le_bytes)
  moreover have "DecodeFixed64 (drop 8 ?t) = Some (word_of_nat (restarts es))"
    by (simp add: sst_table_eq decode_le_bytes)
  ultimately have new: "sst_NewIterator ?t = Some ?it" using n by (simp add: sst_NewIterator_def)
  have "GetRestartPoint ?it j = Some (kv_pairs_offset ?it + offset es (max_sstable_encoding * j))" if j: "j < restarts es" for j
  proof -
    have "drop ((j + 2) * 8) ?t = drop (8 * j) (concat (map (\<lambda>j. le_bytes 8 (restart_points es j)) [0..<restarts es]) @ concat (layout 0 [] es) @ pad)"
      by (simp add: sst_table_eq algebra_simps)
    then have d: "DecodeFixed64 (drop ((j + 2) * 8) ?t) = Some (restart_points es j)"
      using decode_concat_fixed64 [of j "[0..<restarts es]" "restart_points es"] j by simp
    have "max_sstable_encoding * j \<le> length es"
      using restart_entry [OF j] j by (cases "es = []") (auto simp: restarts_def)
    then have "offset es (max_sstable_encoding * j) < 2 ^ 32"
      using offset_mono [of "max_sstable_encoding * j" "length es" es] assms by (simp add: length_sst_table)
    then have "unat (restart_points es j) = offset es (max_sstable_encoding * j)"
      using unat_word_of_nat_32 [of "offset es (max_sstable_encoding * j)"]
      by (simp add: unsigned_ucast_eq take_bit_nat_eq_self)
    then show ?thesis using d by (simp add: GetRestartPoint_def SSTableIteratorCompressed_init_def)
  qed
  moreover have "length (fst kv) < 2 ^ 32" if kv: "kv \<in> set es" for kv
  proof -
    obtain i where i: "i < length es" "es ! i = kv" using kv by (auto simp: in_set_conv_nth)
    then have "length (fst kv) \<le> offset es (length es)"
      using key_length_offset [of i es] offset_mono [of "Suc i" "length es" es] by simp
    then show ?thesis using assms by (simp add: length_sst_table)
  qed
  moreover have "\<exists>hdr pad'. ?t = hdr @ concat (layout 0 [] es) @ pad' \<and> length hdr = 8 * (restarts es + 2)"
    by (intro exI [of _ "take (8 * (restarts es + 2)) ?t"] exI [of _ pad])
      (simp add: sst_table_eq algebra_simps)
  ultimately have "laid_out es ?it"
    using assms by (simp add: laid_out_def SSTableIteratorCompressed_init_def length_sst_table)
  then show ?thesis using new by (simp add: it_Valid_def SSTableIteratorCompressed_init_def)
qed

section \<open>Scanning forwards\<close>

text \<open>The entries that an iterator visits from its position on.\<close>

partial_function (option) it_visit :: "SSTableIteratorCompressed \<Rightarrow> (bytes \<times> bytes) list option" where
  "it_visit it =
     (if it_Valid it then do {
        (pos, n) \<leftarrow> it_value it;
        v \<leftarrow> read_range (it_data it) pos n;
        it' \<leftarrow> it_Next it;
        kvs \<leftarrow> it_visit it';
        Some ((it_key it, v) # kvs)
      } else Some [])"

definition sst_scan :: "bytes \<Rightarrow> (bytes \<times> bytes) list option" where
  "sst_scan data = do { it \<leftarrow> sst_NewIterator data; it \<leftarrow> it_SeekToFirst it; it_visit it }"

lemma it_Next_at:
  assumes "laid_out es it" and "at es it i"
  shows "\<exists>it'. it_Next it = Some it' \<and> laid_out es it' \<and>
    (if Suc i < length es then at es it' (Suc i) else \<not> it_Valid it' \<and> it_current it' = data_size it')"
proof (cases "Suc i < length es")
  case True
  then show ?thesis using ParseNextKey_entry [OF assms(1) at_next(2) [OF assms]] by (auto simp: it_Next_def)
next
  case False
  then have "Suc i = length es" using assms(2) by (simp add: at_def)
  then show ?thesis using ParseNextKey_end [OF assms(1)] at_next(1) [OF assms] assms(1) by (simp add: it_Next_def it_Valid_def)
qed

lemma it_visit_at:
  "laid_out es it \<Longrightarrow> at es it i \<Longrightarrow> it_visit it = Some (drop i es)"
proof (induction "length es - i" arbitrary: i it)
  case (Suc n)
  have i: "i < length es" using Suc.prems by (simp add: at_def)
  obtain pos where v: "it_value it = Some (pos, length (snd (es ! i)))" "read_range (it_data it) pos (length (snd (es ! i))) = Some (snd (es ! i))"
    using at_value [OF Suc.prems] by blast
  obtain it' where nx: "it_Next it = Some it'" "laid_out es it'"
    and c: "if Suc i < length es then at es it' (Suc i) else \<not> it_Valid it' \<and> it_current it' = data_size it'"
    using it_Next_at [OF Suc.prems] by blast
  have "it_visit it' = Some (drop (Suc i) es)"
  proof (cases "Suc i < length es")
    case True
    then show ?thesis using Suc.hyps(1) [of "Suc i" it'] Suc.hyps(2) nx c by simp
  next
    case False
    then show ?thesis using c by (simp add: it_visit.simps)
  qed
  then show ?case
    using at_Valid [OF Suc.prems] v nx Suc.prems(2) i
    by (subst it_visit.simps) (simp add: at_def Cons_nth_drop_Suc)
qed (simp add: at_def)

lemma SeekToFirst_visit:
  assumes "laid_out es it"
  shows "\<exists>it'. it_SeekToFirst it = Some it' \<and> laid_out es it' \<and> it_visit it' = Some es \<and> (if es = [] then \<not> it_Valid it' else at es it' 0)"
proof -
  obtain it1 where s: "SeekToRestartPoint it 0 = Some it1" "laid_out es it1" "next_at es it1 0"
    using SeekToRestartPoint_at [OF assms restarts_pos] by auto
  show ?thesis
  proof (cases "es = []")
    case True
    then show ?thesis using s ParseNextKey_end [of es it1] by (simp add: it_SeekToFirst_def next_at_def it_Valid_def it_visit.simps)
  next
    case False
    then show ?thesis
      using s ParseNextKey_entry [OF s(2,3)] it_visit_at [of es _ 0] by (auto simp: it_SeekToFirst_def)
  qed
qed

lemma sst_scan_table:
  assumes "length (sst_table meta wr es) < 2 ^ 32"
  shows "sst_scan (sst_table meta wr es @ pad) = Some es"
proof -
  obtain it where "sst_NewIterator (sst_table meta wr es @ pad) = Some it" "laid_out es it"
    using sst_NewIterator_table [OF assms] by blast
  then show ?thesis using SeekToFirst_visit [of es it] by (auto simp: sst_scan_def)
qed

section \<open>Moving backwards\<close>

lemma advance_restart_kv: "advance_restart it = Some it' \<Longrightarrow> kv_pairs_offset it' = kv_pairs_offset it"
proof (induction it rule: advance_restart.induct)
  case (1 it)
  then show ?case by (auto simp: advance_restart.simps [of it] split: if_splits bind_splits)
qed

lemma ParseNextKey_kv: "ParseNextKey it = Some (b, it') \<Longrightarrow> kv_pairs_offset it' = kv_pairs_offset it"
  by (auto simp: ParseNextKey_def CorruptionError_def Let_def dest!: advance_restart_kv split: if_splits bind_splits option.splits)

lemma SeekToRestartPoint_kv: "SeekToRestartPoint it j = Some it' \<Longrightarrow> kv_pairs_offset it' = kv_pairs_offset it"
  by (auto simp: SeekToRestartPoint_def Let_def split: bind_splits)

lemma last_loop_step:
  assumes "ParseNextKey it = Some (True, it')" and "NextEntryOffset it' = Some x" and "x \<le> data_size it'"
  shows "last_loop it = last_loop it'"
  by (subst last_loop.simps) (simp add: assms)

lemma last_loop_end:
  assumes "laid_out es it" and "i \<le> length es"
    and "if i < length es then next_at es it i else NextEntryOffset it = Some (kv_pairs_offset it + offset es i)"
  shows "\<exists>it'. last_loop it = Some it' \<and> laid_out es it' \<and> \<not> it_Valid it'"
  using assms
proof (induction "length es - i" arbitrary: i it)
  case 0
  then have "ParseNextKey it = Some (False, it\<lparr>it_current := data_size it, restart_index := 0\<rparr>)"
    using ParseNextKey_end [of es it] by simp
  then show ?case using 0 by (subst last_loop.simps) (simp add: it_Valid_def)
next
  case (Suc n)
  then have i: "i < length es" by simp
  then obtain it' where p: "ParseNextKey it = Some (True, it')" "laid_out es it'" "at es it' i"
    using ParseNextKey_entry [OF Suc.prems(1)] Suc.prems(3) by auto
  have nx: "NextEntryOffset it' = Some (kv_pairs_offset it' + offset es (Suc i))" using at_next(1) [OF p(2,3)] .
  have "offset es (Suc i) \<le> offset es (length es)" using i by (intro offset_mono) auto
  then have "last_loop it = last_loop it'" using last_loop_step [OF p(1) nx] p(2) by (simp add: laid_out_def)
  then show ?case using Suc.hyps(1) [of "Suc i" it'] Suc.hyps(2) i p nx at_next(2) [OF p(2,3)] by simp
qed

lemma SeekToLast_invalid:
  assumes "laid_out es it"
  shows "\<exists>it'. it_SeekToLast it = Some it' \<and> laid_out es it' \<and> \<not> it_Valid it'"
proof -
  let ?i = "max_sstable_encoding * (restarts es - 1)"
  obtain it1 where s: "SeekToRestartPoint it (restarts es - 1) = Some it1" "laid_out es it1" "next_at es it1 ?i"
    using SeekToRestartPoint_at [OF assms, of "restarts es - 1"] restarts_pos [of es] by auto
  have "?i \<le> length es \<and> (\<not> ?i < length es \<longrightarrow> ?i = length es)"
    using restart_entry [of "restarts es - 1" es] restarts_pos [of es] by (cases "es = []") (auto simp: restarts_def)
  then have "\<exists>it'. last_loop it1 = Some it' \<and> laid_out es it' \<and> \<not> it_Valid it'"
    using last_loop_end [OF s(2), of ?i] s(3) by (auto simp: next_at_def)
  moreover have "num_restarts it = restarts es" using assms by (simp add: laid_out_def)
  ultimately show ?thesis using s(1) restarts_pos [of es] by (simp add: it_SeekToLast_def Suc_leI)
qed

lemma it_Prev_first:
  assumes "laid_out es it" and "at es it 0"
  shows "it_Prev it = Some it"
proof -
  have "restart_index it = 0" using assms(2) enc_pos by (simp add: at_def)
  moreover have "GetRestartPoint it 0 = Some (kv_pairs_offset it)" using assms(1) restarts_pos [of es] by (simp add: laid_out_def)
  moreover have "it_current it = kv_pairs_offset it" using assms(2) by (simp add: at_def)
  ultimately show ?thesis by (simp add: it_Prev_def prev_restart.simps [of it _ 0])
qed

lemma prev_restart_at:
  assumes lay: "laid_out es it" and i: "0 < i" "i < length es"
  shows "r < restarts es \<Longrightarrow> (i - 1) div max_sstable_encoding \<le> r \<Longrightarrow>
    prev_restart it (kv_pairs_offset it + offset es i) r = Some (Some ((i - 1) div max_sstable_encoding))"
proof (induction r)
  case (Suc r)
  have g: "GetRestartPoint it (Suc r) = Some (kv_pairs_offset it + offset es (max_sstable_encoding * Suc r))"
    using lay Suc.prems by (simp add: laid_out_def)
  have b: "max_sstable_encoding * Suc r < length es" using restart_entry [OF Suc.prems(1)] i by (cases es) auto
  show ?case
  proof (cases "i \<le> max_sstable_encoding * Suc r")
    case True
    then have "i - 1 < Suc r * max_sstable_encoding" using i by (simp add: mult.commute)
    then have "(i - 1) div max_sstable_encoding \<le> r" using less_mult_imp_div_less less_Suc_eq_le by blast
    moreover have "offset es i \<le> offset es (max_sstable_encoding * Suc r)" using True b by (intro offset_mono) auto
    ultimately show ?thesis using Suc g by (subst prev_restart.simps) simp
  next
    case False
    then have "offset es (max_sstable_encoding * Suc r) < offset es i" using i by (intro offset_less) auto
    moreover have "Suc r \<le> (i - 1) div max_sstable_encoding"
      using False enc_pos i by (simp add: less_eq_div_iff_mult_less_eq mult.commute)
    ultimately show ?thesis using Suc.prems g by (subst prev_restart.simps) simp
  qed
next
  case 0
  have "GetRestartPoint it 0 = Some (kv_pairs_offset it)" using lay restarts_pos [of es] by (simp add: laid_out_def)
  moreover have "0 < offset es i" using offset_less [of 0 i es] i by simp
  ultimately show ?case using 0 by (subst prev_restart.simps) simp
qed

lemma prev_loop_at:
  assumes "laid_out es it" and "next_at es it m" and "m < i" and "i < length es"
  shows "\<exists>it'. prev_loop (kv_pairs_offset it + offset es i) it = Some it' \<and> laid_out es it' \<and> at es it' (i - 1)"
  using assms
proof (induction "i - m" arbitrary: m it)
  case (Suc n)
  have m: "m < length es" using Suc.prems by simp
  obtain it' where p: "ParseNextKey it = Some (True, it')" "laid_out es it'" "at es it' m"
    using ParseNextKey_entry [OF Suc.prems(1,2) m] by blast
  have kv: "kv_pairs_offset it' = kv_pairs_offset it" using ParseNextKey_kv [OF p(1)] .
  have nx: "NextEntryOffset it' = Some (kv_pairs_offset it + offset es (Suc m))" using at_next(1) [OF p(2,3)] kv by simp
  show ?case
  proof (cases "Suc m < i")
    case True
    then have "offset es (Suc m) < offset es i" using Suc.prems by (intro offset_less) auto
    then have "prev_loop (kv_pairs_offset it + offset es i) it = prev_loop (kv_pairs_offset it' + offset es i) it'"
      using p nx kv by (subst prev_loop.simps) simp
    then show ?thesis using Suc.hyps(1) [of "Suc m" it'] Suc.hyps(2) Suc.prems True p at_next(2) [OF p(2,3)] by simp
  next
    case False
    then have "Suc m = i" using Suc.prems by simp
    then show ?thesis using p nx by (subst prev_loop.simps) auto
  qed
qed simp

lemma it_Prev_at:
  assumes lay: "laid_out es it" and a: "at es it i" and i: "0 < i"
  shows "\<exists>it'. it_Prev it = Some it' \<and> laid_out es it' \<and> at es it' (i - 1)"
proof -
  let ?r = "(i - 1) div max_sstable_encoding"
  have il: "i < length es" using a by (simp add: at_def)
  have "restart_index it \<le> i div max_sstable_encoding"
    using a enc_pos by (simp add: at_def less_eq_div_iff_mult_less_eq mult.commute)
  then have "restart_index it < restarts es" using entry_restart [OF il] by simp
  then have f: "prev_restart it (it_current it) (restart_index it) = Some (Some ?r)"
    using prev_restart_at [OF lay i il, of "restart_index it"] a by (simp add: at_def)
  have r: "?r < restarts es" using entry_restart [of "i - 1" es] il by simp
  obtain it1 where s: "SeekToRestartPoint it ?r = Some it1" "laid_out es it1" "next_at es it1 (max_sstable_encoding * ?r)"
    using SeekToRestartPoint_at [OF lay r] by blast
  have kv: "kv_pairs_offset it1 = kv_pairs_offset it" using SeekToRestartPoint_kv [OF s(1)] .
  have "max_sstable_encoding * ?r < i" using times_div_less_eq_dividend [of max_sstable_encoding "i - 1"] i by linarith
  then obtain it' where "prev_loop (it_current it) it1 = Some it'" "laid_out es it'" "at es it' (i - 1)"
    using prev_loop_at [OF s(2,3) _ il] kv a by (auto simp: at_def)
  then show ?thesis using f s(1) by (simp add: it_Prev_def)
qed

section \<open>Seeking\<close>

definition sorted_table :: "(bytes \<Rightarrow> bytes \<Rightarrow> int) \<Rightarrow> (bytes \<times> bytes) list \<Rightarrow> bool" where
  "sorted_table ucmp es \<longleftrightarrow> sorted_wrt (\<lambda>a b. ucmp (ExtractUserKey (fst a)) (ExtractUserKey (fst b)) \<le> 0) es"

abbreviation ukey :: "(bytes \<times> bytes) list \<Rightarrow> nat \<Rightarrow> bytes" where
  "ukey es i \<equiv> ExtractUserKey (fst (es ! i))"

lemma seek_search_step:
  assumes lay: "laid_out es it" and j: "left < right" "right < restarts es" and ne: "es \<noteq> []"
    and mid: "mid = (left + right + 1) div 2"
  shows "seek_search ucmp it target left right =
    (if ucmp (ukey es (max_sstable_encoding * mid)) target < 0 then seek_search ucmp it target mid right
     else seek_search ucmp it target left (mid - 1))"
proof -
  define i where "i = max_sstable_encoding * mid"
  have m: "mid < restarts es" using j mid by simp
  then have i: "i < length es" unfolding i_def using restart_entry ne by blast
  have g: "GetRestartPoint it mid = Some (kv_pairs_offset it + offset es i)" using lay m by (simp add: laid_out_def i_def)
  have sh: "sharing i (key_before es i) (fst (es ! i)) = 0" by (simp add: i_def sharing_def)
  obtain p n where "read_range (it_data it) (kv_pairs_offset it + offset es i) (data_size it - (kv_pairs_offset it + offset es i)) = Some p"
    "DecodeEncodedEntry p = Some (0, word_of_nat (length (fst (es ! i))), word_of_nat (length (snd (es ! i))), n)"
    "read_range (it_data it) (kv_pairs_offset it + offset es i + n) (length (fst (es ! i))) = Some (fst (es ! i))"
    "unat (word_of_nat (length (fst (es ! i))) :: u32) = length (fst (es ! i))"
    by (rule entry_at [OF lay i]) (simp add: sh)
  then show ?thesis
    using j(1) g unfolding seek_search.simps [of ucmp it target left right] mid [symmetric] i_def [symmetric] by (simp add: Let_def)
qed

lemma seek_search_at:
  assumes "laid_out es it" and "es \<noteq> []" and "left \<le> right" and "right < restarts es"
    and "left = 0 \<or> ucmp (ukey es (max_sstable_encoding * left)) target < 0"
  shows "\<exists>l. seek_search ucmp it target left right = Some (Some l) \<and> l < restarts es \<and>
    (l = 0 \<or> ucmp (ukey es (max_sstable_encoding * l)) target < 0)"
  using assms(3-)
proof (induction "right - left" arbitrary: left right rule: less_induct)
  case less
  show ?case
  proof (cases "left < right")
    case True
    define mid where "mid = (left + right + 1) div 2"
    have b: "left < mid" "mid \<le> right" using True by (simp_all add: mid_def)
    note step = seek_search_step [OF assms(1) True less.prems(2) assms(2) mid_def]
    show ?thesis
    proof (cases "ucmp (ukey es (max_sstable_encoding * mid)) target < 0")
      case lt: True
      then show ?thesis using less.hyps [of right mid] less.prems b step by simp
    next
      case ge: False
      then show ?thesis using less.hyps [of "mid - 1" left] less.prems b step by simp
    qed
  next
    case False
    then show ?thesis using less.prems by (subst seek_search.simps) auto
  qed
qed

context user_comparator
begin

lemma sorted_table_nth: "sorted_table ucmp es \<Longrightarrow> i \<le> j \<Longrightarrow> j < length es \<Longrightarrow> ucmp (ukey es i) (ukey es j) \<le> 0"
  using cmp_refl by (cases "i = j") (auto simp: sorted_table_def sorted_wrt_iff_nth_less)

lemma seek_scan_at:
  assumes "laid_out es it" and "i \<le> length es" and "sorted_table ucmp es"
    and "if i < length es then next_at es it i else NextEntryOffset it = Some (kv_pairs_offset it + offset es i)"
    and "\<forall>j<i. ucmp (ukey es j) target < 0"
  shows "\<exists>it'. seek_scan ucmp target it = Some it' \<and> laid_out es it' \<and>
    (if \<exists>j<length es. ukey es j = target
     then \<exists>j. at es it' j \<and> ukey es j = target \<and> (\<forall>k<j. ukey es k \<noteq> target) else \<not> it_Valid it')"
  using assms(1,2,4,5)
proof (induction "length es - i" arbitrary: i it)
  case 0
  have "ukey es j \<noteq> target" if "j < length es" for j
    using 0 that cmp_refl [of target] by (metis diff_is_0_eq' le_antisym less_irrefl zero_less_diff not_less)
  moreover have "ParseNextKey it = Some (False, it\<lparr>it_current := data_size it, restart_index := 0\<rparr>)"
    using ParseNextKey_end [of es it] 0 by simp
  ultimately show ?case using 0 by (subst seek_scan.simps) (auto simp: it_Valid_def)
next
  case (Suc n)
  then have i: "i < length es" by simp
  then obtain it' where p: "ParseNextKey it = Some (True, it')" "laid_out es it'" "at es it' i"
    using ParseNextKey_entry [OF Suc.prems(1)] Suc.prems(3) by auto
  have k: "it_key it' = fst (es ! i)" using p(3) by (simp add: at_def)
  have before: "ukey es k \<noteq> target" if "k < i" for k using Suc.prems(4) that cmp_refl [of target] by auto
  consider "ucmp (ukey es i) target < 0" | "ucmp (ukey es i) target = 0" | "0 < ucmp (ukey es i) target" by linarith
  then show ?case
  proof cases
    case 1
    then have "seek_scan ucmp target it = seek_scan ucmp target it'" using p(1) k by (subst seek_scan.simps) simp
    moreover have "\<forall>j<Suc i. ucmp (ukey es j) target < 0" using Suc.prems(4) 1 by (simp add: less_Suc_eq)
    moreover have "if Suc i < length es then next_at es it' (Suc i) else NextEntryOffset it' = Some (kv_pairs_offset it' + offset es (Suc i))"
      using at_next [OF p(2,3)] by simp
    ultimately show ?thesis using Suc.hyps(1) [of "Suc i" it'] Suc.hyps(2) i p(2) by simp
  next
    case 2
    then have "ukey es i = target" using cmp_eq by simp
    moreover have "seek_scan ucmp target it = Some it'" using p(1) k 2 by (subst seek_scan.simps) simp
    ultimately show ?thesis using p(2,3) before i by auto
  next
    case 3
    have "ukey es k \<noteq> target" if "k < length es" for k
    proof (cases "k < i")
      case False
      then have "ucmp (ukey es i) (ukey es k) \<le> 0" using sorted_table_nth [OF assms(3)] that by simp
      then show ?thesis using 3 by auto
    qed (rule before)
    then show ?thesis using p(1,2) k 3 by (subst seek_scan.simps) (auto simp: it_Valid_def)
  qed
qed

end

text \<open>Where a search leaves the iterator: invalid, or on the first entry of a user key.\<close>

definition settled :: "(bytes \<times> bytes) list \<Rightarrow> SSTableIteratorCompressed \<Rightarrow> bool" where
  "settled es it \<longleftrightarrow> laid_out es it \<and> (it_Valid it \<longrightarrow> (\<exists>i. at es it i \<and> (\<forall>k<i. ukey es k \<noteq> ukey es i)))"

definition seek_result :: "(bytes \<times> bytes) list \<Rightarrow> bytes \<Rightarrow> SSTableIteratorCompressed \<Rightarrow> bool" where
  "seek_result es t it \<longleftrightarrow> laid_out es it \<and>
     (if \<exists>j<length es. ukey es j = t then \<exists>j. at es it j \<and> ukey es j = t \<and> (\<forall>k<j. ukey es k \<noteq> t) else \<not> it_Valid it)"

lemma seek_result_settled: "seek_result es t it \<Longrightarrow> settled es it"
  by (auto simp: seek_result_def settled_def split: if_splits)

lemma at_restart_index:
  assumes "laid_out es it" and "at es it i"
  shows "restart_index it < restarts es" and "max_sstable_encoding * restart_index it \<le> i"
proof -
  have i: "i < length es" using assms(2) by (simp add: at_def)
  show "max_sstable_encoding * restart_index it \<le> i" using assms(2) by (simp add: at_def)
  then have "restart_index it \<le> i div max_sstable_encoding" using enc_pos by (simp add: less_eq_div_iff_mult_less_eq mult.commute)
  then show "restart_index it < restarts es" using entry_restart [OF i] by simp
qed

context user_comparator
begin

lemma seek_from_restart:
  assumes lay: "laid_out es it" and s: "sorted_table ucmp es" and l: "l < restarts es"
    and lt: "es \<noteq> [] \<longrightarrow> l = 0 \<or> ucmp (ukey es (max_sstable_encoding * l)) t < 0" and ne: "es = [] \<longrightarrow> l = 0"
  shows "\<exists>it'. (SeekToRestartPoint it l \<bind> seek_scan ucmp t) = Some it' \<and> seek_result es t it'"
proof -
  obtain it1 where p: "SeekToRestartPoint it l = Some it1" "laid_out es it1" "next_at es it1 (max_sstable_encoding * l)"
    using SeekToRestartPoint_at [OF lay l] by blast
  have "max_sstable_encoding * l \<le> length es \<and> (\<not> max_sstable_encoding * l < length es \<longrightarrow> max_sstable_encoding * l = length es)"
    using restart_entry [OF l] ne by (cases "es = []") auto
  moreover have "\<forall>j<max_sstable_encoding * l. ucmp (ukey es j) t < 0"
  proof (cases "l = 0")
    case False
    then have ne: "es \<noteq> []" using ne by auto
    show ?thesis
    proof (intro allI impI)
      fix j assume "j < max_sstable_encoding * l"
      then have "ucmp (ukey es j) (ukey es (max_sstable_encoding * l)) \<le> 0"
        using sorted_table_nth [OF s] restart_entry [OF l ne] by simp
      then show "ucmp (ukey es j) t < 0" using cmp_le_less_trans lt False ne by blast
    qed
  qed simp
  ultimately show ?thesis using seek_scan_at [OF p(2) _ s, of "max_sstable_encoding * l" t] p(1,3) by (auto simp: next_at_def seek_result_def)
qed

lemma seek_search_scan:
  assumes lay: "laid_out es it" and s: "sorted_table ucmp es" and lr: "left \<le> right" "right < restarts es"
    and lt: "left = 0 \<or> ucmp (ukey es (max_sstable_encoding * left)) t < 0"
  shows "\<exists>l. seek_search ucmp it t left right = Some (Some l) \<and>
    (\<exists>it'. (SeekToRestartPoint it l \<bind> seek_scan ucmp t) = Some it' \<and> seek_result es t it')"
proof (cases "es = []")
  case True
  then show ?thesis using seek_from_restart [OF lay s restarts_pos] lr by (simp add: restarts_def seek_search.simps)
next
  case False
  then show ?thesis
    using seek_search_at [of es it left right ucmp t, OF lay False lr lt] seek_from_restart [OF lay s] by blast
qed

lemma it_Seek_settled:
  assumes st: "settled es it" and s: "sorted_table ucmp es"
  shows "\<exists>it'. it_Seek ucmp it key = Some it' \<and> seek_result es (ExtractUserKey key) it'"
proof -
  let ?t = "ExtractUserKey key"
  have lay: "laid_out es it" using st by (simp add: settled_def)
  then have n: "num_restarts it = restarts es" by (simp add: laid_out_def)
  show ?thesis
  proof (cases "it_Valid it")
    case False
    then show ?thesis
      using seek_search_scan [OF lay s, of 0 "restarts es - 1" ?t] n restarts_pos [of es] by (auto simp: it_Seek_def Suc_leI)
  next
    case v: True
    then obtain i where a: "at es it i" "\<forall>k<i. ukey es k \<noteq> ukey es i" using st by (auto simp: settled_def)
    have i: "i < length es" and k: "it_key it = fst (es ! i)" using a(1) by (simp_all add: at_def)
    note ri = at_restart_index [OF lay a(1)]
    consider (eq) "ucmp (ukey es i) ?t = 0" | (less) "ucmp (ukey es i) ?t < 0" | (greater) "0 < ucmp (ukey es i) ?t" by linarith
    then show ?thesis
    proof cases
      case eq
      then have "ukey es i = ?t" using cmp_eq by simp
      then show ?thesis using eq v a lay i k by (auto simp: it_Seek_def seek_result_def)
    next
      case less
      have "ucmp (ukey es (max_sstable_encoding * restart_index it)) ?t < 0"
        using sorted_table_nth [OF s ri(2) i] less cmp_le_less_trans by blast
      then obtain l where l: "seek_search ucmp it ?t (restart_index it) (restarts es - 1) = Some (Some l)"
        "\<exists>it'. (SeekToRestartPoint it l \<bind> seek_scan ucmp ?t) = Some it' \<and> seek_result es ?t it'"
        using seek_search_scan [OF lay s, of "restart_index it" "restarts es - 1" ?t] ri(1) by force
      have sk: "it_Seek ucmp it key = (if l = restart_index it then seek_scan ucmp ?t it else SeekToRestartPoint it l \<bind> seek_scan ucmp ?t)"
        using less v k n restarts_pos [of es] l(1) by (simp add: it_Seek_def Suc_leI)
      have "\<forall>j<Suc i. ucmp (ukey es j) ?t < 0"
        using sorted_table_nth [OF s _ i] less cmp_le_less_trans by (meson less_Suc_eq_le)
      then have "\<exists>it'. seek_scan ucmp ?t it = Some it' \<and> seek_result es ?t it'"
        using seek_scan_at [OF lay _ s, of "Suc i" ?t] at_next [OF lay a(1)] i by (auto simp: seek_result_def Suc_le_eq)
      then show ?thesis using sk l(2) by (cases "l = restart_index it") simp_all
    next
      case greater
      then show ?thesis using seek_search_scan [OF lay s, of 0 "restart_index it" ?t] ri v k by (auto simp: it_Seek_def)
    qed
  qed
qed

end

section \<open>Lookup as a specification\<close>

text \<open>What a lookup in a table promises: the first entry with the user key decides.\<close>

definition table_lookup :: "(bytes \<times> bytes) list \<Rightarrow> bytes \<Rightarrow> EntryStatus \<times> bytes option" where
  "table_lookup es u =
     (case find (\<lambda>kv. ExtractUserKey (fst kv) = u) es of
        None \<Rightarrow> (es_notfound, None)
      | Some (k, v) \<Rightarrow> if ExtractValueType k = kTypeDeletion then (es_deleted, Some []) else (es_found, Some v))"

lemma find_first:
  assumes "j < length es" and "P (es ! j)" and "\<forall>k<j. \<not> P (es ! k)"
  shows "find P es = Some (es ! j)"
  using assms
proof (induction es arbitrary: j)
  case (Cons e es)
  then show ?case by (cases j) (auto simp: All_less_Suc2)
qed simp

lemma Parse_type: "is_ikey k \<Longrightarrow> \<exists>pk. snd (ParseInternalKey k) = Some pk \<and> vtype pk = ExtractValueType k"
  by (simp add: ParseInternalKey_eq ExtractValueType_def UnPackSequenceAndType_def Let_def)

text \<open>What can be read from the iterator after a search.\<close>

lemma seek_result_cases:
  assumes "seek_result es u it"
  obtains (absent) "find (\<lambda>kv. ExtractUserKey (fst kv) = u) es = None" "\<not> it_Valid it"
  | (present) k v pos where "find (\<lambda>kv. ExtractUserKey (fst kv) = u) es = Some (k, v)" "(k, v) \<in> set es" "it_Valid it"
    "it_key it = k" "it_value it = Some (pos, length v)" "read_range (it_data it) pos (length v) = Some v"
proof (cases "\<exists>j<length es. ukey es j = u")
  case True
  then obtain j where lay: "laid_out es it" and a: "at es it j" "ukey es j = u" "\<forall>k<j. ukey es k \<noteq> u"
    using assms by (auto simp: seek_result_def)
  have j: "j < length es" using a(1) by (simp add: at_def)
  have "find (\<lambda>kv. ExtractUserKey (fst kv) = u) es = Some (es ! j)" by (rule find_first [OF j]) (use a in simp_all)
  moreover obtain pos where "it_value it = Some (pos, length (snd (es ! j)))"
    "read_range (it_data it) pos (length (snd (es ! j))) = Some (snd (es ! j))"
    using at_value [OF lay a(1)] by blast
  ultimately show thesis
    using present [of "fst (es ! j)" "snd (es ! j)" pos] at_Valid [OF lay a(1)] a(1) j by (simp add: at_def)
next
  case False
  then have "find (\<lambda>kv. ExtractUserKey (fst kv) = u) es = None" by (auto simp: find_None_iff in_set_conv_nth)
  moreover have "\<not> it_Valid it" using assms False by (simp add: seek_result_def)
  ultimately show thesis by (rule absent)
qed

lemma sst_Get_lookup:
  assumes "length (sst_table meta wr es) < 2 ^ 32" and "sorted_table BytewiseCompare es" and ik: "\<forall>kv\<in>set es. is_ikey (fst kv)"
  shows "sst_Get BytewiseCompare level0 (sst_table meta wr es @ pad) key old =
    (case table_lookup es (ExtractUserKey key) of
       (st, v) \<Rightarrow> Some (OK, st, case v of Some v \<Rightarrow> v | None \<Rightarrow> if level0 then [] else old))"
proof -
  let ?u = "ExtractUserKey key"
  obtain it where it: "sst_NewIterator (sst_table meta wr es @ pad) = Some it" "laid_out es it" "\<not> it_Valid it"
    using sst_NewIterator_table [OF assms(1)] by blast
  have "settled es it" using it(2,3) by (simp add: settled_def)
  then obtain it' where s: "it_Seek BytewiseCompare it key = Some it'" and r: "seek_result es ?u it'"
    using bytewise.it_Seek_settled [OF _ assms(2)] by blast
  from r show ?thesis
  proof (cases rule: seek_result_cases)
    case absent
    then show ?thesis using it(1) s by (simp add: sst_Get_def table_lookup_def)
  next
    case (present k v pos)
    then have "is_ikey k" using ik by auto
    then obtain pk where "snd (ParseInternalKey k) = Some pk" "vtype pk = ExtractValueType k" using Parse_type by blast
    then show ?thesis using it(1) s present by (simp add: sst_Get_def table_lookup_def)
  qed
qed

text \<open>In a table ordered by internal keys the first entry with a user key is the newest one.\<close>

definition internal_sorted :: "(bytes \<times> bytes) list \<Rightarrow> bool" where
  "internal_sorted es \<longleftrightarrow> (\<forall>kv\<in>set es. is_ikey (fst kv)) \<and> sorted_wrt (\<lambda>a b. InternalKeyCompare BytewiseCompare (fst a) (fst b) < 0) es"

lemma internal_sorted_table: "internal_sorted es \<Longrightarrow> sorted_table BytewiseCompare es"
  unfolding internal_sorted_def sorted_table_def
  by (elim conjE sorted_wrt_mono_rel [rotated]) (auto simp: bytewise.internal_less_iff bytewise.cmp_refl)

lemma table_lookup_newest:
  assumes "internal_sorted es" and "(k, v) \<in> set es" and "ExtractUserKey k = u"
  shows "\<exists>k' v'. (k', v') \<in> set es \<and> ExtractUserKey k' = u \<and>
    (\<forall>(k'', v'')\<in>set es. ExtractUserKey k'' = u \<longrightarrow> ExtractInternalKeyFooter k'' \<le> ExtractInternalKeyFooter k') \<and>
    table_lookup es u = (if ExtractValueType k' = kTypeDeletion then (es_deleted, Some []) else (es_found, Some v'))"
  using assms
proof (induction es)
  case (Cons e es)
  show ?case
  proof (cases "ExtractUserKey (fst e) = u")
    case True
    have "ExtractInternalKeyFooter k'' \<le> ExtractInternalKeyFooter (fst e)" if "(k'', v'') \<in> set es" "ExtractUserKey k'' = u" for k'' v''
    proof -
      have "InternalKeyCompare BytewiseCompare (fst e) k'' < 0" using Cons.prems(1) that(1) by (auto simp: internal_sorted_def)
      then show ?thesis using True that(2) bytewise.cmp_refl by (auto simp: bytewise.internal_less_iff)
    qed
    then show ?thesis using True by (intro exI [of _ "fst e"] exI [of _ "snd e"]) (auto simp: table_lookup_def split: prod.splits)
  next
    case False
    have "internal_sorted es" using Cons.prems(1) by (simp add: internal_sorted_def)
    moreover have "(k, v) \<in> set es" using False Cons.prems(2,3) by auto
    ultimately obtain k' v' where kv: "(k', v') \<in> set es" "ExtractUserKey k' = u"
      "\<forall>(k'', v'')\<in>set es. ExtractUserKey k'' = u \<longrightarrow> ExtractInternalKeyFooter k'' \<le> ExtractInternalKeyFooter k'"
      "table_lookup es u = (if ExtractValueType k' = kTypeDeletion then (es_deleted, Some []) else (es_found, Some v'))"
      using Cons.IH Cons.prems(3) by blast
    have "table_lookup (e # es) u = table_lookup es u" using False by (simp add: table_lookup_def)
    then show ?thesis using kv False by (intro exI [of _ k'] exI [of _ v']) auto
  qed
qed simp

section \<open>Positions of the iterator\<close>

definition it_entry :: "SSTableIteratorCompressed \<Rightarrow> (bytes \<times> bytes) option" where
  "it_entry it = (if it_Valid it then do { (pos, n) \<leftarrow> it_value it; v \<leftarrow> read_range (it_data it) pos n; Some (it_key it, v) } else None)"

primrec it_Nexts :: "nat \<Rightarrow> SSTableIteratorCompressed \<Rightarrow> SSTableIteratorCompressed option" where
  "it_Nexts 0 it = Some it"
| "it_Nexts (Suc n) it = do { it \<leftarrow> it_Nexts n it; it_Next it }"

text \<open>Opening a table and moving forwards to the entry with index \<open>n\<close>.\<close>

definition it_nth :: "bytes \<Rightarrow> nat \<Rightarrow> SSTableIteratorCompressed option" where
  "it_nth data n = do { it \<leftarrow> sst_NewIterator data; it \<leftarrow> it_SeekToFirst it; it_Nexts n it }"

lemma it_entry_at: "laid_out es it \<Longrightarrow> at es it i \<Longrightarrow> it_entry it = Some (es ! i)"
  using at_value [of es it i] at_Valid [of es it i] by (auto simp: it_entry_def at_def)

lemma it_nth_at:
  assumes "length (sst_table meta wr es) < 2 ^ 32" and "n < length es"
  shows "\<exists>it. it_nth (sst_table meta wr es @ pad) n = Some it \<and> laid_out es it \<and> at es it n"
proof -
  obtain it0 where it0: "sst_NewIterator (sst_table meta wr es @ pad) = Some it0" "laid_out es it0"
    using sst_NewIterator_table [OF assms(1)] by blast
  obtain it where it: "it_SeekToFirst it0 = Some it" "laid_out es it" "at es it 0"
    using SeekToFirst_visit [OF it0(2)] assms(2) by (auto split: if_splits)
  have "\<exists>it'. it_Nexts n it = Some it' \<and> laid_out es it' \<and> at es it' n"
    using assms(2)
  proof (induction n)
    case (Suc n)
    then obtain it1 where p: "it_Nexts n it = Some it1" "laid_out es it1" "at es it1 n" by auto
    then show ?case using it_Next_at [OF p(2,3)] Suc.prems by auto
  qed (simp add: it)
  then show ?thesis using it0 it by (simp add: it_nth_def)
qed

section \<open>Properties\<close>

definition demo_entries :: "(bytes \<times> bytes) list" where
  "demo_entries =
     [(AppendInternalKey [] \<lparr>user_key = [97], sequence = 7, vtype = kTypeValue\<rparr>, [1, 2]),
      (AppendInternalKey [] \<lparr>user_key = [97, 98], sequence = 9, vtype = kTypeDeletion\<rparr>, []),
      (AppendInternalKey [] \<lparr>user_key = [97, 98], sequence = 3, vtype = kTypeValue\<rparr>, [4])]"

definition demo_meta :: SSZoneMetaData where
  "demo_meta = \<lparr>sz_refs = 0, allowed_seeks = 1, sz_number = 5, L0_lba = 0, L0_log_number = 0, L0_number = 0, lba_regions = 0,
     lbas = [], lba_region_sizes = [], sz_numbers = 0, lba_count = 0, smallest = [], largest = []\<rparr>"

lemma demo_table_small: "length (sst_table demo_meta (-1) demo_entries) < 2 ^ 32"
proof -
  have "offset demo_entries (length demo_entries) < 100" by code_simp
  moreover have "restarts demo_entries = 1" by (simp add: restarts_def demo_entries_def max_sstable_encoding_def)
  ultimately show ?thesis by (simp add: length_sst_table)
qed

lemma demo_sorted: "internal_sorted demo_entries"
  by code_simp

text \<open>C8: Opening a table that was built from a list of entries and moving over it from the first entry to the last
  gives exactly those entries, in the order in which they were added, whatever follows the table in its blocks, and then
  the iterator is no longer valid. The entries are read without an access outside the table.\<close>

theorem sst_scan_entries:
  assumes "length (sst_table meta wr es) < 2 ^ 32"
  shows "sst_scan (sst_table meta wr es @ pad) = Some es"
  by (rule sst_scan_table [OF assms])

theorem sst_scan_entries_witness:
  "length (sst_table demo_meta (-1) demo_entries) < 2 ^ 32 \<and>
   sst_scan (sst_table demo_meta (-1) demo_entries @ [0, 0]) = Some demo_entries"
  using sst_scan_entries [OF demo_table_small] demo_table_small by blast

text \<open>C6: The lookup in one table implements its specification: in a table whose entries are ordered by internal key,
  the first entry with the user key of the lookup decides, a deletion counts as deleted, and a user key
  without an entry is not found. The binary search over the restart points and the scan behind it terminate and never read outside the table.\<close>

theorem sst_get_refines_lookup:
  assumes "length (sst_table meta wr es) < 2 ^ 32" and "internal_sorted es"
  shows "sst_Get BytewiseCompare level0 (sst_table meta wr es @ pad) key old =
    (case table_lookup es (ExtractUserKey key) of
       (st, v) \<Rightarrow> Some (OK, st, case v of Some v \<Rightarrow> v | None \<Rightarrow> if level0 then [] else old))"
  using assms by (intro sst_Get_lookup internal_sorted_table) (simp_all add: internal_sorted_def)

theorem sst_get_refines_lookup_witness:
  "length (sst_table demo_meta (-1) demo_entries) < 2 ^ 32 \<and> internal_sorted demo_entries \<and>
   sst_Get BytewiseCompare True (sst_table demo_meta (-1) demo_entries @ []) (AppendInternalKey [] \<lparr>user_key = [97], sequence = 9, vtype = kTypeValue\<rparr>) [] =
   Some (OK, es_found, [1, 2])"
proof -
  have "table_lookup demo_entries (ExtractUserKey (AppendInternalKey [] \<lparr>user_key = [97], sequence = 9, vtype = kTypeValue\<rparr>)) = (es_found, Some [1, 2])"
    by code_simp
  then show ?thesis
    unfolding sst_get_refines_lookup [OF demo_table_small demo_sorted] using demo_table_small demo_sorted by simp
qed

text \<open>C38: \<open>SeekToLast\<close> of the table iterator never reaches the last entry: it goes on as long as the next entry
  does not start behind the end of the table, so it always parses past the last entry and leaves the
  iterator invalid, for every table.\<close>

theorem sst_seek_to_last_invalid:
  assumes "length (sst_table meta wr es) < 2 ^ 32"
  shows "\<exists>it it'. sst_NewIterator (sst_table meta wr es @ pad) = Some it \<and> it_SeekToLast it = Some it' \<and> \<not> it_Valid it'"
proof -
  obtain it where it: "sst_NewIterator (sst_table meta wr es @ pad) = Some it" "laid_out es it"
    using sst_NewIterator_table [OF assms] by blast
  then show ?thesis using SeekToLast_invalid [OF it(2)] by blast
qed

theorem sst_seek_to_last_invalid_witness:
  "length (sst_table demo_meta (-1) demo_entries) < 2 ^ 32 \<and>
   (\<exists>it it'. sst_NewIterator (sst_table demo_meta (-1) demo_entries @ []) = Some it \<and> it_SeekToLast it = Some it' \<and> \<not> it_Valid it')"
  using sst_seek_to_last_invalid [OF demo_table_small] demo_table_small by blast

text \<open>C37: \<open>Prev\<close> of the table iterator moves to the entry before; on the first entry it does not become invalid
  but stays there, so that a backward scan that stops at an invalid iterator does not end.\<close>

theorem sst_prev:
  assumes "length (sst_table meta wr es) < 2 ^ 32" and "n < length es"
  shows "\<exists>it it'. it_nth (sst_table meta wr es @ pad) n = Some it \<and> it_entry it = Some (es ! n) \<and>
    it_Prev it = Some it' \<and> it_entry it' = Some (es ! (n - 1))"
proof -
  obtain it where it: "it_nth (sst_table meta wr es @ pad) n = Some it" "laid_out es it" "at es it n"
    using it_nth_at [OF assms] by blast
  show ?thesis
  proof (cases n)
    case 0
    then show ?thesis using it it_Prev_first [OF it(2)] it_entry_at [OF it(2,3)] by simp
  next
    case (Suc m)
    then show ?thesis using it it_Prev_at [OF it(2,3)] it_entry_at [OF it(2,3)] it_entry_at [of es _ m] by auto
  qed
qed

theorem sst_prev_witness:
  "length (sst_table demo_meta (-1) demo_entries) < 2 ^ 32 \<and> 0 < length demo_entries \<and>
   (\<exists>it it'. it_nth (sst_table demo_meta (-1) demo_entries @ []) 0 = Some it \<and> it_entry it = Some (demo_entries ! 0) \<and>
      it_Prev it = Some it' \<and> it_entry it' = Some (demo_entries ! (0 - 1)))"
  using sst_prev [OF demo_table_small, of 0 "[]"] demo_table_small by (simp add: demo_entries_def)

end
