(* ===== verification/TableCache.thy ===== *)
theory TableCache
  imports SSTable
begin

text \<open>
  The table cache (\<open>table/tropodb_table_cache.cc\<close>). It keeps an open iterator for each table it has read,
  under the number of the table, and every lookup moves that one iterator: a lookup starts where the
  one before it stopped. The cache below it is RocksDB's LRU cache; it is a map from keys to iterators
  here, and which entries it evicts at an insertion is an argument. Its insertion does not fail
  without a strict capacity limit. The lock around an iterator is left out: a lookup is one step.

  \<open>tc_Get_lookup\<close> shows that a lookup gives what \<open>table_lookup\<close> specifies, from every state
  that earlier lookups can leave.
\<close>

section \<open>Model\<close>

record TropoTableCache =
  tc_entries :: "bytes \<Rightarrow> SSTableIteratorCompressed option"

definition TropoTableCache_init :: TropoTableCache where
  "TropoTableCache_init = \<lparr>tc_entries = \<lambda>_. None\<rparr>"

text \<open>\<open>newit\<close> is \<open>NewIterator\<close> of the tables; \<open>None\<close> is the null pointer, which the next call dereferences.\<close>

definition FindSSZone ::
  "(nat \<Rightarrow> SSZoneMetaData \<Rightarrow> SSTableIteratorCompressed option) \<Rightarrow> bytes set \<Rightarrow> TropoTableCache \<Rightarrow> SSZoneMetaData \<Rightarrow> nat \<Rightarrow>
     (status \<times> SSTableIteratorCompressed option \<times> TropoTableCache)" where
  "FindSSZone newit evicted c meta level =
     (let key = EncodeFixed64 (sz_number meta) in
      case tc_entries c key of
        Some it \<Rightarrow> (OK, Some it, c)
      | None \<Rightarrow>
          let it = newit level meta
          in (OK, it, c\<lparr>tc_entries := (\<lambda>k. if k \<in> evicted then None else tc_entries c k)(key := it)\<rparr>))"

definition tc_Get ::
  "(bytes \<Rightarrow> bytes \<Rightarrow> int) \<Rightarrow> (nat \<Rightarrow> SSZoneMetaData \<Rightarrow> SSTableIteratorCompressed option) \<Rightarrow> bytes set \<Rightarrow> TropoTableCache \<Rightarrow>
     SSZoneMetaData \<Rightarrow> nat \<Rightarrow> bytes \<Rightarrow> bytes \<Rightarrow> (status \<times> EntryStatus \<times> bytes \<times> TropoTableCache) option" where
  "tc_Get ucmp newit evicted c meta level key value =
     (case FindSSZone newit evicted c meta level of (s, handle, c) \<Rightarrow> do {
        it \<leftarrow> handle;
        it \<leftarrow> it_Seek ucmp it key;
        let c = c\<lparr>tc_entries := (tc_entries c)(EncodeFixed64 (sz_number meta) := Some it)\<rparr>;
        if it_Valid it then
          (case ParseInternalKey (it_key it) of (ps, parsed) \<Rightarrow>
             if \<not> ok ps then Some (s, es_notfound, value, c)
             else do {
               parsed_key \<leftarrow> parsed;
               if vtype parsed_key = kTypeDeletion then Some (s, es_deleted, [], c)
               else do {
                 (pos, n) \<leftarrow> it_value it;
                 v \<leftarrow> read_range (it_data it) pos n;
                 Some (s, es_found, v, c)
               }
             })
        else Some (s, es_notfound, value, c)
      })"

definition tc_Evict :: "TropoTableCache \<Rightarrow> u64 \<Rightarrow> TropoTableCache" where
  "tc_Evict c number = c\<lparr>tc_entries := (tc_entries c)(EncodeFixed64 number := None)\<rparr>"

section \<open>Every lookup implements the specification\<close>

text \<open>The contents of the tables, by number.\<close>

type_synonym contents = "u64 \<Rightarrow> (bytes \<times> bytes) list"

definition valid_table :: "(bytes \<times> bytes) list \<Rightarrow> bool" where
  "valid_table es \<longleftrightarrow> internal_sorted es \<and> (\<forall>kv\<in>set es. IsExtendedValueType (ExtractValueType (fst kv)))"

definition cache_ok :: "contents \<Rightarrow> TropoTableCache \<Rightarrow> bool" where
  "cache_ok content c \<longleftrightarrow> (\<forall>n it. tc_entries c (EncodeFixed64 n) = Some it \<longrightarrow> settled (content n) it)"

text \<open>Opening a table gives an iterator over its contents.\<close>

definition opens :: "contents \<Rightarrow> (nat \<Rightarrow> SSZoneMetaData \<Rightarrow> SSTableIteratorCompressed option) \<Rightarrow> nat \<Rightarrow> SSZoneMetaData \<Rightarrow> bool" where
  "opens content newit level m \<longleftrightarrow> (\<exists>it. newit level m = Some it \<and> settled (content (sz_number m)) it)"

lemma fixed64_inj: "le_bytes 8 (a :: u64) = le_bytes 8 b \<longleftrightarrow> a = b"
  using le_bytes_inj [of 8 a b] by auto

lemma cache_ok_init [simp]: "cache_ok content TropoTableCache_init"
  by (simp add: cache_ok_def TropoTableCache_init_def)

lemma cache_ok_Evict: "cache_ok content c \<Longrightarrow> cache_ok content (tc_Evict c n)"
  by (simp add: cache_ok_def tc_Evict_def)

lemma cache_ok_store:
  assumes "cache_ok content c" and "settled (content n) it"
  shows "cache_ok content (c\<lparr>tc_entries := (tc_entries c)(EncodeFixed64 n := Some it)\<rparr>)"
  using assms by (auto simp: cache_ok_def fixed64_inj)

lemma FindSSZone_ok:
  assumes "cache_ok content c" and "opens content newit level m"
  shows "\<exists>it c'. FindSSZone newit evicted c m level = (OK, Some it, c') \<and> settled (content (sz_number m)) it \<and> cache_ok content c'"
proof (cases "tc_entries c (EncodeFixed64 (sz_number m))")
  case None
  obtain it where it: "newit level m = Some it" "settled (content (sz_number m)) it" using assms(2) by (auto simp: opens_def)
  have "cache_ok content (c\<lparr>tc_entries := \<lambda>k. if k \<in> evicted then None else tc_entries c k\<rparr>)"
    using assms(1) by (simp add: cache_ok_def)
  from cache_ok_store [OF this it(2)] show ?thesis using None it by (simp add: FindSSZone_def Let_def)
next
  case (Some it)
  then show ?thesis using assms(1) by (simp add: FindSSZone_def cache_ok_def)
qed

lemma Parse_valid:
  assumes "is_ikey k" and "IsExtendedValueType (ExtractValueType k)"
  shows "\<exists>pk. ParseInternalKey k = (OK, Some pk) \<and> vtype pk = ExtractValueType k"
  using assms by (simp add: ParseInternalKey_eq ExtractValueType_def UnPackSequenceAndType_def Let_def)

lemma tc_Get_lookup:
  assumes c: "cache_ok content c" and o: "opens content newit level m" and v: "valid_table (content (sz_number m))"
  shows "\<exists>c'. tc_Get BytewiseCompare newit evicted c m level key old =
      (case table_lookup (content (sz_number m)) (ExtractUserKey key) of
         (st, r) \<Rightarrow> Some (OK, st, case r of Some x \<Rightarrow> x | None \<Rightarrow> old, c')) \<and> cache_ok content c'"
proof -
  let ?es = "content (sz_number m)" and ?u = "ExtractUserKey key"
  obtain it c1 where f: "FindSSZone newit evicted c m level = (OK, Some it, c1)" "settled ?es it" "cache_ok content c1"
    using FindSSZone_ok [OF c o] by blast
  have "sorted_table BytewiseCompare ?es" using v internal_sorted_table by (simp add: valid_table_def)
  then obtain it' where s: "it_Seek BytewiseCompare it key = Some it'" "seek_result ?es ?u it'"
    using bytewise.it_Seek_settled [OF f(2)] by blast
  let ?c = "c1\<lparr>tc_entries := (tc_entries c1)(EncodeFixed64 (sz_number m) := Some it')\<rparr>"
  have ok: "cache_ok content ?c" using cache_ok_store [OF f(3) seek_result_settled [OF s(2)]] .
  from s(2) show ?thesis
  proof (cases rule: seek_result_cases)
    case absent
    then show ?thesis using f(1) s(1) ok by (simp add: tc_Get_def table_lookup_def)
  next
    case (present k v pos)
    then have "is_ikey k" "IsExtendedValueType (ExtractValueType k)"
      using v by (auto simp: valid_table_def internal_sorted_def)
    then obtain pk where "ParseInternalKey k = (OK, Some pk)" "vtype pk = ExtractValueType k" using Parse_valid by blast
    then show ?thesis using f(1) s(1) ok present by (simp add: tc_Get_def table_lookup_def)
  qed
qed

section \<open>Sequences of lookups\<close>

text \<open>An operation on the cache: a lookup, with the keys that the insertion may evict, or an eviction.\<close>

datatype cache_op = Get_op SSZoneMetaData nat bytes "bytes set" | Evict_op u64

fun tc_run ::
  "(nat \<Rightarrow> SSZoneMetaData \<Rightarrow> SSTableIteratorCompressed option) \<Rightarrow> TropoTableCache \<Rightarrow> cache_op list \<Rightarrow> (EntryStatus \<times> bytes) list option" where
  "tc_run newit c [] = Some []"
| "tc_run newit c (Get_op m level key evicted # ops) = do {
     (s, st, v, c) \<leftarrow> tc_Get BytewiseCompare newit evicted c m level key [];
     rs \<leftarrow> tc_run newit c ops;
     Some ((st, v) # rs)
   }"
| "tc_run newit c (Evict_op n # ops) = tc_run newit (tc_Evict c n) ops"

text \<open>What the lookups of a sequence promise.\<close>

fun lookup_spec :: "contents \<Rightarrow> cache_op list \<Rightarrow> (EntryStatus \<times> bytes) list" where
  "lookup_spec content [] = []"
| "lookup_spec content (Get_op m level key evicted # ops) =
     (case table_lookup (content (sz_number m)) (ExtractUserKey key) of
        (st, r) \<Rightarrow> (st, case r of Some v \<Rightarrow> v | None \<Rightarrow> [])) # lookup_spec content ops"
| "lookup_spec content (Evict_op n # ops) = lookup_spec content ops"

text \<open>Every table of the sequence was built from its contents, and its blocks are read by \<open>newit\<close>.\<close>

definition tables_of :: "contents \<Rightarrow> (nat \<Rightarrow> SSZoneMetaData \<Rightarrow> SSTableIteratorCompressed option) \<Rightarrow> bool" where
  "tables_of content newit \<longleftrightarrow>
     (\<forall>m level. valid_table (content (sz_number m)) \<and>
        (\<exists>meta wr pad. length (sst_table meta wr (content (sz_number m))) < 2 ^ 32 \<and>
           newit level m = sst_NewIterator (sst_table meta wr (content (sz_number m)) @ pad)))"

lemma tables_of_opens: "tables_of content newit \<Longrightarrow> opens content newit level m"
proof -
  assume "tables_of content newit"
  then obtain meta wr pad where t: "length (sst_table meta wr (content (sz_number m))) < 2 ^ 32"
    "newit level m = sst_NewIterator (sst_table meta wr (content (sz_number m)) @ pad)"
    unfolding tables_of_def by blast
  then show ?thesis using sst_NewIterator_table [OF t(1), of pad] by (auto simp: opens_def settled_def)
qed

lemma tc_run_spec:
  assumes t: "tables_of content newit"
  shows "cache_ok content c \<Longrightarrow> tc_run newit c ops = Some (lookup_spec content ops)"
proof (induction ops arbitrary: c)
  case (Cons op ops)
  show ?case
  proof (cases op)
    case (Get_op m level key evicted)
    have "valid_table (content (sz_number m))" using t by (simp add: tables_of_def)
    from tc_Get_lookup [OF Cons.prems tables_of_opens [OF t] this] obtain c' where
      "tc_Get BytewiseCompare newit evicted c m level key [] =
        (case table_lookup (content (sz_number m)) (ExtractUserKey key) of
           (st, r) \<Rightarrow> Some (OK, st, case r of Some x \<Rightarrow> x | None \<Rightarrow> [], c'))" "cache_ok content c'" by blast
    then show ?thesis using Cons.IH [of c'] Get_op by (auto split: prod.splits)
  next
    case (Evict_op n)
    then show ?thesis using Cons.IH [OF cache_ok_Evict [OF Cons.prems]] by simp
  qed
qed simp

text \<open>C7: The table cache implements the lookup in a table: however lookups, evictions by the cache and explicit
  evictions follow each other, starting from an empty cache, every lookup returns what the specification says of
  the contents of its table, although all lookups in a table share one iterator and each of
  them starts where the one before it stopped.\<close>

theorem table_cache_refines_lookup:
  assumes "tables_of content newit"
  shows "tc_run newit TropoTableCache_init ops = Some (lookup_spec content ops)"
  using tc_run_spec [OF assms] by simp

definition demo_newit :: "nat \<Rightarrow> SSZoneMetaData \<Rightarrow> SSTableIteratorCompressed option" where
  "demo_newit level m = sst_NewIterator (sst_table demo_meta (-1) demo_entries)"

lemma demo_tables_of: "tables_of (\<lambda>_. demo_entries) demo_newit"
proof -
  have "\<forall>kv\<in>set demo_entries. IsExtendedValueType (ExtractValueType (fst kv))" by code_simp
  then show ?thesis
    using demo_sorted demo_table_small
    unfolding tables_of_def valid_table_def demo_newit_def by (metis append_Nil2)
qed

theorem table_cache_refines_lookup_witness:
  "tables_of (\<lambda>_. demo_entries) demo_newit \<and>
   tc_run demo_newit TropoTableCache_init
     [Get_op demo_meta 0 (AppendInternalKey [] \<lparr>user_key = [97, 98], sequence = 9, vtype = kTypeValue\<rparr>) {},
      Get_op demo_meta 0 (AppendInternalKey [] \<lparr>user_key = [97], sequence = 9, vtype = kTypeValue\<rparr>) {},
      Evict_op 5,
      Get_op demo_meta 0 (AppendInternalKey [] \<lparr>user_key = [97, 97], sequence = 9, vtype = kTypeValue\<rparr>) {}] =
   Some [(es_deleted, []), (es_found, [1, 2]), (es_notfound, [])]"
proof -
  have "table_lookup demo_entries [97, 98] = (es_deleted, Some [])" "table_lookup demo_entries [97] = (es_found, Some [1, 2])"
    "table_lookup demo_entries [97, 97] = (es_notfound, None)" by code_simp+
  then show ?thesis unfolding table_cache_refines_lookup [OF demo_tables_of] using demo_tables_of by simp
qed

end
