(* ===== verification/Version.thy ===== *)
theory Version
  imports TableCache "HOL-Library.Product_Lexorder"
begin

text \<open>
  A version of the index (\<open>index/tropodb_version.cc\<close>): the tables of every level, the lookup of a key through
  the levels, and the selection of the tables that overlap a range of keys, with the helpers of
  \<open>index/tropodb_version_set.cc\<close> that compute ranges and boundary tables for a compaction.

  A version is a value: the pointers to table metadata are the metadata themselves, and the list of
  versions and its reference counts are left out here. \<open>smallest\<close> and \<open>largest\<close> of a table are encoded
  internal keys. The lookup passes the state of the table cache along. \<open>std::sort\<close> is an
  insertion sort; its order is only unspecified for tables with equal numbers.
\<close>

section \<open>State\<close>

record TropoVersion =
  ss :: "SSZoneMetaData list list"
  ss_d :: "SSZoneMetaData list list"
  ss_deleted_range :: "u64 \<times> u64"

definition TropoVersion_init :: TropoVersion where
  "TropoVersion_init = \<lparr>ss = replicate level_count [], ss_d = replicate level_count [], ss_deleted_range = (0, 0)\<rparr>"

abbreviation smallest_user :: "SSZoneMetaData \<Rightarrow> bytes" where
  "smallest_user m \<equiv> ExtractUserKey (smallest m)"

abbreviation largest_user :: "SSZoneMetaData \<Rightarrow> bytes" where
  "largest_user m \<equiv> ExtractUserKey (largest m)"

section \<open>Looking up a key\<close>

text \<open>The binary search for the first table that does not end before the key.\<close>

function find_index :: "(bytes \<Rightarrow> bytes \<Rightarrow> int) \<Rightarrow> SSZoneMetaData list \<Rightarrow> bytes \<Rightarrow> nat \<Rightarrow> nat \<Rightarrow> nat" where
  "find_index cmp tables key left right =
     (if left < right then
        let mid = (left + right) div 2 in
        if cmp (largest_user (tables ! mid)) (ExtractUserKey key) < 0 then find_index cmp tables key (mid + 1) right
        else find_index cmp tables key left mid
      else right)"
  by pat_completeness auto
termination
  by (relation "measure (\<lambda>(cmp, tables, key, left, right). right - left)") auto

declare find_index.simps [simp del]

definition FindSSTableIndex :: "(bytes \<Rightarrow> bytes \<Rightarrow> int) \<Rightarrow> SSZoneMetaData list \<Rightarrow> bytes \<Rightarrow> nat" where
  "FindSSTableIndex cmp tables key = find_index cmp tables key 0 (length tables)"

definition in_range :: "(bytes \<Rightarrow> bytes \<Rightarrow> int) \<Rightarrow> bytes \<Rightarrow> SSZoneMetaData \<Rightarrow> bool" where
  "in_range ucmp key z \<longleftrightarrow> ucmp key (smallest_user z) \<ge> 0 \<and> ucmp key (largest_user z) \<le> 0"

text \<open>The order of the tables of level 0: the newest first.\<close>

definition newer_table :: "SSZoneMetaData \<Rightarrow> SSZoneMetaData \<Rightarrow> bool" where
  "newer_table a b =
     (if L0_number a > L0_number b then True
      else if L0_number a < L0_number b then False
      else sz_number a > sz_number b)"

fun insert_newest :: "SSZoneMetaData \<Rightarrow> SSZoneMetaData list \<Rightarrow> SSZoneMetaData list" where
  "insert_newest x [] = [x]"
| "insert_newest x (y # ys) = (if newer_table y x then y # insert_newest x ys else x # y # ys)"

definition sort_newest :: "SSZoneMetaData list \<Rightarrow> SSZoneMetaData list" where
  "sort_newest xs = foldr insert_newest xs []"

text \<open>The loop over tables: \<open>Inl\<close> is a return with the status, \<open>Inr\<close> means to go on.\<close>

type_synonym lookup_step = "(status \<times> bytes \<times> TropoTableCache) + (bytes \<times> TropoTableCache)"

definition table_step ::
  "(bytes \<Rightarrow> bytes \<Rightarrow> int) \<Rightarrow> (nat \<Rightarrow> SSZoneMetaData \<Rightarrow> SSTableIteratorCompressed option) \<Rightarrow> bytes set \<Rightarrow> SSZoneMetaData \<Rightarrow> nat \<Rightarrow>
     bytes \<Rightarrow> bytes \<Rightarrow> TropoTableCache \<Rightarrow> lookup_step option" where
  "table_step ucmp newit evicted m level ikey value c = do {
     (call_status, entry_status, value, c) \<leftarrow> tc_Get ucmp newit evicted c m level ikey value;
     Some (if ok call_status \<and> entry_status \<noteq> es_notfound
           then Inl (if entry_status = es_found then call_status else NotFound, value, c)
           else Inr (value, c))
   }"

fun search_L0 ::
  "(bytes \<Rightarrow> bytes \<Rightarrow> int) \<Rightarrow> (nat \<Rightarrow> SSZoneMetaData \<Rightarrow> SSTableIteratorCompressed option) \<Rightarrow> bytes set \<Rightarrow> SSZoneMetaData list \<Rightarrow>
     bytes \<Rightarrow> bytes \<Rightarrow> TropoTableCache \<Rightarrow> lookup_step option" where
  "search_L0 ucmp newit evicted [] ikey value c = Some (Inr (value, c))"
| "search_L0 ucmp newit evicted (m # ms) ikey value c = do {
     r \<leftarrow> table_step ucmp newit evicted m 0 ikey value c;
     (case r of Inl res \<Rightarrow> Some (Inl res) | Inr (value, c) \<Rightarrow> search_L0 ucmp newit evicted ms ikey value c)
   }"

text \<open>The loop over the lower levels, with the number of the next level.\<close>

fun search_LN ::
  "(bytes \<Rightarrow> bytes \<Rightarrow> int) \<Rightarrow> (nat \<Rightarrow> SSZoneMetaData \<Rightarrow> SSTableIteratorCompressed option) \<Rightarrow> bytes set \<Rightarrow> nat \<Rightarrow>
     SSZoneMetaData list list \<Rightarrow> bytes \<Rightarrow> bytes \<Rightarrow> bytes \<Rightarrow> TropoTableCache \<Rightarrow> lookup_step option" where
  "search_LN ucmp newit evicted level [] key ikey value c = Some (Inr (value, c))"
| "search_LN ucmp newit evicted level (tables # rest) key ikey value c =
     (if tables = [] then search_LN ucmp newit evicted (level + 1) rest key ikey value c
      else
        let index = FindSSTableIndex ucmp tables ikey in
        if index \<ge> length tables then search_LN ucmp newit evicted (level + 1) rest key ikey value c
        else if in_range ucmp key (tables ! index) then do {
          r \<leftarrow> table_step ucmp newit evicted (tables ! index) level ikey value c;
          (case r of
             Inl res \<Rightarrow> Some (Inl res)
           | Inr (value, c) \<Rightarrow> search_LN ucmp newit evicted (level + 1) rest key ikey value c)
        }
        else search_LN ucmp newit evicted (level + 1) rest key ikey value c)"

definition version_Get ::
  "(bytes \<Rightarrow> bytes \<Rightarrow> int) \<Rightarrow> (nat \<Rightarrow> SSZoneMetaData \<Rightarrow> SSTableIteratorCompressed option) \<Rightarrow> bytes set \<Rightarrow> TropoVersion \<Rightarrow> LookupKey \<Rightarrow>
     bytes \<Rightarrow> TropoTableCache \<Rightarrow> (status \<times> bytes \<times> TropoTableCache) option" where
  "version_Get ucmp newit evicted v lkey value c = do {
     let key = lookup_user_key lkey;
     let ikey = internal_key lkey;
     let tmp = filter (in_range ucmp key) (rev (ss v ! 0));
     r \<leftarrow> search_L0 ucmp newit evicted (sort_newest tmp) ikey value c;
     (case r of
        Inl res \<Rightarrow> Some res
      | Inr (value, c) \<Rightarrow> do {
          r \<leftarrow> search_LN ucmp newit evicted 1 (take (level_count - 1) (drop 1 (ss v))) key ikey value c;
          (case r of Inl res \<Rightarrow> Some res | Inr (value, c) \<Rightarrow> Some (NotFound, value, c))
        })
   }"

section \<open>Tables that overlap a range\<close>

text \<open>The bounds are \<open>None\<close> where the pointer is null. For level 0 the search starts again when a table widens the range.\<close>

partial_function (option) overlap_loop ::
  "(bytes \<Rightarrow> bytes \<Rightarrow> int) \<Rightarrow> nat \<Rightarrow> SSZoneMetaData list \<Rightarrow> bytes option \<Rightarrow> bytes option \<Rightarrow> SSZoneMetaData list \<Rightarrow> nat \<Rightarrow>
     SSZoneMetaData list option" where
  "overlap_loop user_cmp level tables user_begin user_end inputs i =
     (if i < length tables then
        let m = tables ! i;
            sstable_start = smallest_user m;
            sstable_limit = largest_user m in
        if user_begin \<noteq> None \<and> user_cmp sstable_limit (the user_begin) < 0 then
          overlap_loop user_cmp level tables user_begin user_end inputs (i + 1)
        else if user_end \<noteq> None \<and> user_cmp sstable_start (the user_end) > 0 then
          overlap_loop user_cmp level tables user_begin user_end inputs (i + 1)
        else if level = 0 \<and> user_begin \<noteq> None \<and> user_cmp sstable_start (the user_begin) < 0 then
          overlap_loop user_cmp level tables (Some sstable_start) user_end [] 0
        else if level = 0 \<and> user_end \<noteq> None \<and> user_cmp sstable_limit (the user_end) > 0 then
          overlap_loop user_cmp level tables user_begin (Some sstable_limit) [] 0
        else overlap_loop user_cmp level tables user_begin user_end (inputs @ [m]) (i + 1)
      else Some inputs)"

definition GetOverlappingInputs ::
  "(bytes \<Rightarrow> bytes \<Rightarrow> int) \<Rightarrow> TropoVersion \<Rightarrow> nat \<Rightarrow> bytes option \<Rightarrow> bytes option \<Rightarrow> SSZoneMetaData list option" where
  "GetOverlappingInputs user_cmp v level from until =
     overlap_loop user_cmp level (ss v ! level) (map_option ExtractUserKey from) (map_option ExtractUserKey until) [] 0"

section \<open>Ranges and boundary tables\<close>

text \<open>The range that the inputs cover; the keys stay cleared when there are none.\<close>

definition GetRange :: "(bytes \<Rightarrow> bytes \<Rightarrow> int) \<Rightarrow> SSZoneMetaData list \<Rightarrow> bytes \<times> bytes" where
  "GetRange icmp inputs =
     (case inputs of
        [] \<Rightarrow> ([], [])
      | m # ms \<Rightarrow>
          foldl (\<lambda>(sm, la) m. (if icmp (smallest m) sm < 0 then smallest m else sm, if icmp (largest m) la > 0 then largest m else la))
            (smallest m, largest m) ms)"

definition GetRange2 :: "(bytes \<Rightarrow> bytes \<Rightarrow> int) \<Rightarrow> SSZoneMetaData list \<Rightarrow> SSZoneMetaData list \<Rightarrow> bytes \<times> bytes" where
  "GetRange2 icmp inputs1 inputs2 = GetRange icmp (inputs1 @ inputs2)"

definition FindLargestKey :: "(bytes \<Rightarrow> bytes \<Rightarrow> int) \<Rightarrow> SSZoneMetaData list \<Rightarrow> bytes option" where
  "FindLargestKey icmp tables =
     (case tables of
        [] \<Rightarrow> None
      | m # ms \<Rightarrow> Some (foldl (\<lambda>k m. if icmp (largest m) k > 0 then largest m else k) (largest m) ms))"

definition FindSmallestBoundarySS ::
  "(bytes \<Rightarrow> bytes \<Rightarrow> int) \<Rightarrow> SSZoneMetaData list \<Rightarrow> bytes \<Rightarrow> SSZoneMetaData option" where
  "FindSmallestBoundarySS user_cmp level_ss largest_key =
     foldl (\<lambda>best m.
        if InternalKeyCompare user_cmp (smallest m) largest_key > 0 \<and>
           user_cmp (smallest_user m) (ExtractUserKey largest_key) = 0
        then (case best of
                None \<Rightarrow> Some m
              | Some b \<Rightarrow> if InternalKeyCompare user_cmp (smallest m) (smallest b) < 0 then Some m else Some b)
        else best) None level_ss"

partial_function (option) boundary_loop ::
  "(bytes \<Rightarrow> bytes \<Rightarrow> int) \<Rightarrow> SSZoneMetaData list \<Rightarrow> bytes \<Rightarrow> SSZoneMetaData list \<Rightarrow> SSZoneMetaData list option" where
  "boundary_loop user_cmp level_ss largest_key compaction_ss =
     (case FindSmallestBoundarySS user_cmp level_ss largest_key of
        None \<Rightarrow> Some compaction_ss
      | Some m \<Rightarrow> boundary_loop user_cmp level_ss (largest m) (compaction_ss @ [m]))"

definition AddBoundaryInputs ::
  "(bytes \<Rightarrow> bytes \<Rightarrow> int) \<Rightarrow> SSZoneMetaData list \<Rightarrow> SSZoneMetaData list \<Rightarrow> SSZoneMetaData list option" where
  "AddBoundaryInputs user_cmp level_ss compaction_ss =
     (case FindLargestKey (InternalKeyCompare user_cmp) compaction_ss of
        None \<Rightarrow> Some compaction_ss
      | Some largest_key \<Rightarrow> boundary_loop user_cmp level_ss largest_key compaction_ss)"

section \<open>The lookup as a specification\<close>

text \<open>What a lookup in a list of tables promises: the first table that has the user key decides.\<close>

fun lookup_tables :: "contents \<Rightarrow> SSZoneMetaData list \<Rightarrow> bytes \<Rightarrow> EntryStatus \<times> bytes option" where
  "lookup_tables content [] u = (es_notfound, None)"
| "lookup_tables content (m # ms) u =
     (case table_lookup (content (sz_number m)) u of
        (es_notfound, _) \<Rightarrow> lookup_tables content ms u
      | r \<Rightarrow> r)"

definition newest_first :: "TropoVersion \<Rightarrow> SSZoneMetaData list" where
  "newest_first v = sort_newest (rev (ss v ! 0)) @ concat (take (level_count - 1) (drop 1 (ss v)))"

text \<open>The metadata of a table describe its contents; the tables of a lower level follow each other.\<close>

definition describes :: "contents \<Rightarrow> SSZoneMetaData \<Rightarrow> bool" where
  "describes content m \<longleftrightarrow> valid_table (content (sz_number m)) \<and> content (sz_number m) \<noteq> [] \<and>
     smallest m = fst (hd (content (sz_number m))) \<and> largest m = fst (last (content (sz_number m)))"

definition level_ordered :: "SSZoneMetaData list \<Rightarrow> bool" where
  "level_ordered ms \<longleftrightarrow> sorted_wrt (\<lambda>a b. InternalKeyCompare BytewiseCompare (largest a) (smallest b) < 0) ms"

definition version_ok :: "contents \<Rightarrow> TropoVersion \<Rightarrow> bool" where
  "version_ok content v \<longleftrightarrow> length (ss v) = level_count \<and>
     (\<forall>ms\<in>set (ss v). \<forall>m\<in>set ms. describes content m) \<and> (\<forall>ms\<in>set (drop 1 (ss v)). level_ordered ms)"

section \<open>Order of the tables of level 0\<close>

definition newest_key :: "SSZoneMetaData \<Rightarrow> int \<times> int" where
  "newest_key m = (- uint (L0_number m), - uint (sz_number m))"

lemma newer_table_key: "newer_table a b \<longleftrightarrow> newest_key a < newest_key b"
  by (auto simp: newer_table_def newest_key_def word_less_def less_prod_def)

lemma insert_newest_insort: "insert_newest x ys = insort_key newest_key x ys"
  by (induction ys) (auto simp: newer_table_key)

lemma sort_newest_sort: "sort_newest xs = sort_key newest_key xs"
  by (induction xs) (simp_all add: sort_newest_def insert_newest_insort)

lemma sort_newest_filter: "sort_newest (filter P xs) = filter P (sort_newest xs)"
  by (simp add: sort_newest_sort filter_sort)

lemma set_sort_newest [simp]: "set (sort_newest xs) = set xs"
  by (simp add: sort_newest_sort)

section \<open>Tables out of range do not have the key\<close>

lemma valid_table_bounds:
  assumes "valid_table es" and "(k, v) \<in> set es"
  shows "BytewiseCompare (ExtractUserKey (fst (hd es))) (ExtractUserKey k) \<le> 0"
    and "BytewiseCompare (ExtractUserKey k) (ExtractUserKey (fst (last es))) \<le> 0"
proof -
  obtain i where i: "i < length es" "es ! i = (k, v)" using assms(2) by (auto simp: in_set_conv_nth)
  have s: "sorted_table BytewiseCompare es" using assms(1) internal_sorted_table by (simp add: valid_table_def)
  have ne: "es \<noteq> []" using assms(2) by auto
  show "BytewiseCompare (ExtractUserKey (fst (hd es))) (ExtractUserKey k) \<le> 0"
    using bytewise.sorted_table_nth [OF s, of 0 i] i ne by (simp add: hd_conv_nth)
  show "BytewiseCompare (ExtractUserKey k) (ExtractUserKey (fst (last es))) \<le> 0"
    using bytewise.sorted_table_nth [OF s, of i "length es - 1"] i ne by (simp add: last_conv_nth)
qed

lemma cmp_flip_le: "BytewiseCompare a b \<le> 0 \<longleftrightarrow> 0 \<le> BytewiseCompare b a"
  using bytewise.cmp_flip [of b a] by auto

lemma table_lookup_notfound:
  "(\<forall>kv\<in>set es. ExtractUserKey (fst kv) \<noteq> u) \<Longrightarrow> table_lookup es u = (es_notfound, None)"
proof -
  assume "\<forall>kv\<in>set es. ExtractUserKey (fst kv) \<noteq> u"
  then have "find (\<lambda>kv. ExtractUserKey (fst kv) = u) es = None" unfolding find_None_iff by blast
  then show ?thesis by (simp add: table_lookup_def)
qed

lemma table_lookup_cases:
  obtains (notfound) "table_lookup es u = (es_notfound, None)" "\<forall>kv\<in>set es. ExtractUserKey (fst kv) \<noteq> u"
  | (deleted) "table_lookup es u = (es_deleted, Some [])"
  | (found) v where "table_lookup es u = (es_found, Some v)"
proof (cases "find (\<lambda>kv. ExtractUserKey (fst kv) = u) es")
  case None
  then have "\<forall>kv\<in>set es. ExtractUserKey (fst kv) \<noteq> u" unfolding find_None_iff by blast
  then show thesis using notfound table_lookup_notfound by blast
next
  case (Some kv)
  then show thesis using deleted found by (cases kv; cases "ExtractValueType (fst kv) = kTypeDeletion") (auto simp: table_lookup_def)
qed

lemma out_of_range_notfound:
  assumes "describes content m" and "\<not> in_range BytewiseCompare u m"
  shows "table_lookup (content (sz_number m)) u = (es_notfound, None)"
proof (rule table_lookup_notfound, rule ballI, rule notI)
  fix kv assume kv: "kv \<in> set (content (sz_number m))" and u: "ExtractUserKey (fst kv) = u"
  have "valid_table (content (sz_number m))" using assms(1) by (simp add: describes_def)
  from valid_table_bounds [OF this, of "fst kv" "snd kv"] kv u assms(1) have "in_range BytewiseCompare u m"
    by (simp add: in_range_def describes_def cmp_flip_le)
  then show False using assms(2) by simp
qed

lemma lookup_tables_in_range:
  "\<forall>m\<in>set ms. describes content m \<Longrightarrow> lookup_tables content (filter (\<lambda>m. in_range BytewiseCompare u m) ms) u = lookup_tables content ms u"
  by (induction ms) (auto simp: out_of_range_notfound split: prod.splits EntryStatus.splits)

lemma lookup_tables_append:
  "lookup_tables content (ms @ ns) u =
    (case lookup_tables content ms u of (es_notfound, _) \<Rightarrow> lookup_tables content ns u | r \<Rightarrow> r)"
proof (induction ms)
  case (Cons m ms)
  show ?case by (cases rule: table_lookup_cases [of "content (sz_number m)" u]) (simp_all add: Cons)
qed simp

lemma lookup_tables_notfound:
  "(\<forall>m\<in>set ms. \<forall>kv\<in>set (content (sz_number m)). ExtractUserKey (fst kv) \<noteq> u) \<Longrightarrow> lookup_tables content ms u = (es_notfound, None)"
  by (induction ms) (auto simp: table_lookup_notfound)

section \<open>Binary search in a level\<close>

text \<open>The result of the binary search splits the indices into those that satisfy \<open>P\<close> and those that do not.\<close>

definition splits_at :: "(nat \<Rightarrow> bool) \<Rightarrow> nat \<Rightarrow> nat \<Rightarrow> bool" where
  "splits_at P len n \<longleftrightarrow> n \<le> len \<and> (\<forall>i<n. P i) \<and> (\<forall>i. n \<le> i \<and> i < len \<longrightarrow> \<not> P i)"

lemma find_index_splits:
  fixes key :: bytes and cmp :: "bytes \<Rightarrow> bytes \<Rightarrow> int" and ms :: "SSZoneMetaData list"
  defines "P \<equiv> \<lambda>i. cmp (largest_user (ms ! i)) (ExtractUserKey key) < 0"
  assumes mono: "\<And>i j. i \<le> j \<Longrightarrow> j < length ms \<Longrightarrow> P j \<Longrightarrow> P i"
  shows "left \<le> right \<Longrightarrow> right \<le> length ms \<Longrightarrow> (\<And>i. i < left \<Longrightarrow> P i) \<Longrightarrow>
    (\<And>i. right \<le> i \<Longrightarrow> i < length ms \<Longrightarrow> \<not> P i) \<Longrightarrow> splits_at P (length ms) (find_index cmp ms key left right)"
proof (induction "right - left" arbitrary: left right rule: less_induct)
  case less
  show ?case
  proof (cases "left < right")
    case True
    define mid where "mid = (left + right) div 2"
    have b: "left \<le> mid" "mid < right" using True by (simp_all add: mid_def)
    have step: "find_index cmp ms key left right =
        (if P mid then find_index cmp ms key (mid + 1) right else find_index cmp ms key left mid)"
      using True by (subst find_index.simps) (simp add: P_def mid_def)
    show ?thesis
    proof (cases "P mid")
      case lt: True
      have "splits_at P (length ms) (find_index cmp ms key (mid + 1) right)"
      proof (rule less.hyps)
        show "P i" if "i < mid + 1" for i using mono [of i mid] lt b less.prems(2) that by simp
      qed (use b less.prems(2,4) in auto)
      then show ?thesis using step lt by simp
    next
      case ge: False
      have "splits_at P (length ms) (find_index cmp ms key left mid)"
      proof (rule less.hyps)
        show "\<not> P i" if "mid \<le> i" "i < length ms" for i using mono [of mid i] ge that by blast
      qed (use b less.prems(2,3) in auto)
      then show ?thesis using step ge by simp
    qed
  next
    case False
    then have "find_index cmp ms key left right = right" by (subst find_index.simps) simp
    then show ?thesis using less.prems False unfolding splits_at_def by (metis le_antisym not_less)
  qed
qed

lemma describes_smallest_largest:
  assumes "describes content m"
  shows "is_ikey (smallest m)" "is_ikey (largest m)" "BytewiseCompare (smallest_user m) (largest_user m) \<le> 0"
proof -
  let ?es = "content (sz_number m)"
  have v: "valid_table ?es" and ne: "?es \<noteq> []" and sl: "smallest m = fst (hd ?es)" "largest m = fst (last ?es)"
    using assms by (simp_all add: describes_def)
  show "is_ikey (smallest m)" "is_ikey (largest m)" using v ne sl by (simp_all add: valid_table_def internal_sorted_def)
  show "BytewiseCompare (smallest_user m) (largest_user m) \<le> 0"
    using valid_table_bounds(1) [OF v, of "fst (last ?es)" "snd (last ?es)"] ne sl by simp
qed

lemma internal_less_user: "InternalKeyCompare BytewiseCompare a b < 0 \<Longrightarrow> BytewiseCompare (ExtractUserKey a) (ExtractUserKey b) \<le> 0"
  by (auto simp: bytewise.internal_less_iff bytewise.cmp_refl)

lemma level_users:
  assumes "level_ordered ms" and "\<forall>m\<in>set ms. describes content m" and "i < j" and "j < length ms"
  shows "BytewiseCompare (largest_user (ms ! i)) (smallest_user (ms ! j)) \<le> 0"
    and "BytewiseCompare (largest_user (ms ! i)) (largest_user (ms ! j)) \<le> 0"
proof -
  show 1: "BytewiseCompare (largest_user (ms ! i)) (smallest_user (ms ! j)) \<le> 0"
    using assms(1,3,4) by (intro internal_less_user) (simp add: level_ordered_def sorted_wrt_iff_nth_less)
  have "BytewiseCompare (smallest_user (ms ! j)) (largest_user (ms ! j)) \<le> 0"
    using describes_smallest_largest(3) assms(2,4) nth_mem by blast
  then show "BytewiseCompare (largest_user (ms ! i)) (largest_user (ms ! j)) \<le> 0" using 1 bytewise.cmp_le_trans by blast
qed

lemma FindSSTableIndex_first:
  fixes key :: bytes and ms :: "SSZoneMetaData list"
  assumes "level_ordered ms" and "\<forall>m\<in>set ms. describes content m"
  defines "n \<equiv> FindSSTableIndex BytewiseCompare ms key"
  shows "n \<le> length ms" and "i < n \<Longrightarrow> BytewiseCompare (largest_user (ms ! i)) (ExtractUserKey key) < 0"
    and "n \<le> i \<Longrightarrow> i < length ms \<Longrightarrow> \<not> BytewiseCompare (largest_user (ms ! i)) (ExtractUserKey key) < 0"
proof -
  let ?P = "\<lambda>i. BytewiseCompare (largest_user (ms ! i)) (ExtractUserKey key) < 0"
  have "?P i" if "i \<le> j" "j < length ms" "?P j" for i j
    using that level_users(2) [OF assms(1,2), of i j] bytewise.cmp_le_less_trans by (cases "i = j") auto
  then have "splits_at ?P (length ms) n" unfolding n_def FindSSTableIndex_def by (intro find_index_splits) auto
  then show "n \<le> length ms" and "i < n \<Longrightarrow> ?P i" and "n \<le> i \<Longrightarrow> i < length ms \<Longrightarrow> \<not> ?P i"
    by (auto simp: splits_at_def)
qed

text \<open>In a level only the table that the search finds can decide.\<close>

lemma lookup_level:
  fixes key :: bytes and ms :: "SSZoneMetaData list"
  assumes lo: "level_ordered ms" and d: "\<forall>m\<in>set ms. describes content m"
  defines "n \<equiv> FindSSTableIndex BytewiseCompare ms key"
  shows "lookup_tables content ms (ExtractUserKey key) =
    (if n < length ms then table_lookup (content (sz_number (ms ! n))) (ExtractUserKey key) else (es_notfound, None))"
proof -
  let ?u = "ExtractUserKey key"
  note first = FindSSTableIndex_first [OF lo d, where key = key, folded n_def]
  have before: "lookup_tables content (take n ms) ?u = (es_notfound, None)"
  proof (rule lookup_tables_notfound, intro ballI notI)
    fix m kv assume "m \<in> set (take n ms)" and kv: "kv \<in> set (content (sz_number m))" "ExtractUserKey (fst kv) = ?u"
    then obtain i where i: "i < n" "i < length ms" "ms ! i = m" by (auto simp: in_set_conv_nth)
    then have "describes content m" using d nth_mem by blast
    then have "BytewiseCompare ?u (largest_user m) \<le> 0"
      using valid_table_bounds(2) [of "content (sz_number m)" "fst kv" "snd kv"] kv by (simp add: describes_def)
    then show False using first(2) [OF i(1)] i(3) cmp_flip_le [of ?u "largest_user m"] by simp
  qed
  show ?thesis
  proof (cases "n < length ms")
    case True
    have m: "describes content (ms ! n)" using d True by simp
    have after: "lookup_tables content (drop (Suc n) ms) ?u = (es_notfound, None)"
      if nf: "\<forall>kv\<in>set (content (sz_number (ms ! n))). ExtractUserKey (fst kv) \<noteq> ?u"
    proof (rule lookup_tables_notfound, intro ballI notI)
      fix m kv assume "m \<in> set (drop (Suc n) ms)" and kv: "kv \<in> set (content (sz_number m))" "ExtractUserKey (fst kv) = ?u"
      then obtain j where "j < length (drop (Suc n) ms)" "drop (Suc n) ms ! j = m" unfolding in_set_conv_nth by blast
      then have j: "Suc n + j < length ms" "ms ! (Suc n + j) = m" by auto
      then have dm: "describes content m" using d nth_mem by blast
      have "BytewiseCompare (smallest_user m) ?u \<le> 0"
        using valid_table_bounds(1) [of "content (sz_number m)" "fst kv" "snd kv"] kv dm by (simp add: describes_def)
      moreover have "BytewiseCompare (largest_user (ms ! n)) (smallest_user m) \<le> 0"
        using level_users(1) [OF lo d, of n "Suc n + j"] j by simp
      ultimately have "BytewiseCompare (largest_user (ms ! n)) ?u \<le> 0" using bytewise.cmp_le_trans by blast
      then have "largest_user (ms ! n) = ?u" using first(3) [of n] True bytewise.cmp_eq [of "largest_user (ms ! n)" ?u] by simp
      then show False using nf m last_in_set unfolding describes_def by metis
    qed
    have ms: "ms = take n ms @ ms ! n # drop (Suc n) ms" using True by (rule id_take_nth_drop)
    have "lookup_tables content ms ?u =
        (case table_lookup (content (sz_number (ms ! n))) ?u of
           (es_notfound, _) \<Rightarrow> lookup_tables content (drop (Suc n) ms) ?u | r \<Rightarrow> r)"
      by (subst ms) (simp only: lookup_tables_append before lookup_tables.simps prod.case EntryStatus.case)
    then show ?thesis
      using True after by (cases rule: table_lookup_cases [of "content (sz_number (ms ! n))" ?u]) simp_all
  next
    case False
    then have "take n ms = ms" by simp
    then show ?thesis using before False by simp
  qed
qed

section \<open>The lookup implements the specification\<close>

text \<open>What the result of a lookup makes of the loop: the value and the cache are the old ones when nothing was found.\<close>

fun to_step :: "EntryStatus \<times> bytes option \<Rightarrow> bytes \<Rightarrow> TropoTableCache \<Rightarrow> lookup_step" where
  "to_step (es_notfound, _) value c = Inr (value, c)"
| "to_step (es_deleted, _) value c = Inl (NotFound, [], c)"
| "to_step (es_found, r) value c = Inl (OK, case r of Some v \<Rightarrow> v | None \<Rightarrow> value, c)"

lemma table_step_lookup:
  assumes "cache_ok content c" and "opens content newit level m" and "valid_table (content (sz_number m))"
  shows "\<exists>c'. table_step BytewiseCompare newit evicted m level key value c =
    Some (to_step (table_lookup (content (sz_number m)) (ExtractUserKey key)) value c') \<and> cache_ok content c'"
proof -
  obtain c' where "tc_Get BytewiseCompare newit evicted c m level key value =
      (case table_lookup (content (sz_number m)) (ExtractUserKey key) of
         (st, r) \<Rightarrow> Some (OK, st, case r of Some x \<Rightarrow> x | None \<Rightarrow> value, c'))" "cache_ok content c'"
    using tc_Get_lookup [OF assms] by blast
  then show ?thesis
    by (cases rule: table_lookup_cases [of "content (sz_number m)" "ExtractUserKey key"]) (simp_all add: table_step_def)
qed

lemma search_L0_lookup:
  assumes o: "\<And>m. opens content newit 0 m"
  shows "cache_ok content c \<Longrightarrow> \<forall>m\<in>set ms. describes content m \<Longrightarrow>
    \<exists>c'. search_L0 BytewiseCompare newit evicted ms key value c =
      Some (to_step (lookup_tables content ms (ExtractUserKey key)) value c') \<and> cache_ok content c'"
proof (induction ms arbitrary: c)
  case (Cons m ms)
  have "valid_table (content (sz_number m))" using Cons.prems(2) by (simp add: describes_def)
  then obtain c1 where c1: "table_step BytewiseCompare newit evicted m 0 key value c =
      Some (to_step (table_lookup (content (sz_number m)) (ExtractUserKey key)) value c1)" "cache_ok content c1"
    using table_step_lookup [OF Cons.prems(1) o] by blast
  then show ?case
    using Cons.IH [OF c1(2)] Cons.prems(2)
    by (cases rule: table_lookup_cases [of "content (sz_number m)" "ExtractUserKey key"]) auto
qed auto

lemma search_LN_lookup:
  assumes o: "\<And>l m. opens content newit l m"
  shows "cache_ok content c \<Longrightarrow> \<forall>ms\<in>set mss. level_ordered ms \<and> (\<forall>m\<in>set ms. describes content m) \<Longrightarrow>
    \<exists>c'. search_LN BytewiseCompare newit evicted level mss (ExtractUserKey key) key value c =
      Some (to_step (lookup_tables content (concat mss) (ExtractUserKey key)) value c') \<and> cache_ok content c'"
proof (induction mss arbitrary: c level)
  case (Cons ms mss)
  let ?u = "ExtractUserKey key" and ?n = "FindSSTableIndex BytewiseCompare ms key"
  have ms: "level_ordered ms" "\<forall>m\<in>set ms. describes content m" using Cons.prems(2) by simp_all
  have cat: "lookup_tables content (concat (ms # mss)) ?u =
      (case lookup_tables content ms ?u of (es_notfound, _) \<Rightarrow> lookup_tables content (concat mss) ?u | r \<Rightarrow> r)"
    by (simp add: lookup_tables_append)
  obtain c' where rest: "search_LN BytewiseCompare newit evicted (level + 1) mss ?u key value c =
      Some (to_step (lookup_tables content (concat mss) ?u) value c')" "cache_ok content c'"
    using Cons.IH [OF Cons.prems(1), of "level + 1"] Cons.prems(2) by auto
  show ?case
  proof (cases "?n < length ms \<and> in_range BytewiseCompare ?u (ms ! ?n)")
    case True
    then have m: "describes content (ms ! ?n)" and ne: "ms \<noteq> []" using ms(2) by auto
    then obtain c1 where c1: "table_step BytewiseCompare newit evicted (ms ! ?n) level key value c =
        Some (to_step (table_lookup (content (sz_number (ms ! ?n))) ?u) value c1)" "cache_ok content c1"
      using table_step_lookup [OF Cons.prems(1) o] unfolding describes_def by blast
    have "lookup_tables content ms ?u = table_lookup (content (sz_number (ms ! ?n))) ?u"
      using lookup_level [OF ms, of key] True by simp
    then show ?thesis
      using Cons.IH [OF c1(2), of "level + 1"] Cons.prems(2) c1 True ne cat
      by (cases rule: table_lookup_cases [of "content (sz_number (ms ! ?n))" ?u]) (auto simp: Let_def)
  next
    case False
    then have "lookup_tables content ms ?u = (es_notfound, None)"
      using lookup_level [OF ms, of key] out_of_range_notfound [of content "ms ! ?n" ?u] ms(2) by auto
    moreover have "search_LN BytewiseCompare newit evicted level (ms # mss) ?u key value c =
        search_LN BytewiseCompare newit evicted (level + 1) mss ?u key value c"
      using False by (auto simp: Let_def)
    ultimately show ?thesis using rest cat by (intro exI [of _ c']) simp
  qed
qed auto

lemma version_Get_lookup:
  assumes v: "version_ok content v" and c: "cache_ok content c" and o: "\<And>l m. opens content newit l m"
  shows "\<exists>c'. version_Get BytewiseCompare newit evicted v (LookupKey_init u s) value c =
    Some (case to_step (lookup_tables content (newest_first v) u) value c' of Inl r \<Rightarrow> r | Inr (x, c) \<Rightarrow> (NotFound, x, c)) \<and>
    cache_ok content c'"
proof -
  let ?ik = "internal_key (LookupKey_init u s)" and ?L0 = "sort_newest (rev (ss v ! 0))"
    and ?LN = "take (level_count - 1) (drop 1 (ss v))"
  have u: "ExtractUserKey ?ik = u" by (simp add: internal_key_LookupKey)
  have "0 < length (ss v)" using v by (simp add: version_ok_def level_count_def)
  then have d0: "\<forall>m\<in>set ?L0. describes content m" using v nth_mem by (fastforce simp: version_ok_def)
  have dn: "\<forall>ms\<in>set ?LN. level_ordered ms \<and> (\<forall>m\<in>set ms. describes content m)"
    using v by (auto simp: version_ok_def dest!: in_set_takeD dest: in_set_dropD)
  have tmp: "sort_newest (filter (in_range BytewiseCompare u) (rev (ss v ! 0))) = filter (in_range BytewiseCompare u) ?L0"
    by (rule sort_newest_filter)
  have "lookup_tables content (filter (in_range BytewiseCompare u) ?L0) u = lookup_tables content ?L0 u"
    using lookup_tables_in_range [OF d0] by simp
  then obtain c1 where c1: "search_L0 BytewiseCompare newit evicted (filter (in_range BytewiseCompare u) ?L0) ?ik value c =
      Some (to_step (lookup_tables content ?L0 u) value c1)" "cache_ok content c1"
    using search_L0_lookup [OF o c, of "filter (in_range BytewiseCompare u) ?L0" evicted ?ik "value"] d0 u by auto
  obtain c2 where c2: "search_LN BytewiseCompare newit evicted 1 ?LN u ?ik value c1 =
      Some (to_step (lookup_tables content (concat ?LN) u) value c2)" "cache_ok content c2"
    using search_LN_lookup [OF o c1(2) dn, of evicted 1 ?ik "value"] u by auto
  have nf: "lookup_tables content (newest_first v) u =
      (case lookup_tables content ?L0 u of (es_notfound, _) \<Rightarrow> lookup_tables content (concat ?LN) u | r \<Rightarrow> r)"
    unfolding newest_first_def lookup_tables_append ..
  obtain st r where L0: "lookup_tables content ?L0 u = (st, r)" by fastforce
  show ?thesis
  proof (cases "st = es_notfound")
    case True
    then show ?thesis using c1 c2 nf L0 tmp by (intro exI [of _ c2]) (auto simp: version_Get_def Let_def split: sum.splits)
  next
    case False
    then show ?thesis using c1 nf L0 tmp by (cases st) (auto simp: version_Get_def Let_def)
  qed
qed

section \<open>The newest version of a key\<close>

text \<open>One table holds newer versions of the keys it shares with another.\<close>

definition supersedes :: "contents \<Rightarrow> SSZoneMetaData \<Rightarrow> SSZoneMetaData \<Rightarrow> bool" where
  "supersedes content a b \<longleftrightarrow>
     (\<forall>kv\<in>set (content (sz_number a)). \<forall>kw\<in>set (content (sz_number b)).
       ExtractUserKey (fst kv) = ExtractUserKey (fst kw) \<longrightarrow> ExtractInternalKeyFooter (fst kw) < ExtractInternalKeyFooter (fst kv))"

definition by_age :: "contents \<Rightarrow> SSZoneMetaData list \<Rightarrow> bool" where
  "by_age content ms \<longleftrightarrow> sorted_wrt (supersedes content) ms"

text \<open>How the tables of a version relate in age: in level 0 the numbers tell, which are unique, and a level
  is newer than the levels below it.\<close>

definition recency :: "contents \<Rightarrow> TropoVersion \<Rightarrow> bool" where
  "recency content v \<longleftrightarrow>
     distinct (map (\<lambda>m. (L0_number m, sz_number m)) (ss v ! 0)) \<and>
     (\<forall>a\<in>set (ss v ! 0). \<forall>b\<in>set (ss v ! 0).
        L0_number b < L0_number a \<or> L0_number b = L0_number a \<and> sz_number b < sz_number a \<longrightarrow> supersedes content a b) \<and>
     sorted_wrt (\<lambda>as bs. \<forall>a\<in>set as. \<forall>b\<in>set bs. supersedes content a b) (ss v)"

definition all_entries :: "contents \<Rightarrow> SSZoneMetaData list \<Rightarrow> (bytes \<times> bytes) list" where
  "all_entries content ms = concat (map (\<lambda>m. content (sz_number m)) ms)"

definition entry_result :: "bytes \<times> bytes \<Rightarrow> EntryStatus \<times> bytes option" where
  "entry_result kv = (if ExtractValueType (fst kv) = kTypeDeletion then (es_deleted, Some []) else (es_found, Some (snd kv)))"

lemma entry_result_found: "fst (entry_result kv) \<noteq> es_notfound"
  by (simp add: entry_result_def)

lemma lookup_tables_newest:
  assumes "by_age content ms" and "\<forall>m\<in>set ms. valid_table (content (sz_number m))"
    and "kv \<in> set (all_entries content ms)" and "ExtractUserKey (fst kv) = u"
  shows "\<exists>kw. kw \<in> set (all_entries content ms) \<and> ExtractUserKey (fst kw) = u \<and> lookup_tables content ms u = entry_result kw \<and>
    (\<forall>kx\<in>set (all_entries content ms). ExtractUserKey (fst kx) = u \<longrightarrow> ExtractInternalKeyFooter (fst kx) \<le> ExtractInternalKeyFooter (fst kw))"
  using assms
proof (induction ms)
  case (Cons m ms)
  let ?es = "content (sz_number m)"
  have tl: "by_age content ms" "\<forall>m\<in>set ms. valid_table (content (sz_number m))" using Cons.prems(1,2) by (simp_all add: by_age_def)
  show ?case
  proof (cases "\<exists>kv\<in>set ?es. ExtractUserKey (fst kv) = u")
    case True
    then obtain k v where kv: "(k, v) \<in> set ?es" "ExtractUserKey k = u" by auto
    have "internal_sorted ?es" using Cons.prems(2) by (simp add: valid_table_def)
    from table_lookup_newest [OF this kv] obtain k' v' where w: "(k', v') \<in> set ?es" "ExtractUserKey k' = u"
      "\<forall>(k'', v'')\<in>set ?es. ExtractUserKey k'' = u \<longrightarrow> ExtractInternalKeyFooter k'' \<le> ExtractInternalKeyFooter k'"
      "table_lookup ?es u = entry_result (k', v')" unfolding entry_result_def fst_conv snd_conv by blast
    have "lookup_tables content (m # ms) u = entry_result (k', v')" using w(4) by (simp add: entry_result_def)
    moreover have "ExtractInternalKeyFooter (fst kx) \<le> ExtractInternalKeyFooter k'"
      if kx: "kx \<in> set (all_entries content (m # ms))" "ExtractUserKey (fst kx) = u" for kx
    proof (cases "kx \<in> set ?es")
      case True
      then show ?thesis using w(3) kx(2) by (cases kx) auto
    next
      case False
      then obtain m' where "m' \<in> set ms" "kx \<in> set (content (sz_number m'))" using kx(1) by (auto simp: all_entries_def)
      then show ?thesis using Cons.prems(1) w(1,2) kx(2) by (fastforce simp: by_age_def supersedes_def)
    qed
    ultimately show ?thesis using w(1,2) by (intro exI [of _ "(k', v')"]) (auto simp: all_entries_def)
  next
    case False
    then have "table_lookup ?es u = (es_notfound, None)" by (intro table_lookup_notfound) blast
    then have "lookup_tables content (m # ms) u = lookup_tables content ms u" by simp
    moreover have "kx \<in> set (all_entries content (m # ms)) \<and> ExtractUserKey (fst kx) = u \<longleftrightarrow>
        kx \<in> set (all_entries content ms) \<and> ExtractUserKey (fst kx) = u" for kx
      using False by (auto simp: all_entries_def)
    ultimately show ?thesis using Cons.IH [OF tl] Cons.prems(3,4) by metis
  qed
qed (simp add: all_entries_def)

lemma lookup_tables_absent:
  assumes "\<forall>kv\<in>set (all_entries content ms). ExtractUserKey (fst kv) \<noteq> u"
  shows "lookup_tables content ms u = (es_notfound, None)"
  using assms by (intro lookup_tables_notfound) (auto simp: all_entries_def)

lemma internal_bounds:
  assumes "describes content m" and "kv \<in> set (content (sz_number m))"
  shows "InternalKeyCompare BytewiseCompare (smallest m) (fst kv) \<le> 0" and "InternalKeyCompare BytewiseCompare (fst kv) (largest m) \<le> 0"
proof -
  let ?es = "content (sz_number m)" and ?cmp = "InternalKeyCompare BytewiseCompare"
  have d: "\<forall>kv\<in>set ?es. is_ikey (fst kv)" "sorted_wrt (\<lambda>a b. ?cmp (fst a) (fst b) < 0) ?es" "?es \<noteq> []"
    "smallest m = fst (?es ! 0)" "largest m = fst (?es ! (length ?es - 1))"
    using assms(1) by (simp_all add: describes_def valid_table_def internal_sorted_def hd_conv_nth last_conv_nth)
  obtain i where i: "i < length ?es" "?es ! i = kv" using assms(2) by (auto simp: in_set_conv_nth)
  have le: "?cmp (fst (?es ! a)) (fst (?es ! b)) \<le> 0" if "a \<le> b" "b < length ?es" for a b
  proof (cases "a = b")
    case True
    then show ?thesis using that(2) d(1) bytewise.internal.cmp_refl [of "fst (?es ! b)"] by simp
  next
    case False
    then have "?cmp (fst (?es ! a)) (fst (?es ! b)) < 0" using that d(2) by (simp add: sorted_wrt_iff_nth_less)
    then show ?thesis by simp
  qed
  show "?cmp (smallest m) (fst kv) \<le> 0" using le [of 0 i] i d(4) by simp
  show "?cmp (fst kv) (largest m) \<le> 0" using le [of i "length ?es - 1"] i d(5) by simp
qed

lemma sorted_wrt_concat:
  "sorted_wrt (\<lambda>xs ys. \<forall>x\<in>set xs. \<forall>y\<in>set ys. P x y) xss \<Longrightarrow> \<forall>xs\<in>set xss. sorted_wrt P xs \<Longrightarrow> sorted_wrt P (concat xss)"
  by (induction xss) (auto simp: sorted_wrt_append)

lemma level_by_age:
  assumes "level_ordered ms" and "\<forall>m\<in>set ms. describes content m"
  shows "sorted_wrt (supersedes content) ms"
proof (rule sorted_wrt_mono_rel [OF _ assms(1) [unfolded level_ordered_def]])
  fix a b assume ab: "a \<in> set ms" "b \<in> set ms" and lt: "InternalKeyCompare BytewiseCompare (largest a) (smallest b) < 0"
  show "supersedes content a b"
    unfolding supersedes_def
  proof (intro ballI impI)
    fix kv kw assume kv: "kv \<in> set (content (sz_number a))" and kw: "kw \<in> set (content (sz_number b))"
      and eq: "ExtractUserKey (fst kv) = ExtractUserKey (fst kw)"
    have "InternalKeyCompare BytewiseCompare (fst kv) (largest a) \<le> 0" "InternalKeyCompare BytewiseCompare (smallest b) (fst kw) \<le> 0"
      using internal_bounds assms(2) ab kv kw by blast+
    moreover have "is_ikey (fst kv)" "is_ikey (fst kw)" "is_ikey (largest a)" "is_ikey (smallest b)"
      using assms(2) ab kv kw describes_smallest_largest(1,2) by (auto simp: describes_def valid_table_def internal_sorted_def)
    ultimately have "InternalKeyCompare BytewiseCompare (fst kv) (fst kw) < 0"
      using lt bytewise.internal.cmp_le_less_trans bytewise.internal.cmp_less_le_trans by blast
    then show "ExtractInternalKeyFooter (fst kw) < ExtractInternalKeyFooter (fst kv)"
      using eq bytewise.cmp_refl by (simp add: bytewise.internal_less_iff)
  qed
qed

lemma newest_first_levels: "length (ss v) = level_count \<Longrightarrow> newest_first v = sort_newest (rev (ss v ! 0)) @ concat (tl (ss v))"
  by (simp add: newest_first_def drop_Suc)

lemma level0_by_age:
  assumes "recency content v"
  shows "sorted_wrt (supersedes content) (sort_newest (rev (ss v ! 0)))"
proof -
  let ?L = "sort_newest (rev (ss v ! 0))"
  have "inj_on newest_key (set (ss v ! 0))" "distinct (ss v ! 0)"
    using assms by (auto simp: recency_def distinct_map inj_on_def newest_key_def word_uint_eq_iff)
  then have "distinct (map newest_key ?L)" by (simp add: distinct_map sort_newest_sort)
  moreover have "sorted (map newest_key ?L)" by (simp add: sort_newest_sort)
  ultimately have "sorted_wrt (\<lambda>a b. newest_key a < newest_key b) ?L"
    using strict_sorted_iff [of "map newest_key ?L"] by (simp add: sorted_wrt_map)
  then show ?thesis
    by (rule sorted_wrt_mono_rel [rotated])
      (use assms in \<open>auto simp: recency_def newest_key_def less_prod_def word_less_def word_uint_eq_iff le_less\<close>)
qed

lemma newest_first_by_age:
  assumes "version_ok content v" and "recency content v"
  shows "by_age content (newest_first v)"
proof -
  have len: "length (ss v) = level_count" using assms(1) by (simp add: version_ok_def)
  then obtain l0 rest where ss: "ss v = l0 # rest" by (cases "ss v") (auto simp: level_count_def)
  have "sorted_wrt (supersedes content) ms" if "ms \<in> set rest" for ms
    using that assms(1) by (intro level_by_age) (simp_all add: version_ok_def ss)
  moreover have "sorted_wrt (\<lambda>as bs. \<forall>a\<in>set as. \<forall>b\<in>set bs. supersedes content a b) (l0 # rest)"
    using assms(2) by (simp add: recency_def ss)
  ultimately show ?thesis
    using level0_by_age [OF assms(2)] sorted_wrt_concat [of "supersedes content" rest]
    by (auto simp: by_age_def newest_first_levels [OF len] sorted_wrt_append ss)
qed

lemma set_newest_first:
  assumes "version_ok content v"
  shows "set (newest_first v) = set (concat (ss v))"
proof -
  have len: "length (ss v) = level_count" and ne: "ss v \<noteq> []" using assms by (auto simp: version_ok_def level_count_def)
  then show ?thesis by (cases "ss v") (auto simp: newest_first_levels)
qed

section \<open>Properties of the lookup\<close>

text \<open>C2: Looking up a key through the levels of a version returns its newest version: the value of the entry with the largest
  sequence number among all entries of all tables that have the user key, not found when that entry is a
  deletion, and not found, with the caller's value untouched, when no table has the key. The filter of level 0, its sorting by age and the binary search in
  the lower levels lose nothing, whatever state earlier lookups left the table cache in.\<close>

theorem version_get_newest:
  assumes "tables_of content newit" and "version_ok content v" and "recency content v" and "cache_ok content c"
  shows "\<exists>c'. cache_ok content c' \<and>
    (if \<exists>kv\<in>set (all_entries content (concat (ss v))). ExtractUserKey (fst kv) = u
     then \<exists>kv\<in>set (all_entries content (concat (ss v))). ExtractUserKey (fst kv) = u \<and>
       (\<forall>kx\<in>set (all_entries content (concat (ss v))). ExtractUserKey (fst kx) = u \<longrightarrow>
          ExtractInternalKeyFooter (fst kx) \<le> ExtractInternalKeyFooter (fst kv)) \<and>
       version_Get BytewiseCompare newit evicted v (LookupKey_init u s) old c =
         Some (if ExtractValueType (fst kv) = kTypeDeletion then (NotFound, [], c') else (OK, snd kv, c'))
     else version_Get BytewiseCompare newit evicted v (LookupKey_init u s) old c = Some (NotFound, old, c'))"
proof -
  let ?ms = "newest_first v"
  have ents: "set (all_entries content (concat (ss v))) = set (all_entries content ?ms)"
    using set_newest_first [OF assms(2)] by (simp add: all_entries_def)
  have age: "by_age content ?ms" by (rule newest_first_by_age [OF assms(2,3)])
  obtain c' where g: "version_Get BytewiseCompare newit evicted v (LookupKey_init u s) old c =
      Some (case to_step (lookup_tables content ?ms u) old c' of Inl r \<Rightarrow> r | Inr (x, c) \<Rightarrow> (NotFound, x, c))" "cache_ok content c'"
    using version_Get_lookup [OF assms(2,4) tables_of_opens [OF assms(1)]] by blast
  have t: "\<forall>m\<in>set ?ms. valid_table (content (sz_number m))" using assms(1) by (simp add: tables_of_def)
  show ?thesis
  proof (cases "\<exists>kv\<in>set (all_entries content (concat (ss v))). ExtractUserKey (fst kv) = u")
    case True
    then obtain kw where "kw \<in> set (all_entries content (concat (ss v)))" "ExtractUserKey (fst kw) = u"
      "\<forall>kx\<in>set (all_entries content (concat (ss v))). ExtractUserKey (fst kx) = u \<longrightarrow>
        ExtractInternalKeyFooter (fst kx) \<le> ExtractInternalKeyFooter (fst kw)"
      and r: "lookup_tables content ?ms u = entry_result kw"
      using lookup_tables_newest [OF age t] unfolding ents by blast
    moreover have "version_Get BytewiseCompare newit evicted v (LookupKey_init u s) old c =
        Some (if ExtractValueType (fst kw) = kTypeDeletion then (NotFound, [], c') else (OK, snd kw, c'))"
      using g(1) r by (simp add: entry_result_def)
    ultimately show ?thesis using True g(2) by (intro exI [of _ c']) (simp only: if_True, blast)
  next
    case False
    then have "lookup_tables content ?ms u = (es_notfound, None)" using ents by (intro lookup_tables_absent) blast
    then show ?thesis using False g by (intro exI [of _ c']) simp
  qed
qed

definition newer_entries :: "(bytes \<times> bytes) list" where
  "newer_entries = [(AppendInternalKey [] \<lparr>user_key = [97], sequence = 20, vtype = kTypeValue\<rparr>, [9])]"

definition demo_contents :: contents where
  "demo_contents n = (if n = 6 then newer_entries else demo_entries)"

definition demo_tables :: "nat \<Rightarrow> SSZoneMetaData \<Rightarrow> SSTableIteratorCompressed option" where
  "demo_tables level m = sst_NewIterator (sst_table demo_meta (-1) (demo_contents (sz_number m)))"

definition demo_version :: TropoVersion where
  "demo_version = TropoVersion_init\<lparr>ss := (ss TropoVersion_init)
     [0 := [demo_meta\<lparr>smallest := fst (hd demo_entries), largest := fst (last demo_entries)\<rparr>,
           demo_meta\<lparr>sz_number := 6, L0_number := 1, smallest := fst (hd newer_entries), largest := fst (last newer_entries)\<rparr>]]\<rparr>"

lemma demo_contents_valid: "valid_table newer_entries" "valid_table demo_entries"
proof -
  show "valid_table newer_entries" by code_simp
  show "valid_table demo_entries" by code_simp
qed

lemma newer_table_small: "length (sst_table demo_meta (-1) newer_entries) < 2 ^ 32"
proof -
  have "offset newer_entries (length newer_entries) < 100" by code_simp
  moreover have "restarts newer_entries = 1" by (simp add: restarts_def newer_entries_def)
  ultimately show ?thesis by (simp add: length_sst_table)
qed

lemma demo_version_tables: "tables_of demo_contents demo_tables"
proof -
  have "valid_table (demo_contents n) \<and> length (sst_table demo_meta (-1) (demo_contents n)) < 2 ^ 32" for n
    using demo_contents_valid newer_table_small demo_table_small by (cases "n = 6") (simp_all add: demo_contents_def)
  then show ?thesis
    unfolding tables_of_def demo_tables_def by (intro allI conjI exI [of _ demo_meta] exI [of _ "-1"] exI [of _ "[]"]) simp_all
qed

lemma demo_version_ok: "version_ok demo_contents demo_version"
  using demo_contents_valid
  by (auto simp: version_ok_def demo_version_def TropoVersion_init_def level_count_def numeral_eq_Suc describes_def level_ordered_def
      demo_contents_def demo_meta_def newer_entries_def demo_entries_def)

lemma demo_all_entries: "all_entries demo_contents (concat (ss demo_version)) = demo_entries @ newer_entries"
  by (simp add: demo_version_def TropoVersion_init_def level_count_def numeral_eq_Suc all_entries_def demo_contents_def demo_meta_def)

lemma demo_recency: "recency demo_contents demo_version"
proof -
  have "\<forall>kv\<in>set newer_entries. \<forall>kw\<in>set demo_entries.
       ExtractUserKey (fst kv) = ExtractUserKey (fst kw) \<longrightarrow> ExtractInternalKeyFooter (fst kw) < ExtractInternalKeyFooter (fst kv)"
    by code_simp
  then show ?thesis
    by (simp add: recency_def demo_version_def TropoVersion_init_def level_count_def numeral_eq_Suc demo_contents_def demo_meta_def supersedes_def)
qed

theorem version_get_newest_witness:
  "tables_of demo_contents demo_tables \<and> version_ok demo_contents demo_version \<and> recency demo_contents demo_version \<and>
   (\<exists>c. version_Get BytewiseCompare demo_tables {} demo_version (LookupKey_init [97] 30) [] TropoTableCache_init = Some (OK, [9], c))"
proof -
  let ?new = "(AppendInternalKey [] \<lparr>user_key = [97], sequence = 20, vtype = kTypeValue\<rparr>, [9])"
  have max: "\<forall>kv\<in>set (demo_entries @ newer_entries). ExtractUserKey (fst kv) = [97] \<and>
      (\<forall>kx\<in>set (demo_entries @ newer_entries). ExtractUserKey (fst kx) = [97] \<longrightarrow>
        ExtractInternalKeyFooter (fst kx) \<le> ExtractInternalKeyFooter (fst kv)) \<longrightarrow> kv = ?new"
    "\<exists>kv\<in>set (demo_entries @ newer_entries). ExtractUserKey (fst kv) = [97]"
    "ExtractValueType (fst ?new) \<noteq> kTypeDeletion"
    by code_simp+
  from version_get_newest [OF demo_version_tables demo_version_ok demo_recency cache_ok_init, of "[97]" "{}" 30 "[]"]
  show ?thesis
    unfolding demo_all_entries using max demo_version_tables demo_version_ok demo_recency by (auto split: if_splits)
qed

section \<open>Overlapping tables\<close>

definition overlaps :: "(bytes \<Rightarrow> bytes \<Rightarrow> int) \<Rightarrow> bytes option \<Rightarrow> bytes option \<Rightarrow> SSZoneMetaData \<Rightarrow> bool" where
  "overlaps cmp b e m \<longleftrightarrow> \<not> (b \<noteq> None \<and> cmp (largest_user m) (the b) < 0) \<and> \<not> (e \<noteq> None \<and> cmp (smallest_user m) (the e) > 0)"

definition inside :: "(bytes \<Rightarrow> bytes \<Rightarrow> int) \<Rightarrow> bytes option \<Rightarrow> bytes option \<Rightarrow> SSZoneMetaData \<Rightarrow> bool" where
  "inside cmp b e m \<longleftrightarrow> \<not> (b \<noteq> None \<and> cmp (smallest_user m) (the b) < 0) \<and> \<not> (e \<noteq> None \<and> cmp (largest_user m) (the e) > 0)"

text \<open>The tables that stick out of the range: their number goes down with every restart.\<close>

definition outliers :: "(bytes \<Rightarrow> bytes \<Rightarrow> int) \<Rightarrow> SSZoneMetaData list \<Rightarrow> bytes option \<Rightarrow> bytes option \<Rightarrow> nat" where
  "outliers cmp ms b e =
     length (filter (\<lambda>m. b \<noteq> None \<and> cmp (smallest_user m) (the b) < 0) ms) +
     length (filter (\<lambda>m. e \<noteq> None \<and> cmp (largest_user m) (the e) > 0) ms)"

lemma length_filter_less:
  assumes "\<And>x. x \<in> set xs \<Longrightarrow> P x \<Longrightarrow> Q x" and "x \<in> set xs" and "Q x" and "\<not> P x"
  shows "length (filter P xs) < length (filter Q xs)"
  using assms
proof (induction xs)
  case (Cons y ys)
  have le: "length (filter P ys) \<le> length (filter Q ys)"
    using Cons.prems(1) by (metis (mono_tags, lifting) list.set_intros(2) filter_cong filter_filter length_filter_le)
  show ?case
  proof (cases "x = y")
    case True
    then show ?thesis using Cons.prems le by simp
  next
    case False
    then show ?thesis using Cons by auto
  qed
qed simp

context user_comparator
begin

lemma cmp_greater: "0 < ucmp a b \<longleftrightarrow> ucmp b a < 0"
  using cmp_flip by simp

lemma cmp_less_trans: "ucmp a b < 0 \<Longrightarrow> ucmp b c < 0 \<Longrightarrow> ucmp a c < 0"
  using cmp_trans by blast

lemma outliers_begin:
  assumes "m \<in> set ms" and "ucmp (smallest_user m) b < 0"
  shows "outliers ucmp ms (Some (smallest_user m)) e < outliers ucmp ms (Some b) e"
  using length_filter_less [of ms "\<lambda>x. ucmp (smallest_user x) (smallest_user m) < 0" "\<lambda>x. ucmp (smallest_user x) b < 0" m]
    assms cmp_less_trans cmp_refl by (simp add: outliers_def)

lemma outliers_end:
  assumes "m \<in> set ms" and "ucmp (largest_user m) e > 0"
  shows "outliers ucmp ms b (Some (largest_user m)) < outliers ucmp ms b (Some e)"
  using length_filter_less [of ms "\<lambda>x. ucmp (largest_user x) (largest_user m) > 0" "\<lambda>x. ucmp (largest_user x) e > 0" m]
    assms cmp_less_trans cmp_refl by (simp add: outliers_def cmp_greater)

lemma overlaps_begin: "ucmp b' b < 0 \<Longrightarrow> overlaps ucmp (Some b) e m \<Longrightarrow> overlaps ucmp (Some b') e m"
  using cmp_less_trans by (auto simp: overlaps_def)

lemma overlaps_end: "ucmp e' e > 0 \<Longrightarrow> overlaps ucmp b (Some e) m \<Longrightarrow> overlaps ucmp b (Some e') m"
  using cmp_less_trans by (auto simp: overlaps_def cmp_greater)

lemma overlap_loop_spec:
  assumes "i \<le> length ms" and "inputs = filter (overlaps ucmp b e) (take i ms)"
    and "level = 0 \<longrightarrow> (\<forall>m\<in>set inputs. inside ucmp b e m)"
  shows "\<exists>b' e'. overlap_loop ucmp level ms b e inputs i = Some (filter (overlaps ucmp b' e') ms) \<and>
    (level = 0 \<longrightarrow> (\<forall>m\<in>set ms. overlaps ucmp b' e' m \<longrightarrow> inside ucmp b' e' m)) \<and>
    (level \<noteq> 0 \<longrightarrow> b' = b \<and> e' = e) \<and> (\<forall>m. overlaps ucmp b e m \<longrightarrow> overlaps ucmp b' e' m)"
  using assms
proof (induction "outliers ucmp ms b e * (length ms + 1) + (length ms - i)" arbitrary: b e inputs i rule: less_induct)
  case less
  show ?case
  proof (cases "i < length ms")
    case False
    then have "overlap_loop ucmp level ms b e inputs i = Some inputs" "take i ms = ms" using less.prems(1) by (simp_all add: overlap_loop.simps)
    then show ?thesis using less.prems(2,3) by (intro exI [of _ b] exI [of _ e]) auto
  next
    case i: True
    let ?m = "ms ! i"
    have m: "?m \<in> set ms" using i by simp
    have take: "take (i + 1) ms = take i ms @ [?m]" using i by (simp add: take_Suc_conv_app_nth)
    have restart: ?thesis
      if r: "overlap_loop ucmp level ms b e inputs i = overlap_loop ucmp level ms b1 e1 [] 0"
        "outliers ucmp ms b1 e1 < outliers ucmp ms b e" "level = 0" "\<forall>m. overlaps ucmp b e m \<longrightarrow> overlaps ucmp b1 e1 m" for b1 e1
    proof -
      have "outliers ucmp ms b1 e1 * (length ms + 1) + (length ms - 0) < outliers ucmp ms b e * (length ms + 1) + (length ms - i)"
        using mult_le_mono1 [OF Suc_leI [OF r(2)], of "length ms + 1"] i by simp
      from less.hyps [OF this, of "[]"] obtain b' e' where
        "overlap_loop ucmp level ms b1 e1 [] 0 = Some (filter (overlaps ucmp b' e') ms)"
        "\<forall>m\<in>set ms. overlaps ucmp b' e' m \<longrightarrow> inside ucmp b' e' m" "\<forall>m. overlaps ucmp b1 e1 m \<longrightarrow> overlaps ucmp b' e' m"
        using r(3) by auto
      then show ?thesis using r by (intro exI [of _ b'] exI [of _ e']) simp
    qed
    have skip: ?thesis
      if "overlap_loop ucmp level ms b e inputs i = overlap_loop ucmp level ms b e inputs' (i + 1)"
        "inputs' = filter (overlaps ucmp b e) (take (i + 1) ms)" "level = 0 \<longrightarrow> (\<forall>m\<in>set inputs'. inside ucmp b e m)" for inputs'
      using less.hyps [of b e "i + 1" inputs'] that i by simp
    consider (out) "\<not> overlaps ucmp b e ?m"
      | (left) b0 where "overlaps ucmp b e ?m" "level = 0" "b = Some b0" "ucmp (smallest_user ?m) b0 < 0"
      | (right) e0 where "overlaps ucmp b e ?m" "level = 0" "\<not> (b \<noteq> None \<and> ucmp (smallest_user ?m) (the b) < 0)" "e = Some e0" "ucmp (largest_user ?m) e0 > 0"
      | (push) "overlaps ucmp b e ?m" "level = 0 \<longrightarrow> inside ucmp b e ?m"
      unfolding inside_def by (cases b; cases e) (simp, blast)+
    then show ?thesis
    proof cases
      case out
      then have "overlap_loop ucmp level ms b e inputs i = overlap_loop ucmp level ms b e inputs (i + 1)"
        using i by (subst overlap_loop.simps) (auto simp: overlaps_def Let_def)
      then show ?thesis using less.prems out take by (intro skip) auto
    next
      case left
      then have "overlap_loop ucmp level ms b e inputs i = overlap_loop ucmp level ms (Some (smallest_user ?m)) e [] 0"
        using i by (subst overlap_loop.simps) (auto simp: overlaps_def Let_def)
      then show ?thesis using left outliers_begin [OF m] overlaps_begin by (intro restart) auto
    next
      case right
      then have "overlap_loop ucmp level ms b e inputs i = overlap_loop ucmp level ms b (Some (largest_user ?m)) [] 0"
        using i by (subst overlap_loop.simps) (auto simp: overlaps_def Let_def)
      then show ?thesis using right outliers_end [OF m] overlaps_end by (intro restart) auto
    next
      case push
      then have "overlap_loop ucmp level ms b e inputs i = overlap_loop ucmp level ms b e (inputs @ [?m]) (i + 1)"
        using i by (subst overlap_loop.simps) (auto simp: overlaps_def inside_def Let_def)
      then show ?thesis using less.prems push take by (intro skip) auto
    qed
  qed
qed

text \<open>Two tables whose ranges of user keys intersect.\<close>

lemma overlaps_closed:
  assumes "inside ucmp b e m" and "ucmp (smallest_user m') (largest_user m) \<le> 0" and "ucmp (smallest_user m) (largest_user m') \<le> 0"
  shows "overlaps ucmp b e m'"
  unfolding overlaps_def
proof (intro conjI notI)
  assume "b \<noteq> None \<and> ucmp (largest_user m') (the b) < 0"
  then show False using assms(1,3) cmp_le_less_trans [of "smallest_user m" "largest_user m'" "the b"] by (auto simp: inside_def)
next
  assume "e \<noteq> None \<and> 0 < ucmp (smallest_user m') (the e)"
  then show False using assms(1,2) cmp_less_le_trans [of "the e" "smallest_user m'" "largest_user m"] by (auto simp: inside_def cmp_greater)
qed

end

section \<open>Boundary tables\<close>

definition boundary :: "(bytes \<Rightarrow> bytes \<Rightarrow> int) \<Rightarrow> bytes \<Rightarrow> SSZoneMetaData \<Rightarrow> bool" where
  "boundary cmp k m \<longleftrightarrow> InternalKeyCompare cmp (smallest m) k > 0 \<and> cmp (smallest_user m) (ExtractUserKey k) = 0"

lemma FindSmallestBoundarySS_fold:
  "FindSmallestBoundarySS cmp ms k = foldl (\<lambda>best m. if boundary cmp k m then
     (case best of None \<Rightarrow> Some m | Some b \<Rightarrow> if InternalKeyCompare cmp (smallest m) (smallest b) < 0 then Some m else Some b) else best) None ms"
  by (simp add: FindSmallestBoundarySS_def boundary_def)

lemma FindSmallestBoundarySS_cases:
  "(FindSmallestBoundarySS cmp ms k = None \<and> (\<forall>m\<in>set ms. \<not> boundary cmp k m)) \<or>
   (\<exists>m\<in>set ms. boundary cmp k m \<and> FindSmallestBoundarySS cmp ms k = Some m)"
proof (induction ms rule: rev_induct)
  case (snoc m ms)
  then show ?case unfolding FindSmallestBoundarySS_fold by (auto split: option.splits)
qed (simp add: FindSmallestBoundarySS_fold)

definition wf_range :: "(bytes \<Rightarrow> bytes \<Rightarrow> int) \<Rightarrow> SSZoneMetaData \<Rightarrow> bool" where
  "wf_range cmp m \<longleftrightarrow> is_ikey (smallest m) \<and> is_ikey (largest m) \<and> InternalKeyCompare cmp (smallest m) (largest m) \<le> 0"

lemma FindLargestKey_mem: "FindLargestKey cmp ms = Some k \<Longrightarrow> \<exists>m\<in>set ms. k = largest m"
proof (induction ms arbitrary: k rule: rev_induct)
  case (snoc m ms)
  show ?case
  proof (cases ms)
    case Nil
    then show ?thesis using snoc.prems by (simp add: FindLargestKey_def)
  next
    case (Cons a as)
    then obtain k' where k': "FindLargestKey cmp ms = Some k'" by (simp add: FindLargestKey_def)
    then have "k = (if cmp (largest m) k' > 0 then largest m else k')" using snoc.prems Cons by (auto simp: FindLargestKey_def)
    then show ?thesis using snoc.IH [OF k'] by (auto split: if_splits)
  qed
qed (simp add: FindLargestKey_def)

context user_comparator
begin

lemma boundary_loop_spec:
  assumes "\<forall>m\<in>set ms. wf_range ucmp m" and "is_ikey k"
  shows "\<exists>added k'. boundary_loop ucmp ms k cs = Some (cs @ added) \<and> set added \<subseteq> set ms \<and> is_ikey k' \<and>
    k' = (if added = [] then k else largest (last added)) \<and> (\<forall>m\<in>set ms. \<not> boundary ucmp k' m)"
  using assms(2)
proof (induction "length (filter (\<lambda>m. InternalKeyCompare ucmp (smallest m) k > 0) ms)" arbitrary: k cs rule: less_induct)
  case less
  consider (none) "FindSmallestBoundarySS ucmp ms k = None" "\<forall>m\<in>set ms. \<not> boundary ucmp k m"
    | (some) m where "m \<in> set ms" "boundary ucmp k m" "FindSmallestBoundarySS ucmp ms k = Some m"
    using FindSmallestBoundarySS_cases [of ucmp ms k] by (elim disjE bexE conjE) auto
  then show ?case
  proof cases
    case none
    then show ?thesis using less.prems by (intro exI [of _ "[]"] exI [of _ k]) (simp add: boundary_loop.simps)
  next
    case some
    have wf: "is_ikey (smallest m)" "is_ikey (largest m)" "InternalKeyCompare ucmp (smallest m) (largest m) \<le> 0"
      using assms(1) some(1) by (simp_all add: wf_range_def)
    have km: "InternalKeyCompare ucmp k (smallest m) < 0"
      using some(2) internal.cmp_flip [OF less.prems wf(1)] by (simp add: boundary_def)
    then have kl: "InternalKeyCompare ucmp k (largest m) < 0" using internal.cmp_less_le_trans less.prems wf by blast
    have "InternalKeyCompare ucmp (smallest x) k > 0" if "x \<in> set ms" "InternalKeyCompare ucmp (smallest x) (largest m) > 0" for x
    proof -
      have x: "is_ikey (smallest x)" using assms(1) that(1) by (simp add: wf_range_def)
      then have "InternalKeyCompare ucmp (largest m) (smallest x) < 0" using that(2) internal.cmp_flip [OF wf(2) x] by simp
      then have "InternalKeyCompare ucmp k (smallest x) < 0" using kl internal.cmp_trans less.prems wf(2) x by blast
      then show ?thesis using internal.cmp_flip [OF less.prems x] by simp
    qed
    then have "length (filter (\<lambda>x. InternalKeyCompare ucmp (smallest x) (largest m) > 0) ms) <
        length (filter (\<lambda>x. InternalKeyCompare ucmp (smallest x) k > 0) ms)"
      using some wf by (intro length_filter_less [where x = m]) (auto simp: boundary_def)
    from less.hyps [OF this wf(2), of "cs @ [m]"] obtain added k' where a:
      "boundary_loop ucmp ms (largest m) (cs @ [m]) = Some ((cs @ [m]) @ added)" "set added \<subseteq> set ms" "is_ikey k'"
      "k' = (if added = [] then largest m else largest (last added))" "\<forall>m\<in>set ms. \<not> boundary ucmp k' m" by blast
    have "boundary_loop ucmp ms k cs = Some (cs @ m # added)" using a(1) some(3) by (subst boundary_loop.simps) simp
    then show ?thesis using a some(1) by (intro exI [of _ "m # added"] exI [of _ k']) auto
  qed
qed

end

section \<open>Properties of the selection\<close>

text \<open>C12: Selecting the tables that overlap a range always ends. The result has every table of the level that overlaps the range. For level 0, where
  tables may overlap each other, it is also closed: a table whose keys intersect those of a selected table is selected too, although
  every table that widens the range makes the search start again. In the lower levels it is exactly the overlapping tables.\<close>

theorem overlapping_inputs_closed:
  "\<exists>inputs. GetOverlappingInputs BytewiseCompare v level from until = Some inputs \<and> set inputs \<subseteq> set (ss v ! level) \<and>
     (\<forall>m\<in>set (ss v ! level). overlaps BytewiseCompare (map_option ExtractUserKey from) (map_option ExtractUserKey until) m \<longrightarrow> m \<in> set inputs) \<and>
     (level = 0 \<longrightarrow> (\<forall>m\<in>set inputs. \<forall>m'\<in>set (ss v ! level).
        BytewiseCompare (smallest_user m') (largest_user m) \<le> 0 \<and> BytewiseCompare (smallest_user m) (largest_user m') \<le> 0 \<longrightarrow> m' \<in> set inputs)) \<and>
     (level \<noteq> 0 \<longrightarrow> inputs = filter (overlaps BytewiseCompare (map_option ExtractUserKey from) (map_option ExtractUserKey until)) (ss v ! level))"
proof -
  let ?b = "map_option ExtractUserKey from" and ?e = "map_option ExtractUserKey until" and ?ms = "ss v ! level"
  obtain b' e' where s: "GetOverlappingInputs BytewiseCompare v level from until = Some (filter (overlaps BytewiseCompare b' e') ?ms)"
    "level = 0 \<longrightarrow> (\<forall>m\<in>set ?ms. overlaps BytewiseCompare b' e' m \<longrightarrow> inside BytewiseCompare b' e' m)"
    "level \<noteq> 0 \<longrightarrow> b' = ?b \<and> e' = ?e" "\<forall>m. overlaps BytewiseCompare ?b ?e m \<longrightarrow> overlaps BytewiseCompare b' e' m"
    using bytewise.overlap_loop_spec [of 0 ?ms "[]" ?b ?e level] unfolding GetOverlappingInputs_def by auto
  show ?thesis
  proof (intro exI [of _ "filter (overlaps BytewiseCompare b' e') ?ms"] conjI impI ballI)
    fix m m' assume "level = 0" and m: "m \<in> set (filter (overlaps BytewiseCompare b' e') ?ms)" and m': "m' \<in> set ?ms"
      and c: "BytewiseCompare (smallest_user m') (largest_user m) \<le> 0 \<and> BytewiseCompare (smallest_user m) (largest_user m') \<le> 0"
    then have "inside BytewiseCompare b' e' m" using s(2) by simp
    then have "overlaps BytewiseCompare b' e' m'" using bytewise.overlaps_closed c by blast
    then show "m' \<in> set (filter (overlaps BytewiseCompare b' e') ?ms)" using m' by simp
  qed (use s in auto)
qed

theorem overlapping_inputs_closed_witness:
  "\<exists>inputs. GetOverlappingInputs BytewiseCompare demo_version 0 None None = Some inputs \<and> set inputs = set (ss demo_version ! 0)"
proof -
  obtain inputs where "GetOverlappingInputs BytewiseCompare demo_version 0 None None = Some inputs" "set inputs \<subseteq> set (ss demo_version ! 0)"
    "\<forall>m\<in>set (ss demo_version ! 0). overlaps BytewiseCompare None None m \<longrightarrow> m \<in> set inputs"
    using overlapping_inputs_closed [of demo_version 0 None None] by auto
  moreover have "overlaps BytewiseCompare None None m" for m by (simp add: overlaps_def)
  ultimately show ?thesis by blast
qed



end
