(* ===== verification/Spec2Isabelle.thy ===== *)
theory Spec2Isabelle
  imports Coding Crc32c InternalKey Szd Committer Config WriteBatch Wal WalManager Manifest VersionEdit SSTable TableCache Version
begin

text \<open>
  A verification library for TropoDB, an LSM-tree key-value store for zoned (ZNS) devices that lives
  inside RocksDB (\<open>src/implementation/rocksdb/db/tropodb\<close>; paths below are relative to it unless they start with
  another directory of RocksDB).

  \<^bold>\<open>The program.\<close> A write is encoded as a write batch, appended to the current write-ahead log (WAL)
  and applied to the memtable. Full memtables are flushed to sorted tables of level 0; compactions merge tables into
  lower levels. The set of live tables is a version; every new version is written as a snapshot to the
  manifest and installed by a \<open>CURRENT\<close> record. A read consults the memtable and then the tables of the
  current version from the newest to the oldest. After a restart the version comes from the manifest and the memtable from the
  logs. Records reach the device through a committer that cuts them into checksummed fragments of a block.

  \<^bold>\<open>The theories,\<close> in the order of their dependencies:

  \<^item> \<open>Prelude\<close>: machine types, statuses, bounds-checked access to buffers, little-endian words.
  \<^item> \<open>Coding\<close> (\<open>util/coding.h\<close>, \<open>util/coding.cc\<close>): fixed-width integers, varints, length-prefixed slices. The locale \<open>prefix_codec\<close> is the
    contract of an encoder and its decoder; it is interpreted for every codec of the file.
  \<^item> \<open>Crc32c\<close> (\<open>util/crc32c.cc\<close>): the sliced CRC with its tables equals the bit-by-bit definition; masking.
  \<^item> \<open>InternalKey\<close> (\<open>db/dbformat.h\<close>, \<open>db/lookup_key.h\<close>, \<open>util/comparator.cc\<close>): internal keys, lookup keys, comparators. The
    locale \<open>comparator\<close> is a total order given by a three-way comparison; \<open>user_comparator\<close> induces the order of
    internal keys (\<open>sublocale\<close>) and is interpreted for the bytewise comparator.
  \<^item> \<open>Szd\<close> (\<open>io/szd_port.cc\<close>): the boundary to the SZD device library, whose logs and buffers are parameters, with the laws the code
    relies on as predicates and in-memory instances of them.
  \<^item> \<open>Committer\<close> (\<open>persistence/tropodb_committer.cc\<close>): fragmentation of records, both readers.
  \<^item> \<open>Config\<close> (\<open>tropodb_config_default.h\<close>): the constants the components read.
  \<^item> \<open>WriteBatch\<close> (\<open>db/write_batch.cc\<close>): the representation of batches and its iteration.
  \<^item> \<open>Wal\<close>, \<open>WalManager\<close> (\<open>persistence/tropodb_wal.cc\<close>, \<open>persistence/tropodb_wal_manager.ipp\<close>): one log, and the ring of logs with an inductive
    relation of reachable states.
  \<^item> \<open>Manifest\<close> (\<open>persistence/tropodb_manifest.cc\<close>): writing, installing, recovering and reading snapshots.
  \<^item> \<open>VersionEdit\<close> (\<open>index/tropodb_version_edit.cc\<close>, \<open>table/tropodb_zonemetadata.h\<close>): edits and metadata of tables.
  \<^item> \<open>SSTable\<close> (\<open>table/tropodb_sstable_builder.cc\<close>, \<open>table/tropodb_sstable_reader.cc\<close>,
    \<open>table/iterators/sstable_iterator_compressed.cc\<close>): the format of tables, its builder, iterator and lookup.
  \<^item> \<open>TableCache\<close> (\<open>table/tropodb_table_cache.cc\<close>): lookups that share one iterator per table.
  \<^item> \<open>Version\<close> (\<open>index/tropodb_version.cc\<close>): the lookup through the levels, overlapping tables.

  \<^bold>\<open>How state and operations correspond.\<close> A class is a \<open>record\<close> of its fields and each method one definition of the same
  name (with a prefix such as \<open>wal_\<close>, \<open>man_\<close>, \<open>sst_\<close> or \<open>it_\<close> where names clash) that takes the record and returns it updated; loops are recursive
  functions of their own. A \<open>Status\<close> is a value. \<open>None\<close> as the result of an operation is undefined behaviour of the C++ code, an
  access outside a buffer, so a theorem that gives a \<open>Some\<close> also shows memory safety. Words have their C++ width where they are
  stored, encoded or may wrap; sizes and positions are natural numbers and unchecked subtractions wrap explicitly (\<open>usub64\<close>). Assertions are
  compiled out, as in release builds. Locks, threads and timing counters are left out: an operation is one step.

  \<^bold>\<open>What is shown.\<close> Encodings are inverted by their decoders (integers, slices, internal keys, batches, committed records, edits,
  tables). The log replays what was appended in the order of the appends, for every order in which the device stored the
  pieces; a log handed out by the ring is empty and the logs in use survive a reset; the manifest recovers the snapshot that was installed last. Looking up a key
  in a table implements \<open>table_lookup\<close>, in every state that earlier lookups leave the shared iterator in, and the lookup through the levels returns
  the newest version of the key. Several lemmas record defects: they state what the code does
  where it differs from what it means to do.

  \<^bold>\<open>Bounds and fuel.\<close> Loops whose end depends on data are \<open>partial_function (option)\<close> and the theorems show that they
  return. The backward search of the manifest has the number of blocks as fuel, one more than it can need. Tables are
  smaller than \<open>2 ^ 32\<close> bytes, the width of the offsets the builder stores.

  \<^bold>\<open>Not modelled.\<close> The SZD library (not in the tree; a parameter), the skip list and the LRU cache of RocksDB (a parameter, and a map with
  arbitrary evictions), the scores of levels (floating point), threads, condition variables and scheduling, diagnostics and
  logging, and the rest of RocksDB, which TropoDB replaces.
\<close>

end
